(* ===== verification/Json.thy ===== *)
theory Json
  imports Complex_Main Prelude
begin

text \<open>
  The JSON values the sources match on (the public constructors of \<open>serde_json::Value\<close>) and
  the \<open>BTreeMap\<close>-backed object the crate uses for them: an association list kept strictly
  sorted by key, in the byte order of strings.
\<close>

section \<open>Values\<close>

text \<open>
  A \<open>serde_json::Number\<close> is a \<open>u64\<close>, a negative \<open>i64\<close> (here its 64 bits) or a finite
  \<open>f64\<close>, which is represented by the real number it denotes (JSON has no NaN and no infinity;
  the sign of a zero is not represented, and \<open>f64\<close> equality does not see it either).
\<close>

type_synonym u32 = "32 word"
type_synonym u64 = "64 word"

datatype number = PosInt u64 | NegInt u64 | Float real

datatype json =
    JNull
  | JBool bool
  | JNumber number
  | JString string
  | JArray "json list"
  | JObject "(string \<times> json) list"

text \<open>\<open>Number::as_i64\<close>: the value when it fits the signed 64-bit range.\<close>

fun as_i64 :: "number \<Rightarrow> int option" where
  "as_i64 (PosInt n) = (if uint n < 2 ^ 63 then Some (uint n) else None)"
| "as_i64 (NegInt n) = Some (sint n)"
| "as_i64 (Float r) = None"

fun as_object :: "json \<Rightarrow> (string \<times> json) list option" where
  "as_object (JObject m) = Some m"
| "as_object _ = None"

lemma as_object_eq_Some [simp]: "as_object v = Some m \<longleftrightarrow> v = JObject m"
  by (cases v) auto

lemma as_object_eq_None [simp]: "as_object v = None \<longleftrightarrow> (\<forall>m. v \<noteq> JObject m)"
  by (cases v) auto

section \<open>Sorted maps\<close>

text \<open>\<open>Map::insert\<close>: replaces the value of a present key, else inserts at the key's place.\<close>

fun obj_insert :: "'k :: linorder \<Rightarrow> 'v \<Rightarrow> ('k \<times> 'v) list \<Rightarrow> ('k \<times> 'v) list" where
  "obj_insert k v [] = [(k, v)]"
| "obj_insert k v (e # es) =
     (if fst e < k then e # obj_insert k v es
      else if fst e = k then (k, v) # es
      else (k, v) # e # es)"

definition obj_get :: "('k \<times> 'v) list \<Rightarrow> 'k \<Rightarrow> 'v option" where
  "obj_get m k = map_of m k"

definition obj_keys :: "('k \<times> 'v) list \<Rightarrow> 'k list" where
  "obj_keys m = map fst m"

text \<open>\<open>collect\<close> of an iterator of pairs into a map: later pairs win.\<close>

definition obj_of_list :: "('k :: linorder \<times> 'v) list \<Rightarrow> ('k \<times> 'v) list" where
  "obj_of_list ps = fold (\<lambda>(k, v) m. obj_insert k v m) ps []"

definition obj_ok :: "('k :: linorder \<times> 'v) list \<Rightarrow> bool" where
  "obj_ok m \<longleftrightarrow> sorted_wrt (<) (map fst m)"

lemma obj_ok_Nil [simp]: "obj_ok []"
  by (simp add: obj_ok_def)

lemma obj_ok_Cons: "obj_ok (e # es) \<longleftrightarrow> (\<forall>k \<in> fst ` set es. fst e < k) \<and> obj_ok es"
  by (simp add: obj_ok_def)

lemma obj_ok_distinct: "obj_ok m \<Longrightarrow> distinct (map fst m)"
  by (simp add: obj_ok_def strict_sorted_imp_sorted strict_sorted_iff)

lemma keys_obj_insert: "fst ` set (obj_insert k v m) = insert k (fst ` set m)"
  by (induction m) auto

lemma obj_ok_insert [intro, simp]: "obj_ok m \<Longrightarrow> obj_ok (obj_insert k v m)"
  by (induction m) (auto simp: obj_ok_Cons keys_obj_insert)

lemma obj_get_Nil [simp]: "obj_get [] k = None"
  by (simp add: obj_get_def)

lemma obj_get_notin: "k \<notin> fst ` set m \<Longrightarrow> obj_get m k = None"
  by (simp add: obj_get_def map_of_eq_None_iff)

lemma obj_get_in: "obj_get m k = Some v \<Longrightarrow> (k, v) \<in> set m"
  by (simp add: obj_get_def map_of_SomeD)

lemma obj_get_eq_None: "obj_get m k = None \<longleftrightarrow> k \<notin> set (obj_keys m)"
  by (simp add: obj_get_def obj_keys_def map_of_eq_None_iff)

lemma obj_get_insert:
  assumes "obj_ok m"
  shows "obj_get (obj_insert k v m) k' = (if k' = k then Some v else obj_get m k')"
  using assms
proof (induction m)
  case Nil
  then show ?case by (simp add: obj_get_def)
next
  case (Cons e es)
  obtain a b where e: "e = (a, b)" by force
  show ?case
  proof (cases "a < k")
    case True
    with Cons e show ?thesis by (auto simp: obj_get_def obj_ok_Cons)
  next
    case False
    then show ?thesis using e by (auto simp: obj_get_def)
  qed
qed

lemma obj_eta: "distinct (map fst m) \<Longrightarrow> map (\<lambda>k. (k, the (map_of m k))) (map fst m) = m"
  by (simp add: comp_def, rule map_idI) auto

text \<open>Two sorted maps with the same lookups are the same list.\<close>

lemma obj_ext:
  assumes "obj_ok m" and "obj_ok m'" and "\<And>k. obj_get m k = obj_get m' k"
  shows "m = m'"
proof -
  have "set m = set m'"
    using assms(3) map_of_inject_set [OF obj_ok_distinct [OF assms(1)] obj_ok_distinct [OF assms(2)]]
    by (simp add: obj_get_def fun_eq_iff)
  moreover from this have "map fst m = map fst m'"
    using assms(1,2) strict_sorted_equal unfolding obj_ok_def by (metis list.set_map)
  moreover have "map_of m = map_of m'" using assms(3) by (auto simp: obj_get_def)
  ultimately show ?thesis
    using obj_eta [OF obj_ok_distinct [OF assms(1)]] obj_eta [OF obj_ok_distinct [OF assms(2)]]
    by metis
qed

lemma obj_ok_fold:
  "obj_ok m \<Longrightarrow> obj_ok (fold (\<lambda>(k, v) m. obj_insert k v m) ps m)"
  by (induction ps arbitrary: m) auto

lemma obj_ok_of_list [simp]: "obj_ok (obj_of_list ps)"
  by (simp add: obj_of_list_def obj_ok_fold)

lemma obj_get_fold:
  "obj_ok m \<Longrightarrow>
   obj_get (fold (\<lambda>(k, v) m. obj_insert k v m) ps m) k =
     (case map_of (rev ps) k of None \<Rightarrow> obj_get m k | Some v \<Rightarrow> Some v)"
  by (induction ps arbitrary: m)
    (auto simp: obj_get_insert map_add_def split: option.splits)

lemma obj_get_of_list:
  "obj_get (obj_of_list ps) k = map_of (rev ps) k"
  by (simp add: obj_of_list_def obj_get_fold split: option.splits)

section \<open>Values as the library builds them\<close>

text \<open>Every object is a sorted map; \<open>printable\<close> values have no floating-point number in addition.\<close>

lemma size_in_obj: "(k, v) \<in> set m \<Longrightarrow> size v < size (JObject m)"
  by (induction m) auto

lemma size_in_array: "v \<in> set xs \<Longrightarrow> size v < size (JArray xs)"
  by (induction xs) auto

function json_ok :: "json \<Rightarrow> bool" where
  "json_ok (JObject m) \<longleftrightarrow> obj_ok m \<and> (\<forall>(k, v) \<in> set m. json_ok v)"
| "json_ok (JArray xs) \<longleftrightarrow> (\<forall>x \<in> set xs. json_ok x)"
| "json_ok JNull \<longleftrightarrow> True"
| "json_ok (JBool b) \<longleftrightarrow> True"
| "json_ok (JNumber n) \<longleftrightarrow> True"
| "json_ok (JString s) \<longleftrightarrow> True"
  by pat_completeness auto

termination
  by (relation "measure size") (auto dest: size_in_obj size_in_array simp del: json.size)

function printable :: "json \<Rightarrow> bool" where
  "printable (JObject m) \<longleftrightarrow> obj_ok m \<and> (\<forall>(k, v) \<in> set m. printable v)"
| "printable (JArray xs) \<longleftrightarrow> (\<forall>x \<in> set xs. printable x)"
| "printable JNull \<longleftrightarrow> True"
| "printable (JBool b) \<longleftrightarrow> True"
| "printable (JNumber n) \<longleftrightarrow> (case n of Float r \<Rightarrow> False | _ \<Rightarrow> True)"
| "printable (JString s) \<longleftrightarrow> True"
  by pat_completeness auto

termination
  by (relation "measure size") (auto dest: size_in_obj size_in_array simp del: json.size)

end
