(* ===== verification/Types.thy ===== *)
theory Types
  imports Json
begin

text \<open>
  The shared domain types of \<open>src/types.rs\<close> and the error type of \<open>src/error.rs\<close>, the storage
  strings of a branch status and of an entity type with their round trips, and the interface of
  the string codecs the crate takes from \<open>uuid\<close> and \<open>chrono\<close>.

  A \<open>Uuid\<close> is a 128-bit word (its order is the order of its bytes, the order of the word); a
  \<open>DateTime<Utc>\<close> is the integer number of nanoseconds since the epoch; a path is the list of its
  components; an \<open>f64\<close> is a real number.
\<close>

section \<open>Identifiers, times, paths\<close>

type_synonym uuid = "128 word"
type_synonym datetime = int
type_synonym path = "string list"

abbreviation nil_uuid :: uuid where
  "nil_uuid \<equiv> 0"

section \<open>Errors\<close>

text \<open>
  The errors wrapped from other crates (\<open>Database\<close>, \<open>Migration\<close>, \<open>Io\<close>, \<open>Serialization\<close>) carry
  a message.
\<close>

datatype branch_error =
    InvalidConfig string
  | PermissionDenied string
  | WorkspaceIsolationViolation uuid uuid
  | InvalidBranchName string
  | BranchLimitExceeded
  | Database string
  | Migration string
  | Io string
  | Serialization string
  | BranchNotFound uuid
  | BranchAlreadyExists string
  | BranchNotActive uuid string
  | SnapshotFailed uuid string
  | SnapshotCorrupt uuid path
  | SnapshotHashMissing uuid path
  | MergeConflictUnresolved "string list"
  | MergeIncompatibleBase uuid uuid string
  | DagCycle uuid uuid
  | CycleDetected uuid uuid
  | DagNodeNotFound uuid
  | DiffFailed uuid uuid string
  | CommitValidationFailed uuid "string list"
  | SandboxError string
  | MetricsError string
  | NamingError string
  | OrphanedSnapshot path

type_synonym 'a branch_result = "branch_error + 'a"

fun is_not_found :: "branch_error \<Rightarrow> bool" where
  "is_not_found (BranchNotFound _) = True"
| "is_not_found (DagNodeNotFound _) = True"
| "is_not_found _ = False"

fun is_merge_conflict :: "branch_error \<Rightarrow> bool" where
  "is_merge_conflict (MergeConflictUnresolved _) = True"
| "is_merge_conflict (MergeIncompatibleBase _ _ _) = True"
| "is_merge_conflict _ = False"

fun is_snapshot_error :: "branch_error \<Rightarrow> bool" where
  "is_snapshot_error (SnapshotFailed _ _) = True"
| "is_snapshot_error (SnapshotCorrupt _ _) = True"
| "is_snapshot_error (SnapshotHashMissing _ _) = True"
| "is_snapshot_error (OrphanedSnapshot _) = True"
| "is_snapshot_error _ = False"

fun is_dag_error :: "branch_error \<Rightarrow> bool" where
  "is_dag_error (DagCycle _ _) = True"
| "is_dag_error (CycleDetected _ _) = True"
| "is_dag_error (DagNodeNotFound _) = True"
| "is_dag_error _ = False"

section \<open>Branches\<close>

datatype branch_status =
    Active
  | Dormant
  | Merged uuid datetime
  | Discarded datetime
  | Archived
  | Orphan
  | Purged

definition is_live :: "branch_status \<Rightarrow> bool" where
  "is_live s = (case s of Active \<Rightarrow> True | Dormant \<Rightarrow> True | _ \<Rightarrow> False)"

definition can_commit :: "branch_status \<Rightarrow> bool" where
  "can_commit s = (case s of Active \<Rightarrow> True | _ \<Rightarrow> False)"

fun kind :: "branch_status \<Rightarrow> string" where
  "kind Active = ''active''"
| "kind Dormant = ''dormant''"
| "kind (Merged _ _) = ''merged''"
| "kind (Discarded _) = ''discarded''"
| "kind Archived = ''archived''"
| "kind Orphan = ''orphan''"
| "kind Purged = ''purged''"

record branch_metrics =
  op_count :: u64
  memory_record_count :: int
  session_count :: int
  tool_output_count :: int
  bytes_on_disk :: u64
  divergence_score :: real
  created_entity_count :: u64
  updated_entity_count :: u64
  deleted_entity_count :: u64
  last_activity_at :: "datetime option"

definition default_metrics :: branch_metrics where
  "default_metrics =
     \<lparr>op_count = 0, memory_record_count = 0, session_count = 0, tool_output_count = 0,
      bytes_on_disk = 0, divergence_score = 0, created_entity_count = 0,
      updated_entity_count = 0, deleted_entity_count = 0, last_activity_at = None\<rparr>"

record branch =
  br_id :: uuid
  br_name :: string
  br_slug :: string
  br_parent_id :: "uuid option"
  br_status :: branch_status
  br_db_path :: path
  br_snapshot_path :: path
  br_workspace_id :: uuid
  br_created_at :: datetime
  br_updated_at :: datetime
  br_forked_from_cursor :: "string option"
  br_description :: "string option"
  br_metadata :: json
  br_metrics :: branch_metrics

section \<open>Entities, diffs and merges\<close>

datatype entity_type = MemoryRecord | Session | ToolOutput

fun table_name :: "entity_type \<Rightarrow> string" where
  "table_name MemoryRecord = ''memory_records''"
| "table_name Session = ''sessions''"
| "table_name ToolOutput = ''tool_outputs''"

definition parse_entity_type :: "string \<Rightarrow> entity_type option" where
  "parse_entity_type value =
     (if value = ''memory_record'' \<or> value = ''memory_records'' then Some MemoryRecord
      else if value = ''session'' \<or> value = ''sessions'' then Some Session
      else if value = ''tool_output'' \<or> value = ''tool_outputs'' then Some ToolOutput
      else None)"

fun as_str :: "entity_type \<Rightarrow> string" where
  "as_str MemoryRecord = ''memory_record''"
| "as_str Session = ''session''"
| "as_str ToolOutput = ''tool_output''"

datatype diff_kind = Added | Removed | Modified | Unchanged

record field_diff =
  fd_field :: string
  fd_before :: json
  fd_after :: json

record entity_diff =
  ed_entity_id :: string
  ed_entity_type :: entity_type
  ed_diff_kind :: diff_kind
  ed_field_diffs :: "field_diff list"

record diff_stats =
  ds_added :: u32
  ds_removed :: u32
  ds_modified :: u32
  ds_unchanged :: u32
  ds_total_entities :: u32

definition default_stats :: diff_stats where
  "default_stats =
     \<lparr>ds_added = 0, ds_removed = 0, ds_modified = 0, ds_unchanged = 0, ds_total_entities = 0\<rparr>"

record diff_result =
  dr_branch_a_id :: uuid
  dr_branch_b_id :: uuid
  dr_compared_at :: datetime
  dr_entity_diffs :: "entity_diff list"
  dr_stats :: diff_stats
  dr_divergence_score :: real

record merge_conflict =
  mc_entity_id :: string
  mc_entity_type :: entity_type
  mc_base_value :: json
  mc_ours_value :: json
  mc_theirs_value :: json
  mc_conflicting_fields :: "string list"

record merge_result =
  mr_source_branch_id :: uuid
  mr_target_branch_id :: uuid
  mr_base_branch_id :: uuid
  mr_applied :: u32
  mr_skipped :: u32
  mr_conflicts :: "merge_conflict list"
  mr_duration_ms :: u64
  mr_success :: bool

record commit_log_entry =
  cl_id :: uuid
  cl_branch_id :: uuid
  cl_entity_type :: "entity_type option"
  cl_entity_ids :: "string list"
  cl_op_kind :: string
  cl_committed_at :: datetime
  cl_message :: "string option"

text \<open>The three entity types are finitely many and can be compared and sized by the library.\<close>

instantiation entity_type :: linorder
begin

definition rank_entity_type :: "entity_type \<Rightarrow> nat" where
  "rank_entity_type t = (case t of MemoryRecord \<Rightarrow> 0 | Session \<Rightarrow> 1 | ToolOutput \<Rightarrow> 2)"

definition less_eq_entity_type :: "entity_type \<Rightarrow> entity_type \<Rightarrow> bool" where
  "less_eq_entity_type s t \<longleftrightarrow> rank_entity_type s \<le> rank_entity_type t"

definition less_entity_type :: "entity_type \<Rightarrow> entity_type \<Rightarrow> bool" where
  "less_entity_type s t \<longleftrightarrow> rank_entity_type s < rank_entity_type t"

instance
  by standard
    (auto simp: less_eq_entity_type_def less_entity_type_def rank_entity_type_def
       split: entity_type.splits)

end

section \<open>Storage strings\<close>

text \<open>
  The string conversions the crate takes from \<open>uuid\<close> (\<open>Display\<close>, \<open>parse_str\<close>) and \<open>chrono\<close>
  (\<open>Display\<close>, \<open>to_rfc3339\<close>, \<open>FromStr\<close>). They are not part of the repository: every definition
  that uses them takes them as an argument, and what the code relies on is the locale below.
\<close>

record codec =
  uuid_str :: "uuid \<Rightarrow> string"
  uuid_parse :: "string \<Rightarrow> uuid option"
  dt_str :: "datetime \<Rightarrow> string"
  dt_rfc3339 :: "datetime \<Rightarrow> string"
  dt_parse :: "string \<Rightarrow> datetime option"

definition to_storage :: "codec \<Rightarrow> branch_status \<Rightarrow> string" where
  "to_storage C s =
     (case s of
        Active \<Rightarrow> ''active''
      | Dormant \<Rightarrow> ''dormant''
      | Archived \<Rightarrow> ''archived''
      | Orphan \<Rightarrow> ''orphan''
      | Purged \<Rightarrow> ''purged''
      | Merged merged_into merged_at \<Rightarrow>
          ''merged:'' @ uuid_str C merged_into @ '':'' @ dt_str C merged_at
      | Discarded discarded_at \<Rightarrow> ''discarded:'' @ dt_str C discarded_at)"

definition from_storage :: "codec \<Rightarrow> string \<Rightarrow> branch_status option" where
  "from_storage C value =
     (if value = ''active'' then Some Active
      else if value = ''dormant'' then Some Dormant
      else if value = ''archived'' then Some Archived
      else if value = ''orphan'' then Some Orphan
      else if value = ''purged'' then Some Purged
      else if starts_with ''merged:'' value then
        (case splitn 3 (CHR '':'') value of
           _ # id_part # at_part # _ \<Rightarrow>
             Option.bind (uuid_parse C id_part) (\<lambda>merged_into.
             Option.bind (dt_parse C at_part) (\<lambda>merged_at.
               Some (Merged merged_into merged_at)))
         | _ \<Rightarrow> None)
      else if starts_with ''discarded:'' value then
        Option.bind (split_once (CHR '':'') value) (\<lambda>(_, timestamp).
        Option.bind (dt_parse C timestamp) (\<lambda>discarded_at.
          Some (Discarded discarded_at)))
      else None)"

text \<open>
  What the crate documents: printing a \<open>Uuid\<close> or a time and parsing the text gives the value
  back, and the hyphenated form of a \<open>Uuid\<close> has no colon.
\<close>

locale codec_laws =
  fixes C :: codec
  assumes uuid_roundtrip: "uuid_parse C (uuid_str C u) = Some u"
    and uuid_no_colon: "CHR '':'' \<notin> set (uuid_str C u)"
    and dt_roundtrip: "dt_parse C (dt_str C t) = Some t"
    and rfc3339_roundtrip: "dt_parse C (dt_rfc3339 C t) = Some t"
begin

lemma splitn_merged:
  "splitn 3 (CHR '':'') (''merged:'' @ uuid_str C u @ '':'' @ d) = [''merged'', uuid_str C u, d]"
proof -
  have "split_once (CHR '':'') (''merged'' @ CHR '':'' # (uuid_str C u @ CHR '':'' # d)) =
          Some (''merged'', uuid_str C u @ CHR '':'' # d)"
    by (rule split_once_append) simp
  moreover have "split_once (CHR '':'') (uuid_str C u @ CHR '':'' # d) = Some (uuid_str C u, d)"
    by (rule split_once_append [OF uuid_no_colon])
  ultimately show ?thesis by (simp add: numeral_3_eq_3)
qed

lemma split_discarded:
  "split_once (CHR '':'') (''discarded:'' @ d) = Some (''discarded'', d)"
  using split_once_append [of "CHR '':''" "''discarded''" d] by simp

lemma storage_roundtrip: "from_storage C (to_storage C s) = Some s"
proof (cases s)
  case (Merged u t)
  have "to_storage C s = ''merged:'' @ uuid_str C u @ '':'' @ dt_str C t"
    using Merged by (simp add: to_storage_def)
  moreover have "starts_with ''merged:'' (''merged:'' @ uuid_str C u @ '':'' @ dt_str C t)"
    by (simp add: starts_with_def)
  ultimately show ?thesis
    using Merged splitn_merged [of u "dt_str C t"]
    by (simp add: from_storage_def uuid_roundtrip dt_roundtrip)
next
  case (Discarded t)
  have "to_storage C s = ''discarded:'' @ dt_str C t"
    using Discarded by (simp add: to_storage_def)
  moreover have "starts_with ''discarded:'' (''discarded:'' @ dt_str C t)"
    by (simp add: starts_with_def)
  ultimately show ?thesis
    using Discarded split_discarded [of "dt_str C t"]
    by (simp add: from_storage_def starts_with_def dt_roundtrip)
qed (simp_all add: to_storage_def from_storage_def)

end

text \<open>
  A concrete codec with these laws, used by the witnesses: identifiers in decimal, times in
  decimal with a sign.
\<close>

definition show_int :: "int \<Rightarrow> string" where
  "show_int i = (if i < 0 then CHR ''-'' # show_nat (nat (- i)) else show_nat (nat i))"

definition read_int :: "string \<Rightarrow> int" where
  "read_int s =
     (case s of CHR ''-'' # r \<Rightarrow> - int (read_nat r) | _ \<Rightarrow> int (read_nat s))"

definition decimal_codec :: codec where
  "decimal_codec =
     \<lparr>uuid_str = (\<lambda>u. show_nat (unat u)), uuid_parse = (\<lambda>s. Some (of_nat (read_nat s))),
      dt_str = show_int, dt_rfc3339 = show_int, dt_parse = (\<lambda>s. Some (read_int s))\<rparr>"

lemma show_nat_no_char: "\<not> (48 \<le> (of_char c :: nat) \<and> (of_char c :: nat) \<le> 57) \<Longrightarrow> c \<notin> set (show_nat n)"
  using show_nat_chars by blast

lemma read_show_int: "read_int (show_int i) = i"
proof (cases "i < 0")
  case True
  then show ?thesis by (simp add: show_int_def read_int_def read_show_nat)
next
  case False
  obtain c r where cr: "show_nat (nat i) = c # r"
    using show_nat_not_Nil by (metis neq_Nil_conv)
  have "c \<noteq> CHR ''-''"
    using show_nat_no_char [of "CHR ''-''" "nat i"] cr by auto
  then have "read_int (c # r) = int (read_nat (c # r))"
    by (simp add: read_int_def split: char.splits bool.splits)
  with False cr show ?thesis
    using read_show_nat [of "nat i"] by (simp add: show_int_def)
qed

interpretation decimal: codec_laws decimal_codec
  by unfold_locales
    (simp_all add: decimal_codec_def read_show_nat read_show_int show_nat_no_char)

text \<open>
  the storage string of a branch status parses back to the status.\<close>

theorem status_storage_roundtrip:
  assumes "codec_laws C"
  shows "from_storage C (to_storage C s) = Some s"
  using assms by (rule codec_laws.storage_roundtrip)

theorem status_storage_roundtrip_witness:
  "from_storage decimal_codec (to_storage decimal_codec (Merged 7 (- 12))) = Some (Merged 7 (- 12))"
  by (rule status_storage_roundtrip [OF decimal.codec_laws_axioms])

text \<open>Both names of an entity type parse back to it, and nothing else parses.\<close>

theorem entity_type_names:
  "parse_entity_type s = Some t \<longleftrightarrow> s = as_str t \<or> s = table_name t"
  by (cases t) (auto simp: parse_entity_type_def)

lemma kind_eq_iff:
  "kind s = kind t \<longleftrightarrow>
     (case (s, t) of (Merged _ _, Merged _ _) \<Rightarrow> True | (Discarded _, Discarded _) \<Rightarrow> True
      | _ \<Rightarrow> s = t)"
  by (cases s; cases t) auto

lemma is_live_simps [simp]:
  "is_live Active" "is_live Dormant" "\<not> is_live (Merged u t)" "\<not> is_live (Discarded t)"
  "\<not> is_live Archived" "\<not> is_live Orphan" "\<not> is_live Purged"
  by (simp_all add: is_live_def)

lemma is_live_iff: "is_live s \<longleftrightarrow> s = Active \<or> s = Dormant"
  by (cases s) auto

text \<open>The live statuses are exactly those the two literal storage strings name.\<close>

lemma to_storage_live_iff:
  "to_storage C s = ''active'' \<or> to_storage C s = ''dormant'' \<longleftrightarrow> is_live s"
  by (cases s) (auto simp: to_storage_def)

end
