(* ===== verification/Naming.thy ===== *)
theory Naming
  imports Types
begin

text \<open>
  \<open>src/branch/naming.rs\<close>: validation of branch names, slug derivation and the numeric suffix
  that makes a slug unique. A name is a byte string; \<open>slugify\<close> walks the name's characters, so
  its argument is the list of their code points.
\<close>

section \<open>Validation\<close>

definition ascii_alphanumeric :: "char \<Rightarrow> bool" where
  "ascii_alphanumeric c =
     (let n = (of_char c :: nat)
      in 48 \<le> n \<and> n \<le> 57 \<or> 65 \<le> n \<and> n \<le> 90 \<or> 97 \<le> n \<and> n \<le> 122)"

definition name_byte :: "char \<Rightarrow> bool" where
  "name_byte b \<longleftrightarrow>
     ascii_alphanumeric b \<or> b = CHR ''_'' \<or> b = CHR ''/'' \<or> b = CHR ''.'' \<or> b = CHR ''-''"

definition chars_valid :: "string \<Rightarrow> bool" where
  "chars_valid name =
     (let len = length name
      in if len = 0 \<or> len > 128 then False else list_all name_byte name)"

definition validate :: "string \<Rightarrow> unit branch_result" where
  "validate name =
     (if \<not> chars_valid name then Inl (InvalidBranchName name)
      else if starts_with ''/'' name then Inl (InvalidBranchName name)
      else if list_ex (\<lambda>segment. segment = ''..'') (split_on (CHR ''/'') name)
        then Inl (InvalidBranchName name)
      else Inr ())"

definition is_reserved :: "string \<Rightarrow> bool" where
  "is_reserved name \<longleftrightarrow>
     map ascii_lower name \<in> {''trunk'', ''main'', ''master'', ''head''}"

definition namespace :: "string \<Rightarrow> string option" where
  "namespace name = map_option fst (split_once (CHR ''/'') name)"

definition short_name :: "string \<Rightarrow> string" where
  "short_name name = last (split_on (CHR ''/'') name)"

section \<open>Slugs\<close>

text \<open>
  The two Unicode tables of Rust's \<open>char\<close> that the loop consults. Nothing below depends on
  what they hold: whatever \<open>to_lowercase\<close> yields is pushed only when it is one of the ASCII
  characters of the first arm.
\<close>

record unicode =
  to_lowercase :: "nat \<Rightarrow> nat list"
  is_whitespace :: "nat \<Rightarrow> bool"

definition slug_char :: "nat \<Rightarrow> bool" where
  "slug_char ch \<longleftrightarrow> 97 \<le> ch \<and> ch \<le> 122 \<or> 48 \<le> ch \<and> ch \<le> 57 \<or> ch = 95 \<or> ch = 47 \<or> ch = 46"

definition slug_step :: "unicode \<Rightarrow> string \<times> bool \<Rightarrow> nat \<Rightarrow> string \<times> bool" where
  "slug_step U st ch =
     (case st of (slug, last_was_dash) \<Rightarrow>
        if slug_char ch then
          (if ch = 47 \<and> slug \<noteq> [] \<and> last slug = CHR ''/'' then (slug, last_was_dash)
           else (slug @ [char_of ch], False))
        else if ch = 45 then
          (if slug = [] \<or> last_was_dash then (slug, last_was_dash)
           else (slug @ ''-'', True))
        else if is_whitespace U ch then
          (if slug \<noteq> [] \<and> \<not> last_was_dash then (slug @ ''-'', True)
           else (slug, last_was_dash))
        else (slug, last_was_dash))"

text \<open>
  The loop leaves at 128 bytes. (The two \<open>continue\<close>s skip the length test, but they push
  nothing, so the test would not have stopped the loop there either.)
\<close>

fun slug_loop :: "unicode \<Rightarrow> string \<times> bool \<Rightarrow> nat list \<Rightarrow> string \<times> bool" where
  "slug_loop U st [] = st"
| "slug_loop U st (ch # chs) =
     (let st' = slug_step U st ch
      in if length (fst st') \<ge> 128 then st' else slug_loop U st' chs)"

definition edge_char :: "char \<Rightarrow> bool" where
  "edge_char ch \<longleftrightarrow> ch = CHR ''-'' \<or> ch = CHR ''_'' \<or> ch = CHR ''/''"

definition slugify :: "unicode \<Rightarrow> nat list \<Rightarrow> string" where
  "slugify U name =
     (let slug = fst (slug_loop U ([], False) (concat (map (to_lowercase U) name)));
          slug = take 128 slug;
          slug = trim_matches edge_char slug;
          slug = (if slug = [] then ''branch'' else slug);
          slug = (if is_reserved slug then slug @ ''-branch'' else slug);
          slug = (if length slug > 128 then trim_matches edge_char (take 128 slug) else slug);
          slug = (if validate slug \<noteq> Inr ()
                  then trim_matches edge_char (replace_char (CHR ''/'') (CHR ''-'') slug)
                  else slug)
      in if validate slug \<noteq> Inr () then ''branch'' else slug)"

text \<open>
  The suffix search. The counter is a \<open>u32\<close>; the addition is the wrapping one of a release
  build (a debug build stops with an overflow panic at the same point). \<open>None\<close> is a loop that
  never finds a free suffix.
\<close>

definition suffixed :: "string \<Rightarrow> nat \<Rightarrow> string" where
  "suffixed slug index = slug @ ''-'' @ show_nat index"

partial_function (option) unique_loop :: "string \<Rightarrow> string list \<Rightarrow> u32 \<Rightarrow> string option" where
  "unique_loop slug existing_slugs index =
     (if suffixed slug (unat index) \<notin> set existing_slugs
      then Some (suffixed slug (unat index))
      else unique_loop slug existing_slugs (index + 1))"

definition make_unique :: "string \<Rightarrow> string list \<Rightarrow> string option" where
  "make_unique slug existing_slugs =
     (if slug \<notin> set existing_slugs then Some slug
      else unique_loop slug existing_slugs 2)"

section \<open>Validation accepts exactly the path-safe names\<close>

lemma starts_with_slash: "starts_with ''/'' name \<longleftrightarrow> name \<noteq> [] \<and> hd name = CHR ''/''"
  by (cases name) (auto simp: starts_with_def)

lemma validate_cases: "validate name = Inr () \<or> validate name = Inl (InvalidBranchName name)"
  by (simp add: validate_def)

lemma validate_ok_iff:
  "validate name = Inr () \<longleftrightarrow>
     1 \<le> length name \<and> length name \<le> 128 \<and> (\<forall>b \<in> set name. name_byte b) \<and>
     hd name \<noteq> CHR ''/'' \<and> ''..'' \<notin> set (split_on (CHR ''/'') name)"
  by (cases name)
    (auto simp: validate_def chars_valid_def Let_def starts_with_def list_all_iff list_ex_iff)

section \<open>Slugs are canonical\<close>

definition slug_ok :: "string \<Rightarrow> bool" where
  "slug_ok s \<longleftrightarrow>
     validate s = Inr () \<and> \<not> is_reserved s \<and>
     (\<forall>c \<in> set s. slug_char (of_char c) \<or> c = CHR ''-'') \<and>
     \<not> edge_char (hd s) \<and> \<not> edge_char (last s)"

lemma char_eqI: "(of_char c :: nat) = of_char d \<Longrightarrow> c = d"
  by simp

lemma slug_char_byte:
  assumes "slug_char (of_char c) \<or> c = CHR ''-''"
  shows "name_byte c"
proof (cases "c = CHR ''-''")
  case True
  then show ?thesis by (simp add: name_byte_def)
next
  case False
  then have "slug_char (of_char c)" using assms by blast
  moreover have "(of_char c :: nat) = 95 \<Longrightarrow> c = CHR ''_''"
    and "(of_char c :: nat) = 47 \<Longrightarrow> c = CHR ''/''"
    and "(of_char c :: nat) = 46 \<Longrightarrow> c = CHR ''.''"
    by (rule char_eqI; simp)+
  ultimately show ?thesis
    by (auto simp: slug_char_def name_byte_def ascii_alphanumeric_def)
qed

definition slug_chars :: "string \<Rightarrow> bool" where
  "slug_chars s \<longleftrightarrow> (\<forall>c \<in> set s. slug_char (of_char c) \<or> c = CHR ''-'')"

lemma slug_chars_subset: "slug_chars s \<Longrightarrow> set t \<subseteq> set s \<Longrightarrow> slug_chars t"
  by (auto simp: slug_chars_def)

lemma slug_chars_step:
  assumes "slug_chars (fst st)"
  shows "slug_chars (fst (slug_step U st ch)) \<and> length (fst (slug_step U st ch)) \<le> length (fst st) + 1"
proof (cases "slug_char ch")
  case True
  then have "ch < 256" by (auto simp: slug_char_def)
  then have "(of_char (char_of ch :: char) :: nat) = ch" by (simp add: of_char_of)
  with True assms show ?thesis
    by (auto simp: slug_step_def slug_chars_def split: prod.splits)
next
  case False
  with assms show ?thesis
    by (auto simp: slug_step_def slug_chars_def split: prod.splits)
qed

lemma slug_chars_loop:
  "slug_chars (fst st) \<Longrightarrow> length (fst st) < 128 \<Longrightarrow>
   slug_chars (fst (slug_loop U st chs)) \<and> length (fst (slug_loop U st chs)) \<le> 128"
proof (induction chs arbitrary: st)
  case Nil
  then show ?case by simp
next
  case (Cons ch chs)
  let ?st = "slug_step U st ch"
  have st: "slug_chars (fst ?st)" "length (fst ?st) \<le> 128"
    using slug_chars_step [OF Cons.prems(1), of U ch] Cons.prems(2) by auto
  show ?case
  proof (cases "length (fst ?st) \<ge> 128")
    case True
    with st show ?thesis by (simp add: Let_def)
  next
    case False
    with Cons.IH [OF st(1)] show ?thesis by (simp add: Let_def)
  qed
qed

lemma slug_chars_replace:
  "slug_chars s \<Longrightarrow> slug_chars (replace_char (CHR ''/'') (CHR ''-'') s)"
  by (auto simp: slug_chars_def replace_char_def)

lemma trim_keeps: "x \<in> set s \<Longrightarrow> \<not> P x \<Longrightarrow> x \<in> set (trim_matches P s)"
proof -
  have keep: "x \<in> set (dropWhile P t)" if "x \<in> set t" "\<not> P x" for t
    using that by (induction t) auto
  assume "x \<in> set s" "\<not> P x"
  then show ?thesis using keep by (simp add: trim_matches_def)
qed

text \<open>Reserved names are letters only; a dot or a dash rules them out.\<close>

lemma reserved_letters: "is_reserved s \<Longrightarrow> c \<in> set s \<Longrightarrow> c \<noteq> CHR ''.'' \<and> c \<noteq> CHR ''-''"
proof -
  assume r: "is_reserved s" and c: "c \<in> set s"
  have "ascii_lower c \<in> set (map ascii_lower s)" using c by simp
  then have "ascii_lower c \<in> set ''trunk'' \<union> set ''main'' \<union> set ''master'' \<union> set ''head''"
    using r by (auto simp: is_reserved_def)
  moreover have "ascii_lower (CHR ''.'') = CHR ''.''" "ascii_lower (CHR ''-'') = CHR ''-''"
    by (simp_all add: ascii_lower_def)
  ultimately show ?thesis by auto
qed

text \<open>
  The stages of \<open>slugify\<close> after the loop, as one function of the loop's result, and what each
  keeps: the characters, the length, the trimmed ends.
\<close>

definition trimmed :: "string \<Rightarrow> bool" where
  "trimmed s \<longleftrightarrow> s \<noteq> [] \<and> \<not> edge_char (hd s) \<and> \<not> edge_char (last s)"

lemma trimmed_trim: "trim_matches edge_char s \<noteq> [] \<Longrightarrow> trimmed (trim_matches edge_char s)"
  by (simp add: trimmed_def trim_matches_hd trim_matches_last)

lemma validate_branch: "validate ''branch'' = Inr ()"
  by (simp add: validate_ok_iff name_byte_def ascii_alphanumeric_def)

lemma slug_ok_branch: "slug_ok ''branch''"
  by (simp add: slug_ok_def validate_branch is_reserved_def ascii_lower_def slug_char_def
      edge_char_def char_of_def)

lemma slug_okI:
  "validate s = Inr () \<Longrightarrow> \<not> is_reserved s \<Longrightarrow> slug_chars s \<Longrightarrow> trimmed s \<Longrightarrow> slug_ok s"
  by (simp add: slug_ok_def slug_chars_def trimmed_def)

lemma validate_fails_dots:
  assumes "slug_chars s" "trimmed s" "length s \<le> 128" "validate s \<noteq> Inr ()"
  shows "CHR ''.'' \<in> set s"
proof -
  have "\<forall>b \<in> set s. name_byte b"
    using assms(1) slug_char_byte by (auto simp: slug_chars_def)
  moreover have "1 \<le> length s" "hd s \<noteq> CHR ''/''"
    using assms(2) by (cases s; auto simp: trimmed_def edge_char_def)+
  ultimately have "''..'' \<in> set (split_on (CHR ''/'') s)"
    using assms(3,4) by (simp add: validate_ok_iff)
  then show ?thesis using split_on_segments_subset by fastforce
qed

lemma slug_reserved_suffix:
  assumes "is_reserved s"
  shows "length (s @ ''-branch'') \<le> 128 \<and> \<not> is_reserved (s @ ''-branch'')"
proof -
  have "length s = length (map ascii_lower s)" by simp
  also have "\<dots> \<le> 6" using assms by (auto simp: is_reserved_def)
  finally have "length (s @ ''-branch'') \<le> 128" by simp
  moreover have "CHR ''-'' \<in> set (s @ ''-branch'')" by simp
  ultimately show ?thesis using reserved_letters by blast
qed

lemma slugify_ok: "slug_ok (slugify U name)"
proof -
  define s1 where "s1 = fst (slug_loop U ([], False) (concat (map (to_lowercase U) name)))"
  define s2 where "s2 = trim_matches edge_char (take 128 s1)"
  define s3 where "s3 = (if s2 = [] then ''branch'' else s2)"
  define s4 where "s4 = (if is_reserved s3 then s3 @ ''-branch'' else s3)"
  define s5 where "s5 = (if validate s4 \<noteq> Inr ()
      then trim_matches edge_char (replace_char (CHR ''/'') (CHR ''-'') s4) else s4)"
  have 1: "slug_chars s1" "length s1 \<le> 128"
    using slug_chars_loop [of "([], False)" U] by (auto simp: s1_def slug_chars_def)
  have 2: "slug_chars s2" "length s2 \<le> 128"
    using 1 slug_chars_subset [OF 1(1)] trim_matches_subset [of edge_char s1]
      trim_matches_length [of edge_char s1] by (auto simp: s2_def)
  have br: "slug_chars ''branch'' \<and> trimmed ''branch''"
    using slug_ok_branch by (simp add: slug_ok_def slug_chars_def trimmed_def)
  have 3: "slug_chars s3" "length s3 \<le> 128" "trimmed s3"
    using 2 br trimmed_trim by (auto simp: s3_def s2_def)
  have 4: "slug_chars s4" "length s4 \<le> 128" "trimmed s4" "\<not> is_reserved s4"
  proof -
    have "slug_chars (s3 @ ''-branch'')" "trimmed (s3 @ ''-branch'')"
      using 3 br by (auto simp: slug_chars_def trimmed_def edge_char_def)
    then show "slug_chars s4" "length s4 \<le> 128" "trimmed s4" "\<not> is_reserved s4"
      using 3 slug_reserved_suffix [of s3] by (auto simp: s4_def)
  qed
  have 5: "slug_ok s5" if ok: "validate s5 = Inr ()"
  proof (cases "validate s4 = Inr ()")
    case True
    then show ?thesis using 4 by (auto simp: s5_def intro: slug_okI)
  next
    case False
    let ?r = "replace_char (CHR ''/'') (CHR ''-'') s4"
    have s5: "s5 = trim_matches edge_char ?r" using False by (simp add: s5_def)
    have "CHR ''.'' \<in> set s4" using validate_fails_dots 4 False by blast
    then have "CHR ''.'' \<in> set ?r" by (force simp: replace_char_def)
    then have dot: "CHR ''.'' \<in> set s5" by (simp add: s5 trim_keeps edge_char_def)
    then have "s5 \<noteq> []" by auto
    then have "trimmed s5" unfolding s5 by (rule trimmed_trim)
    moreover have "\<not> is_reserved s5" using dot reserved_letters by blast
    moreover have "slug_chars s5"
      unfolding s5 by (rule slug_chars_subset [OF slug_chars_replace [OF 4(1)] trim_matches_subset])
    ultimately show ?thesis using ok by (intro slug_okI)
  qed
  have "slugify U name = (if validate s5 \<noteq> Inr () then ''branch'' else s5)"
    unfolding slugify_def Let_def s1_def [symmetric] s2_def [symmetric] s3_def [symmetric]
      s4_def [symmetric] using 4(2) by (simp add: s5_def)
  then show ?thesis using 5 slug_ok_branch by simp
qed

section \<open>Unique slugs\<close>

lemma suffixed_inj: "suffixed slug i = suffixed slug j \<Longrightarrow> i = j"
  by (auto simp: suffixed_def dest: show_nat_inj)

lemma unat_u32: "n < 2 ^ 32 \<Longrightarrow> unat (of_nat n :: u32) = n"
  by (simp add: unat_of_nat take_bit_nat_eq_self)

lemma unique_loop_reaches:
  assumes "i \<le> k" "k < 2 ^ 32" "suffixed slug k \<notin> set existing"
    and "\<And>j. i \<le> j \<Longrightarrow> j < k \<Longrightarrow> suffixed slug j \<in> set existing"
  shows "unique_loop slug existing (of_nat i) = Some (suffixed slug k)"
  using assms
proof (induction "k - i" arbitrary: i)
  case 0
  then have "i = k" by simp
  with 0 show ?case by (simp add: unique_loop.simps unat_u32)
next
  case (Suc n)
  then have ik: "i < k" by simp
  then have "suffixed slug i \<in> set existing" using Suc.prems(4) by simp
  moreover have "unat (of_nat i :: u32) = i" using ik Suc.prems(2) by (simp add: unat_u32)
  ultimately have "unique_loop slug existing (of_nat i) = unique_loop slug existing (of_nat (Suc i))"
    by (subst unique_loop.simps) (simp add: add.commute)
  also have "\<dots> = Some (suffixed slug k)"
    using Suc.hyps(2) ik Suc.prems by (intro Suc.hyps(1)) auto
  finally show ?case .
qed

lemma free_suffix:
  "\<exists>k. 2 \<le> k \<and> k \<le> length existing + 2 \<and> suffixed slug k \<notin> set existing"
proof (rule ccontr)
  assume "\<not> ?thesis"
  then have "suffixed slug ` {2..length existing + 2} \<subseteq> set existing" by fastforce
  then have "card (suffixed slug ` {2..length existing + 2}) \<le> card (set existing)"
    by (rule card_mono [rotated]) simp
  also have "card (suffixed slug ` {2..length existing + 2}) = length existing + 1"
    by (subst card_image) (auto simp: inj_on_def dest: suffixed_inj)
  finally show False using card_length [of existing] by simp
qed

text \<open>The result: the slug itself when free, else the least free numeric suffix from 2 on.\<close>

lemma make_unique_least:
  assumes "length existing < 2 ^ 32 - 2"
  shows "\<exists>s. make_unique slug existing = Some s \<and> s \<notin> set existing \<and>
           (s = slug \<and> slug \<notin> set existing \<or>
            slug \<in> set existing \<and>
            (\<exists>k \<ge> 2. k \<le> length existing + 2 \<and> s = suffixed slug k \<and>
              (\<forall>j. 2 \<le> j \<longrightarrow> j < k \<longrightarrow> suffixed slug j \<in> set existing)))"
proof (cases "slug \<in> set existing")
  case False
  then show ?thesis by (simp add: make_unique_def)
next
  case True
  define P where "P k \<longleftrightarrow> 2 \<le> k \<and> suffixed slug k \<notin> set existing" for k
  define k where "k = (LEAST k. P k)"
  obtain k0 where k0: "P k0" "k0 \<le> length existing + 2"
    using free_suffix [of existing slug] by (auto simp: P_def)
  have Pk: "P k" unfolding k_def by (rule LeastI [of P, OF k0(1)])
  have kle: "k \<le> length existing + 2"
    using Least_le [of P, OF k0(1)] k0(2) by (simp add: k_def)
  have least: "suffixed slug j \<in> set existing" if "2 \<le> j" "j < k" for j
    using not_less_Least [of j P] that by (auto simp: k_def P_def)
  have "unique_loop slug existing (of_nat 2) = Some (suffixed slug k)"
    by (rule unique_loop_reaches) (use Pk kle assms least in \<open>auto simp: P_def\<close>)
  then have "make_unique slug existing = Some (suffixed slug k)"
    using True by (simp add: make_unique_def)
  then show ?thesis using True Pk kle least by (auto simp: P_def)
qed

lemma make_unique_fresh:
  "make_unique slug existing = Some s \<Longrightarrow> s \<notin> set existing"
proof (cases "slug \<in> set existing")
  case True
  assume "make_unique slug existing = Some s"
  with True have "unique_loop slug existing 2 = Some s" by (simp add: make_unique_def)
  then show ?thesis
    by (rule unique_loop.raw_induct [rotated]) (auto split: if_splits)
qed (auto simp: make_unique_def)

section \<open>Properties\<close>

text \<open>
  \<open>validate\<close> accepts exactly the names of 1 to 128 bytes from \<open>[a-zA-Z0-9_/.-]\<close> that do not
  start with a slash and have no \<open>..\<close> segment (so no accepted name escapes a directory).
\<close>

theorem validate_correct:
  "validate name = Inr () \<longleftrightarrow>
     1 \<le> length name \<and> length name \<le> 128 \<and> (\<forall>b \<in> set name. name_byte b) \<and>
     hd name \<noteq> CHR ''/'' \<and> ''..'' \<notin> set (split_on (CHR ''/'') name)"
  by (rule validate_ok_iff)

theorem validate_correct_witness: "validate ''a/b'' = Inr ()"
  using validate_correct [of "''a/b''"]
  by (simp add: name_byte_def ascii_alphanumeric_def)

text \<open>
  whatever the label and whatever the Unicode tables, \<open>slugify\<close> yields a valid, not reserved,
  lowercase slug whose ends are neither dash, underscore nor slash.
\<close>

theorem slugify_canonical: "slug_ok (slugify U name)"
  by (rule slugify_ok)

text \<open>
  C29: with fewer than 2^32 - 2 existing slugs the suffix search ends without wrapping its counter,
  and returns the slug itself when it is free, else the slug with the least free suffix from 2 on.
\<close>

theorem make_unique_correct:
  assumes "length existing < 2 ^ 32 - 2"
  shows "\<exists>s. make_unique slug existing = Some s \<and> s \<notin> set existing \<and>
           (s = slug \<and> slug \<notin> set existing \<or>
            slug \<in> set existing \<and>
            (\<exists>k \<ge> 2. k \<le> length existing + 2 \<and> s = suffixed slug k \<and>
              (\<forall>j. 2 \<le> j \<longrightarrow> j < k \<longrightarrow> suffixed slug j \<in> set existing)))"
  by (rule make_unique_least [OF assms])

theorem make_unique_correct_witness:
  "\<exists>s. make_unique ''a'' [''a''] = Some s \<and> s \<noteq> ''a''"
  using make_unique_correct [of "[''a'']" "''a''"] by auto

end
