(* ===== verification/Search.thy ===== *)
theory Search
  imports Prelude
begin

text \<open>
  Work-list search over a neighbour function, as the lineage graph runs it: \<open>ancestors_of\<close> and
  \<open>dfs_ancestor_set\<close> with a stack, \<open>subtree_of\<close> with a queue, and the breadth-first depth map of
  \<open>depth_of\<close> and \<open>bfs_depth_map\<close>. The loops are \<open>while\<close> loops over a graph the sources do not
  own, so they are partial functions into \<open>option\<close> (\<open>None\<close> is a loop that does not end) and
  their termination is a theorem: they return on every finite graph that is closed under the
  neighbour function.
\<close>

section \<open>Reachability with a seen set\<close>

text \<open>
  The inner loop, for the neighbours in their order: a neighbour that \<open>seen.insert\<close> accepts is
  output and pushed. The result is the list of the accepted ones.
\<close>

fun expand :: "'n set \<Rightarrow> 'n list \<Rightarrow> 'n list" where
  "expand seen [] = []"
| "expand seen (x # xs) =
     (if x \<in> seen then expand seen xs else x # expand (insert x seen) xs)"

text \<open>
  The outer loop. A stack (\<open>fifo\<close> false) has its top at the head of the list, a queue its front.
\<close>

partial_function (option) search ::
    "bool \<Rightarrow> ('n \<Rightarrow> 'n list) \<Rightarrow> 'n list \<Rightarrow> 'n set \<Rightarrow> 'n list \<Rightarrow> 'n list option" where
  "search fifo nb work seen out =
     (case work of
        [] \<Rightarrow> Some out
      | n # rest \<Rightarrow>
          let fresh = expand seen (nb n)
          in search fifo nb (if fifo then rest @ fresh else rev fresh @ rest)
               (seen \<union> set fresh) (out @ fresh))"

definition edges_of :: "('n \<Rightarrow> 'n list) \<Rightarrow> ('n \<times> 'n) set" where
  "edges_of nb = {(x, y). y \<in> set (nb x)}"

definition closed_under :: "'n set \<Rightarrow> ('n \<Rightarrow> 'n list) \<Rightarrow> bool" where
  "closed_under V nb \<longleftrightarrow> (\<forall>x \<in> V. set (nb x) \<subseteq> V)"

lemma set_expand: "set (expand seen xs) = set xs - seen"
  by (induction xs arbitrary: seen) auto

lemma distinct_expand: "distinct (expand seen xs)"
  by (induction xs arbitrary: seen) (auto simp: set_expand)

lemma search_Nil [simp]: "search fifo nb [] seen out = Some out"
  by (simp add: search.simps)

lemma search_Cons:
  "search fifo nb (n # rest) seen out =
     search fifo nb (if fifo then rest @ expand seen (nb n) else rev (expand seen (nb n)) @ rest)
       (seen \<union> set (nb n)) (out @ expand seen (nb n))"
  by (simp add: search.simps [of fifo nb "n # rest"] Let_def set_expand Un_Diff_cancel)

lemma closed_underD: "closed_under V nb \<Longrightarrow> x \<in> V \<Longrightarrow> y \<in> set (nb x) \<Longrightarrow> y \<in> V"
  by (auto simp: closed_under_def)

text \<open>
  The loop invariant. \<open>init\<close> is what was seen before the first iteration: nothing for the
  ancestor walks, the root itself for \<open>subtree_of\<close>.
\<close>

definition search_inv ::
    "'n set \<Rightarrow> ('n \<Rightarrow> 'n list) \<Rightarrow> 'n \<Rightarrow> 'n set \<Rightarrow> 'n list \<Rightarrow> 'n set \<Rightarrow> 'n list \<Rightarrow> bool" where
  "search_inv V nb s init work seen out \<longleftrightarrow>
     seen = init \<union> set out \<and> init \<subseteq> {s} \<and> distinct out \<and> set out \<inter> init = {} \<and>
     seen \<subseteq> V \<and> set work \<subseteq> insert s (set out) \<and>
     (\<forall>y \<in> set out. (s, y) \<in> (edges_of nb)\<^sup>+) \<and>
     (\<forall>x \<in> insert s (set out). x \<in> set work \<or> set (nb x) \<subseteq> seen)"

lemma search_inv_step:
  assumes inv: "search_inv V nb s init (n # rest) seen out"
    and cl: "closed_under V nb" and s: "s \<in> V"
    and w: "set work' = set rest \<union> set (expand seen (nb n))"
  shows "search_inv V nb s init work' (seen \<union> set (nb n)) (out @ expand seen (nb n))"
proof -
  let ?f = "expand seen (nb n)"
  have f: "set ?f = set (nb n) - seen" "distinct ?f"
    by (rule set_expand, rule distinct_expand)
  have n: "n \<in> insert s (set out)" and nV: "n \<in> V"
    using inv s by (auto simp: search_inv_def)
  have sn: "n = s \<or> (s, n) \<in> (edges_of nb)\<^sup>+"
    using inv n by (auto simp: search_inv_def)
  have reach: "(s, y) \<in> (edges_of nb)\<^sup>+" if "y \<in> set (nb n)" for y
  proof -
    have e: "(n, y) \<in> edges_of nb" using that by (simp add: edges_of_def)
    from sn show ?thesis
    proof
      assume "n = s"
      with e show ?thesis by auto
    next
      assume "(s, n) \<in> (edges_of nb)\<^sup>+"
      from this e show ?thesis by (rule trancl_into_trancl)
    qed
  qed
  have closed: "x \<in> set work' \<or> set (nb x) \<subseteq> seen \<union> set (nb n)"
    if "x \<in> insert s (set (out @ ?f))" for x
  proof (cases "x \<in> set ?f")
    case True
    then show ?thesis using w by simp
  next
    case False
    with that have "x \<in> insert s (set out)" by auto
    with inv have "x = n \<or> x \<in> set rest \<or> set (nb x) \<subseteq> seen"
      by (auto simp: search_inv_def)
    then show ?thesis using w by auto
  qed
  have "set (nb n) \<subseteq> V"
    using cl nV by (auto simp: closed_under_def)
  then show ?thesis
    using inv closed reach f w unfolding search_inv_def by auto
qed

lemma search_returns:
  assumes "finite V" and "closed_under V nb" and "s \<in> V"
    and "search_inv V nb s init work seen out"
  shows "\<exists>out'. search fifo nb work seen out = Some out' \<and>
           search_inv V nb s init [] (init \<union> set out') out'"
  using assms(4)
proof (induction "2 * card (V - seen) + length work" arbitrary: work seen out rule: less_induct)
  case less
  show ?case
  proof (cases work)
    case Nil
    with less.prems show ?thesis by (auto simp: search_inv_def)
  next
    case (Cons n rest)
    let ?f = "expand seen (nb n)"
    let ?w = "if fifo then rest @ ?f else rev ?f @ rest"
    let ?seen = "seen \<union> set (nb n)"
    have inv': "search_inv V nb s init ?w ?seen (out @ ?f)"
      by (rule search_inv_step [OF less.prems [unfolded Cons] assms(2,3)]) auto
    have "?seen \<subseteq> V" using inv' by (auto simp: search_inv_def)
    then have fV: "set ?f \<subseteq> V - seen" by (auto simp: set_expand)
    have "V - ?seen = (V - seen) - set ?f" by (auto simp: set_expand)
    moreover have "card (set ?f) = length ?f" by (rule distinct_card [OF distinct_expand])
    moreover have "card (set ?f) \<le> card (V - seen)"
      by (rule card_mono) (use \<open>finite V\<close> fV in auto)
    moreover have "card ((V - seen) - set ?f) = card (V - seen) - card (set ?f)"
      by (rule card_Diff_subset) (use fV in auto)
    ultimately have "2 * card (V - ?seen) + length ?w < 2 * card (V - seen) + length work"
      unfolding Cons by auto
    from less.hyps [OF this inv'] show ?thesis
      by (simp add: Cons search_Cons)
  qed
qed

text \<open>At the end the output is everything reachable in one or more steps, but for \<open>init\<close>.\<close>

lemma search_inv_final:
  assumes "search_inv V nb s init [] (init \<union> set out) out"
  shows "set out = {y. (s, y) \<in> (edges_of nb)\<^sup>+} - init"
proof
  show "set out \<subseteq> {y. (s, y) \<in> (edges_of nb)\<^sup>+} - init"
    using assms by (auto simp: search_inv_def)
next
  have closed: "y \<in> init \<union> set out" if "x \<in> insert s (set out)" "y \<in> set (nb x)" for x y
    using assms that by (auto simp: search_inv_def)
  have "y \<in> init \<union> set out" if "(s, y) \<in> (edges_of nb)\<^sup>+" for y
    using that
  proof (induction rule: trancl_induct)
    case (base y)
    then show ?case using closed by (auto simp: edges_of_def)
  next
    case (step y z)
    from step.IH assms have "y \<in> insert s (set out)" by (auto simp: search_inv_def)
    moreover from step.hyps(2) have "z \<in> set (nb y)" by (simp add: edges_of_def)
    ultimately show ?case by (rule closed)
  qed
  then show "{y. (s, y) \<in> (edges_of nb)\<^sup>+} - init \<subseteq> set out" by auto
qed

theorem search_correct:
  assumes "finite V" and "closed_under V nb" and "s \<in> V" and "init \<subseteq> {s}"
  shows "\<exists>out. search fifo nb [s] init [] = Some out \<and> distinct out \<and>
           set out = {y. (s, y) \<in> (edges_of nb)\<^sup>+} - init"
proof -
  have "search_inv V nb s init [s] init []"
    using assms by (auto simp: search_inv_def)
  from search_returns [OF assms(1-3) this, of fifo] obtain out where
    "search fifo nb [s] init [] = Some out"
    and inv: "search_inv V nb s init [] (init \<union> set out) out" by auto
  moreover from inv have "distinct out" by (simp add: search_inv_def)
  ultimately show ?thesis using search_inv_final [OF inv] by blast
qed

section \<open>Breadth-first depths\<close>

text \<open>
  The inner loop of the depth map: a child with no entry gets the depth \<open>d\<close> and is pushed.
\<close>

fun expand_depth :: "nat \<Rightarrow> ('n \<rightharpoonup> nat) \<Rightarrow> 'n list \<Rightarrow> ('n \<rightharpoonup> nat) \<times> 'n list" where
  "expand_depth d dm [] = (dm, [])"
| "expand_depth d dm (c # cs) =
     (if dm c = None
      then let (dm', fresh) = expand_depth d (dm(c \<mapsto> d)) cs in (dm', c # fresh)
      else expand_depth d dm cs)"

text \<open>
  The queue loop. \<open>None\<close> is also the panic of indexing the map with a node it does not hold,
  which the theorem below excludes.
\<close>

partial_function (option) bfs_depth ::
    "('n \<Rightarrow> 'n list) \<Rightarrow> 'n list \<Rightarrow> ('n \<rightharpoonup> nat) \<Rightarrow> ('n \<rightharpoonup> nat) option" where
  "bfs_depth nb queue dm =
     (case queue of
        [] \<Rightarrow> Some dm
      | n # rest \<Rightarrow>
          (case dm n of
             None \<Rightarrow> None
           | Some d \<Rightarrow>
               let (dm', fresh) = expand_depth (d + 1) dm (nb n)
               in bfs_depth nb (rest @ fresh) dm'))"

text \<open>\<open>k\<close> is the least number of edges on a path from one of the sources \<open>S\<close> to \<open>y\<close>.\<close>

definition hops :: "'n set \<Rightarrow> ('n \<Rightarrow> 'n list) \<Rightarrow> 'n \<Rightarrow> nat \<Rightarrow> bool" where
  "hops S nb y k \<longleftrightarrow>
     (\<exists>s \<in> S. (s, y) \<in> edges_of nb ^^ k) \<and> (\<forall>j < k. \<forall>s \<in> S. (s, y) \<notin> edges_of nb ^^ j)"

lemma expand_depth_eq:
  "expand_depth d dm cs =
     ((\<lambda>x. if x \<in> set cs \<and> dm x = None then Some d else dm x), expand (dom dm) cs)"
  by (induction cs arbitrary: dm) (auto simp: fun_eq_iff dom_def insert_Collect)

lemma bfs_depth_Nil [simp]: "bfs_depth nb [] dm = Some dm"
  by (simp add: bfs_depth.simps)

lemma bfs_depth_Cons:
  "dm n = Some d \<Longrightarrow>
   bfs_depth nb (n # rest) dm =
     bfs_depth nb (rest @ expand (dom dm) (nb n))
       (\<lambda>x. if x \<in> set (nb n) \<and> dm x = None then Some (d + 1) else dm x)"
  by (simp add: bfs_depth.simps [of nb "n # rest"] expand_depth_eq del: add_Suc_right One_nat_def)

definition bfs_inv ::
    "'n set \<Rightarrow> ('n \<Rightarrow> 'n list) \<Rightarrow> 'n set \<Rightarrow> 'n list \<Rightarrow> ('n \<rightharpoonup> nat) \<Rightarrow> bool" where
  "bfs_inv V nb S queue dm \<longleftrightarrow>
     dom dm \<subseteq> V \<and> set queue \<subseteq> dom dm \<and> (\<forall>s \<in> S. dm s = Some 0) \<and>
     (\<forall>y k. dm y = Some k \<longrightarrow> (\<exists>s \<in> S. (s, y) \<in> edges_of nb ^^ k)) \<and>
     (\<forall>x k y. dm x = Some k \<longrightarrow> x \<notin> set queue \<longrightarrow> y \<in> set (nb x) \<longrightarrow>
        (\<exists>j \<le> k + 1. dm y = Some j)) \<and>
     sorted (map (\<lambda>x. the (dm x)) queue) \<and>
     (queue \<noteq> [] \<longrightarrow> (\<forall>x k. dm x = Some k \<longrightarrow> k \<le> the (dm (hd queue)) + 1))"

lemma bfs_inv_path:
  "bfs_inv V nb S q dm \<Longrightarrow> dm y = Some k \<Longrightarrow> \<exists>s \<in> S. (s, y) \<in> edges_of nb ^^ k"
  unfolding bfs_inv_def by blast

lemma bfs_inv_step:
  assumes inv: "bfs_inv V nb S (n # rest) dm" and cl: "closed_under V nb" and d: "dm n = Some d"
  shows "bfs_inv V nb S (rest @ expand (dom dm) (nb n))
           (\<lambda>x. if x \<in> set (nb n) \<and> dm x = None then Some (d + 1) else dm x)"
    (is "bfs_inv V nb S ?q ?dm")
proof -
  have f: "set (expand (dom dm) (nb n)) = set (nb n) - dom dm" by (rule set_expand)
  have old: "?dm x = dm x" if "x \<in> dom dm" for x using that by auto
  have srt: "sorted (map (\<lambda>x. the (dm x)) (n # rest))" using inv by (simp add: bfs_inv_def)
  have up: "k \<le> d + 1" if "dm x = Some k" for x k
    using inv that d by (auto simp: bfs_inv_def)
  have rest_dom: "set rest \<subseteq> dom dm" using inv by (auto simp: bfs_inv_def)
  have path: "\<exists>s \<in> S. (s, y) \<in> edges_of nb ^^ k" if "?dm y = Some k" for y k
  proof (cases "y \<in> set (nb n) \<and> dm y = None")
    case True
    with that have k: "k = Suc d" by simp
    from bfs_inv_path [OF inv d] obtain s where "s \<in> S" "(s, n) \<in> edges_of nb ^^ d" by blast
    moreover from True have "(n, y) \<in> edges_of nb" by (simp add: edges_of_def)
    ultimately show ?thesis unfolding k by (meson relpow_Suc_I)
  next
    case False
    then have "dm y = Some k" using that by (auto split: if_splits)
    with inv show ?thesis by (blast dest: bfs_inv_path)
  qed
  have done_nodes: "\<exists>j \<le> k + 1. ?dm y = Some j"
    if "?dm x = Some k" "x \<notin> set ?q" "y \<in> set (nb x)" for x k y
  proof -
    from that(1,2) f have x: "dm x = Some k" by (auto split: if_splits)
    show ?thesis
    proof (cases "x = n")
      case True
      with x d have k: "k = d" by simp
      show ?thesis
      proof (cases "dm y")
        case None
        with that(3) True k show ?thesis by auto
      next
        case (Some j)
        with up [of y j] k show ?thesis by auto
      qed
    next
      case False
      with that(2) have "x \<notin> set (n # rest)" by simp
      with inv x that(3) obtain j where "j \<le> k + 1" "dm y = Some j"
        unfolding bfs_inv_def by blast
      then show ?thesis by auto
    qed
  qed
  have rest_le: "\<forall>x \<in> set rest. the (dm x) \<le> d + 1"
    using rest_dom up by fastforce
  have "map (\<lambda>x. the (?dm x)) ?q =
          map (\<lambda>x. the (dm x)) rest @ replicate (length (expand (dom dm) (nb n))) (d + 1)"
    using rest_dom f by (auto simp: map_replicate_const [symmetric])
  moreover have "sorted (map (\<lambda>x. the (dm x)) rest @
                   replicate (length (expand (dom dm) (nb n))) (d + 1))"
    using srt rest_le by (auto simp: sorted_append)
  ultimately have srt': "sorted (map (\<lambda>x. the (?dm x)) ?q)" by (simp only:)
  have ge_d: "d \<le> the (?dm (hd ?q))" if "?q \<noteq> []"
  proof (cases rest)
    case Nil
    with that have "hd ?q \<in> set (nb n) - dom dm" using f by (metis append_Nil list.set_sel(1))
    then show ?thesis by (auto simp: domIff)
  next
    case (Cons r rs)
    then have "r \<in> dom dm" using rest_dom by auto
    with Cons srt d show ?thesis by (auto simp: old)
  qed
  have bound: "k \<le> the (?dm (hd ?q)) + 1" if "?q \<noteq> []" "?dm x = Some k" for x k
  proof -
    have "k \<le> d + 1" using that(2) up by (auto split: if_splits)
    with ge_d [OF that(1)] show ?thesis by linarith
  qed
  have dV: "dom dm \<subseteq> V" and "n \<in> V" using inv by (auto simp: bfs_inv_def)
  then have "set (nb n) \<subseteq> V" using cl by (simp add: closed_under_def)
  moreover have "dom ?dm \<subseteq> dom dm \<union> set (nb n)" by (auto split: if_splits)
  ultimately have "dom ?dm \<subseteq> V" using dV by blast
  moreover have "set ?q \<subseteq> dom ?dm" using rest_dom f by auto
  moreover have "\<forall>s \<in> S. ?dm s = Some 0" using inv by (auto simp: bfs_inv_def)
  ultimately show ?thesis
    unfolding bfs_inv_def using path done_nodes srt' bound by blast
qed

lemma bfs_returns:
  assumes "finite V" and "closed_under V nb" and "bfs_inv V nb S queue dm"
  shows "\<exists>dm'. bfs_depth nb queue dm = Some dm' \<and> bfs_inv V nb S [] dm'"
  using assms(3)
proof (induction "2 * card (V - dom dm) + length queue" arbitrary: queue dm rule: less_induct)
  case less
  show ?case
  proof (cases queue)
    case Nil
    with less.prems show ?thesis by auto
  next
    case (Cons n rest)
    with less.prems obtain d where d: "dm n = Some d" by (auto simp: bfs_inv_def)
    let ?f = "expand (dom dm) (nb n)"
    let ?dm = "\<lambda>x. if x \<in> set (nb n) \<and> dm x = None then Some (d + 1) else dm x"
    have inv': "bfs_inv V nb S (rest @ ?f) ?dm"
      by (rule bfs_inv_step [OF less.prems [unfolded Cons] assms(2) d])
    have dom': "dom ?dm = dom dm \<union> set ?f" by (auto simp: set_expand dom_def)
    have "dom ?dm \<subseteq> V" using inv' by (simp add: bfs_inv_def)
    then have fV: "set ?f \<subseteq> V - dom dm" unfolding dom' by (auto simp: set_expand)
    have "V - dom ?dm = (V - dom dm) - set ?f" unfolding dom' by auto
    moreover have "card (set ?f) = length ?f" by (rule distinct_card [OF distinct_expand])
    moreover have "card (set ?f) \<le> card (V - dom dm)"
      by (rule card_mono) (use \<open>finite V\<close> fV in auto)
    moreover have "card ((V - dom dm) - set ?f) = card (V - dom dm) - card (set ?f)"
      by (rule card_Diff_subset) (use fV in auto)
    ultimately have "2 * card (V - dom ?dm) + length (rest @ ?f) < 2 * card (V - dom dm) + length queue"
      unfolding Cons by auto
    from less.hyps [OF this inv'] show ?thesis
      unfolding Cons bfs_depth_Cons [where dm = dm and n = n and d = d, OF d] .
  qed
qed

lemma bfs_inv_final:
  assumes "bfs_inv V nb S [] dm"
  shows "dm y = Some k \<longleftrightarrow> hops S nb y k"
proof -
  have le: "\<exists>i \<le> j. dm y = Some i" if "s \<in> S" "(s, y) \<in> edges_of nb ^^ j" for s y j
    using that(2)
  proof (induction j arbitrary: y)
    case 0
    with that(1) assms show ?case by (auto simp: bfs_inv_def)
  next
    case (Suc j)
    then obtain x where "(s, x) \<in> edges_of nb ^^ j" and "y \<in> set (nb x)"
      by (auto simp: edges_of_def)
    with Suc.IH obtain i where "i \<le> j" "dm x = Some i" by blast
    with assms \<open>y \<in> set (nb x)\<close> obtain i' where "i' \<le> i + 1" "dm y = Some i'"
      unfolding bfs_inv_def by (metis empty_iff empty_set)
    with \<open>i \<le> j\<close> show ?case by auto
  qed
  have path: "\<exists>s \<in> S. (s, y) \<in> edges_of nb ^^ k" if "dm y = Some k" for y k
    using bfs_inv_path [OF assms that] .
  show ?thesis
  proof
    assume k: "dm y = Some k"
    then show "hops S nb y k"
      using path [OF k] le by (fastforce simp: hops_def)
  next
    assume h: "hops S nb y k"
    then obtain s where "s \<in> S" "(s, y) \<in> edges_of nb ^^ k" by (auto simp: hops_def)
    from le [OF this] obtain i where i: "i \<le> k" "dm y = Some i" by blast
    from path [OF i(2)] h have "\<not> i < k" unfolding hops_def by blast
    with i show "dm y = Some k" by simp
  qed
qed

theorem bfs_depth_correct:
  assumes "finite V" and "closed_under V nb" and "set roots \<subseteq> V"
  shows "\<exists>dm. bfs_depth nb roots (\<lambda>x. if x \<in> set roots then Some 0 else None) = Some dm \<and>
           (\<forall>y k. dm y = Some k \<longleftrightarrow> hops (set roots) nb y k)"
proof -
  let ?dm = "\<lambda>x. if x \<in> set roots then Some 0 else None"
  have "map (\<lambda>x. the (?dm x)) roots = replicate (length roots) 0"
    by (simp add: map_replicate_const [symmetric])
  then have "sorted (map (\<lambda>x. the (?dm x)) roots)" by (metis sorted_replicate)
  then have "bfs_inv V nb (set roots) roots ?dm"
    using assms(3) unfolding bfs_inv_def by (auto split: if_splits)
  from bfs_returns [OF assms(1,2) this] show ?thesis
    by (auto dest: bfs_inv_final)
qed

lemma hops_unique: "hops S nb y k \<Longrightarrow> hops S nb y k' \<Longrightarrow> k = k'"
  unfolding hops_def by (metis linorder_neqE_nat)

lemma hops_source: "s \<in> S \<Longrightarrow> hops S nb s 0"
  by (auto simp: hops_def)

end
