(* ===== verification/PetGraph.thy ===== *)
theory PetGraph
  imports Types Search "HOL-Library.Multiset"
begin

text \<open>
  The interface of \<open>petgraph::graph::DiGraph<Uuid, EdgeMeta>\<close>, the graph the lineage DAG
  (\<open>src/dag/graph.rs\<close>) is kept in. The crate is not part of the repository, so its operations are
  the fields of a record that every DAG definition takes as an argument, and what the crate
  documents of them is the locale \<open>digraph\<close>. A list implementation at the end satisfies the locale
  and evaluates.
\<close>

record edge_meta =
  em_forked_at :: datetime
  em_merge_cursor :: "string option"

text \<open>
  Nodes and edges are addressed by index. \<open>pg_weights\<close> lists the node weights and \<open>pg_edges\<close> the
  edges with their end points, both in index order; \<open>pg_preds\<close> and \<open>pg_succs\<close> are
  \<open>neighbors_directed\<close> with \<open>Incoming\<close> and \<open>Outgoing\<close>; \<open>pg_toposort\<close> is \<open>Inl\<close> of the node the
  reported cycle goes through, or \<open>Inr\<close> of an order.
\<close>

record 'g petgraph =
  pg_new :: 'g
  pg_add_node :: "'g \<Rightarrow> uuid \<Rightarrow> 'g \<times> nat"
  pg_remove_node :: "'g \<Rightarrow> nat \<Rightarrow> 'g"
  pg_add_edge :: "'g \<Rightarrow> nat \<Rightarrow> nat \<Rightarrow> edge_meta \<Rightarrow> 'g"
  pg_find_edge :: "'g \<Rightarrow> nat \<Rightarrow> nat \<Rightarrow> nat option"
  pg_remove_edge :: "'g \<Rightarrow> nat \<Rightarrow> 'g"
  pg_weights :: "'g \<Rightarrow> uuid list"
  pg_edges :: "'g \<Rightarrow> (nat \<times> nat \<times> edge_meta) list"
  pg_preds :: "'g \<Rightarrow> nat \<Rightarrow> nat list"
  pg_succs :: "'g \<Rightarrow> nat \<Rightarrow> nat list"
  pg_is_cyclic :: "'g \<Rightarrow> bool"
  pg_toposort :: "'g \<Rightarrow> nat + nat list"

definition ends :: "nat \<times> nat \<times> edge_meta \<Rightarrow> nat \<times> nat" where
  "ends e = (fst e, fst (snd e))"

lemma ends_simp [simp]: "ends (a, b, m) = (a, b)"
  by (simp add: ends_def)

text \<open>The edge relation of a graph on its indices.\<close>

definition erel :: "'g petgraph \<Rightarrow> 'g \<Rightarrow> (nat \<times> nat) set" where
  "erel P g = ends ` set (pg_edges P g)"

definition in_range :: "'g petgraph \<Rightarrow> 'g \<Rightarrow> bool" where
  "in_range P g \<longleftrightarrow>
     (\<forall>(a, b) \<in> erel P g. a < length (pg_weights P g) \<and> b < length (pg_weights P g))"

text \<open>
  \<open>remove_node\<close> keeps the indices compact: the last node adopts the index of the removed one.
\<close>

definition swap_remove :: "'a list \<Rightarrow> nat \<Rightarrow> 'a list" where
  "swap_remove xs i = butlast (xs[i := last xs])"

definition adopt :: "nat \<Rightarrow> nat \<Rightarrow> nat \<Rightarrow> nat" where
  "adopt n i x = (if x = n - 1 then i else x)"

definition precedes :: "'a list \<Rightarrow> 'a \<Rightarrow> 'a \<Rightarrow> bool" where
  "precedes xs x y \<longleftrightarrow> (\<exists>as bs cs. xs = as @ x # bs @ y # cs)"

lemma precedes_Cons:
  "precedes (x # xs) a b \<longleftrightarrow> a = x \<and> b \<in> set xs \<or> precedes xs a b"
proof
  assume "precedes (x # xs) a b"
  then obtain as bs cs where "x # xs = as @ a # bs @ b # cs" by (auto simp: precedes_def)
  then show "a = x \<and> b \<in> set xs \<or> precedes xs a b"
    by (cases as) (auto simp: precedes_def)
next
  assume "a = x \<and> b \<in> set xs \<or> precedes xs a b"
  then show "precedes (x # xs) a b"
  proof
    assume "a = x \<and> b \<in> set xs"
    then obtain bs cs where "x # xs = [] @ a # bs @ b # cs" by (auto dest: split_list)
    then show ?thesis unfolding precedes_def by blast
  next
    assume "precedes xs a b"
    then obtain as bs cs where "x # xs = (x # as) @ a # bs @ b # cs" by (auto simp: precedes_def)
    then show ?thesis unfolding precedes_def by blast
  qed
qed

lemma precedes_in: "precedes xs a b \<Longrightarrow> a \<in> set xs \<and> b \<in> set xs"
  by (auto simp: precedes_def)

lemma not_precedes_Nil [simp]: "\<not> precedes [] a b"
  by (simp add: precedes_def)

definition position :: "'a list \<Rightarrow> 'a \<Rightarrow> nat" where
  "position xs x = length (takeWhile (\<lambda>y. y \<noteq> x) xs)"

lemma precedes_position: "distinct xs \<Longrightarrow> precedes xs a b \<Longrightarrow> position xs a < position xs b"
  by (induction xs) (auto simp: precedes_Cons position_def dest: precedes_in)

lemma ordered_acyclic:
  assumes "distinct xs" and "\<forall>(a, b) \<in> r. precedes xs a b"
  shows "acyclic r"
proof -
  have "r \<subseteq> measure (position xs)"
    using assms precedes_position by fastforce
  then show ?thesis by (metis wf_measure wf_subset wf_acyclic)
qed

lemma precedes_filter:
  "precedes xs a b \<Longrightarrow> Q a \<Longrightarrow> Q b \<Longrightarrow> precedes (filter Q xs) a b"
  by (induction xs) (auto simp: precedes_Cons)

lemma precedes_map: "precedes xs a b \<Longrightarrow> precedes (map f xs) (f a) (f b)"
  by (induction xs) (auto simp: precedes_Cons)

lemma length_swap_remove [simp]: "length (swap_remove xs i) = length xs - 1"
  by (simp add: swap_remove_def)

lemma mset_swap_remove:
  assumes "i < length xs"
  shows "mset (swap_remove xs i) = mset xs - {#xs ! i#}"
proof -
  obtain ys y where xs: "xs = ys @ [y]" using assms by (cases xs rule: rev_cases) auto
  show ?thesis
  proof (cases "i = length ys")
    case True
    then show ?thesis by (simp add: xs swap_remove_def)
  next
    case False
    then have i: "i < length ys" using assms xs by simp
    then have "mset (ys[i := y]) = add_mset y (mset ys - {#ys ! i#})" by (rule mset_update)
    moreover have "ys ! i \<in># mset ys" using i by simp
    ultimately show ?thesis
      using i by (simp add: xs swap_remove_def nth_append list_update_append butlast_append)
  qed
qed

locale digraph =
  fixes P :: "'g petgraph"
  assumes weights_new: "pg_weights P (pg_new P) = []"
    and edges_new: "pg_edges P (pg_new P) = []"
    and add_node_index: "snd (pg_add_node P g u) = length (pg_weights P g)"
    and add_node_weights: "pg_weights P (fst (pg_add_node P g u)) = pg_weights P g @ [u]"
    and add_node_edges: "pg_edges P (fst (pg_add_node P g u)) = pg_edges P g"
    and remove_node_missing: "length (pg_weights P g) \<le> i \<Longrightarrow> pg_remove_node P g i = g"
    and remove_node_weights: "i < length (pg_weights P g) \<Longrightarrow>
          pg_weights P (pg_remove_node P g i) = swap_remove (pg_weights P g) i"
    and remove_node_edges: "i < length (pg_weights P g) \<Longrightarrow>
          mset (pg_edges P (pg_remove_node P g i)) =
            {#(adopt (length (pg_weights P g)) i a, adopt (length (pg_weights P g)) i b, m).
              (a, b, m) \<in># filter_mset (\<lambda>(a, b, m). a \<noteq> i \<and> b \<noteq> i) (mset (pg_edges P g))#}"
    and add_edge_weights: "a < length (pg_weights P g) \<Longrightarrow> b < length (pg_weights P g) \<Longrightarrow>
          pg_weights P (pg_add_edge P g a b m) = pg_weights P g"
    and add_edge_edges: "a < length (pg_weights P g) \<Longrightarrow> b < length (pg_weights P g) \<Longrightarrow>
          pg_edges P (pg_add_edge P g a b m) = pg_edges P g @ [(a, b, m)]"
    and find_edge_Some: "pg_find_edge P g a b = Some e \<Longrightarrow>
          e < length (pg_edges P g) \<and> ends (pg_edges P g ! e) = (a, b)"
    and find_edge_None: "pg_find_edge P g a b = None \<longleftrightarrow> (a, b) \<notin> erel P g"
    and remove_edge_weights: "pg_weights P (pg_remove_edge P g e) = pg_weights P g"
    and remove_edge_edges: "e < length (pg_edges P g) \<Longrightarrow>
          mset (pg_edges P (pg_remove_edge P g e)) = mset (pg_edges P g) - {#pg_edges P g ! e#}"
    and preds: "mset (pg_preds P g i) =
          {#a. (a, b, m) \<in># filter_mset (\<lambda>(a, b, m). b = i) (mset (pg_edges P g))#}"
    and succs: "mset (pg_succs P g i) =
          {#b. (a, b, m) \<in># filter_mset (\<lambda>(a, b, m). a = i) (mset (pg_edges P g))#}"
    and is_cyclic: "in_range P g \<Longrightarrow> pg_is_cyclic P g \<longleftrightarrow> \<not> acyclic (erel P g)"
    and toposort_acyclic: "in_range P g \<Longrightarrow> acyclic (erel P g) \<Longrightarrow>
          \<exists>order. pg_toposort P g = Inr order \<and> distinct order \<and>
            set order = {..<length (pg_weights P g)} \<and>
            (\<forall>(a, b) \<in> erel P g. precedes order a b)"
    and toposort_cyclic: "in_range P g \<Longrightarrow> \<not> acyclic (erel P g) \<Longrightarrow> \<exists>c. pg_toposort P g = Inl c"
begin

lemma set_preds: "set (pg_preds P g i) = {a. (a, i) \<in> erel P g}"
proof -
  have "set (pg_preds P g i) = set_mset (mset (pg_preds P g i))" by simp
  also have "\<dots> = {a. (a, i) \<in> erel P g}"
    unfolding preds by (force simp: erel_def)
  finally show ?thesis .
qed

lemma set_succs: "set (pg_succs P g i) = {b. (i, b) \<in> erel P g}"
proof -
  have "set (pg_succs P g i) = set_mset (mset (pg_succs P g i))" by simp
  also have "\<dots> = {b. (i, b) \<in> erel P g}"
    unfolding succs by (force simp: erel_def)
  finally show ?thesis .
qed

lemma edges_of_succs: "edges_of (pg_succs P g) = erel P g"
  by (simp add: edges_of_def set_succs)

lemma edges_of_preds: "edges_of (pg_preds P g) = (erel P g)\<inverse>"
  by (auto simp: edges_of_def set_preds)

lemma no_preds: "length (pg_preds P g i) = 0 \<longleftrightarrow> (\<forall>a. (a, i) \<notin> erel P g)"
proof -
  have "length (pg_preds P g i) = 0 \<longleftrightarrow> set (pg_preds P g i) = {}" by simp
  then show ?thesis unfolding set_preds by auto
qed

lemma no_succs: "length (pg_succs P g i) = 0 \<longleftrightarrow> (\<forall>b. (i, b) \<notin> erel P g)"
proof -
  have "length (pg_succs P g i) = 0 \<longleftrightarrow> set (pg_succs P g i) = {}" by simp
  then show ?thesis unfolding set_succs by auto
qed

lemma erel_mset: "mset (pg_edges P g) = mset (pg_edges P g') \<Longrightarrow> erel P g = erel P g'"
  unfolding erel_def by (drule mset_eq_setD) simp

lemma erel_add_edge:
  "a < length (pg_weights P g) \<Longrightarrow> b < length (pg_weights P g) \<Longrightarrow>
   erel P (pg_add_edge P g a b m) = insert (a, b) (erel P g)"
  by (simp add: erel_def add_edge_edges)

lemma erel_add_node: "erel P (fst (pg_add_node P g u)) = erel P g"
  by (simp add: erel_def add_node_edges)

lemma erel_new: "erel P (pg_new P) = {}"
  by (simp add: erel_def edges_new)

lemma distinct_ends_mset:
  "mset (pg_edges P g) = mset (pg_edges P g') \<Longrightarrow>
   distinct (map ends (pg_edges P g)) = distinct (map ends (pg_edges P g'))"
  by (rule mset_eq_imp_distinct_iff) simp

text \<open>Undoing the edge just added gives back the graph's nodes and edges.\<close>

lemma undo_add_edge:
  assumes "a < length (pg_weights P g)" "b < length (pg_weights P g)" "(a, b) \<notin> erel P g"
    and "pg_find_edge P (pg_add_edge P g a b m) a b = Some e"
  shows "mset (pg_edges P (pg_remove_edge P (pg_add_edge P g a b m) e)) = mset (pg_edges P g)"
proof -
  let ?es = "pg_edges P g @ [(a, b, m)]"
  have e: "e < length ?es" "ends (?es ! e) = (a, b)"
    using find_edge_Some [OF assms(4)] add_edge_edges [OF assms(1,2)] by auto
  have "\<not> e < length (pg_edges P g)"
  proof
    assume l: "e < length (pg_edges P g)"
    then have "ends (pg_edges P g ! e) = (a, b)" using e(2) by (simp add: nth_append)
    then have "(a, b) \<in> erel P g" using l unfolding erel_def by (metis image_eqI nth_mem)
    with assms(3) show False by simp
  qed
  then have "e = length (pg_edges P g)" using e(1) by simp
  then have "mset (pg_edges P (pg_remove_edge P (pg_add_edge P g a b m) e)) = mset ?es - {#(a, b, m)#}"
    using remove_edge_edges [of e "pg_add_edge P g a b m"] add_edge_edges [OF assms(1,2)] e(1)
    by simp
  then show ?thesis by simp
qed

end

section \<open>A list implementation\<close>

text \<open>
  Kahn's algorithm on the indices \<open>rem\<close>: a node without a predecessor among them comes next, and
  when there is none the first of them is reported.
\<close>

type_synonym list_graph = "uuid list \<times> (nat \<times> nat \<times> edge_meta) list"

definition is_source :: "(nat \<times> nat) list \<Rightarrow> nat list \<Rightarrow> nat \<Rightarrow> bool" where
  "is_source es rem x \<longleftrightarrow> list_all (\<lambda>(a, b). b = x \<longrightarrow> a \<notin> set rem) es"

function kahn :: "(nat \<times> nat) list \<Rightarrow> nat list \<Rightarrow> nat + nat list" where
  "kahn es rem =
     (if rem = [] then Inr []
      else case find (is_source es rem) rem of
        None \<Rightarrow> Inl (hd rem)
      | Some x \<Rightarrow> (case kahn es (remove1 x rem) of Inl c \<Rightarrow> Inl c | Inr xs \<Rightarrow> Inr (x # xs)))"
  by pat_completeness auto

termination
proof (relation "measure (\<lambda>(es, rem). length rem)", goal_cases)
  case (2 es rem x)
  then have "x \<in> set rem" by (auto simp: find_Some_iff)
  then show ?case using length_pos_if_in_set [of x rem] by (simp add: length_remove1)
qed simp

declare kahn.simps [simp del]

lemma find_source: "find Q xs = Some x \<Longrightarrow> x \<in> set xs \<and> Q x"
  by (auto simp: find_Some_iff)

lemma kahn_order:
  "kahn es rem = Inr xs \<Longrightarrow> distinct rem \<Longrightarrow>
   distinct xs \<and> set xs = set rem \<and>
   (\<forall>a b. (a, b) \<in> set es \<longrightarrow> a \<in> set rem \<longrightarrow> b \<in> set rem \<longrightarrow> precedes xs a b)"
proof (induction es rem arbitrary: xs rule: kahn.induct)
  case (1 es rem)
  show ?case
  proof (cases "rem = []")
    case True
    with 1(2) show ?thesis by (simp add: kahn.simps)
  next
    case False
    with 1(2) obtain x ys where x: "find (is_source es rem) rem = Some x"
      and ys: "kahn es (remove1 x rem) = Inr ys" "xs = x # ys"
      by (subst (asm) kahn.simps) (auto split: option.splits sum.splits)
    have src: "x \<in> set rem" "is_source es rem x" using find_source [OF x] by auto
    have IH: "distinct ys \<and> set ys = set rem - {x} \<and>
        (\<forall>a b. (a, b) \<in> set es \<longrightarrow> a \<in> set rem - {x} \<longrightarrow> b \<in> set rem - {x} \<longrightarrow> precedes ys a b)"
      using 1(1) [OF False x ys(1)] 1(3) by simp
    have "b \<noteq> x" if "(a, b) \<in> set es" "a \<in> set rem" for a b
      using src(2) that by (auto simp: is_source_def list_all_iff)
    with IH src(1) show ?thesis by (auto simp: ys(2) precedes_Cons)
  qed
qed

lemma kahn_acyclic:
  "acyclic (set es) \<Longrightarrow> distinct rem \<Longrightarrow> \<exists>xs. kahn es rem = Inr xs"
proof (induction es rem rule: kahn.induct)
  case (1 es rem)
  show ?case
  proof (cases "rem = []")
    case True
    then show ?thesis by (simp add: kahn.simps)
  next
    case False
    have "wf (set es)" using 1(2) by (simp add: finite_acyclic_wf)
    with False obtain z where "z \<in> set rem" "\<forall>y. (y, z) \<in> set es \<longrightarrow> y \<notin> set rem"
      by (metis wf_eq_minimal all_not_in_conv set_empty)
    then have "find (is_source es rem) rem \<noteq> None"
      by (auto simp: find_None_iff is_source_def list_all_iff)
    then obtain x where x: "find (is_source es rem) rem = Some x" by auto
    from 1(1) [OF False x 1(2)] 1(3) obtain xs where "kahn es (remove1 x rem) = Inr xs" by auto
    then show ?thesis by (subst kahn.simps) (simp add: x False)
  qed
qed

definition list_pg :: "list_graph petgraph" where
  "list_pg =
     \<lparr>pg_new = ([], []),
      pg_add_node = (\<lambda>(ws, es) u. ((ws @ [u], es), length ws)),
      pg_remove_node = (\<lambda>(ws, es) i.
        if i < length ws
        then (swap_remove ws i,
              map (\<lambda>(a, b, m). (adopt (length ws) i a, adopt (length ws) i b, m))
                (filter (\<lambda>(a, b, m). a \<noteq> i \<and> b \<noteq> i) es))
        else (ws, es)),
      pg_add_edge = (\<lambda>(ws, es) a b m. (ws, es @ [(a, b, m)])),
      pg_find_edge = (\<lambda>(ws, es) a b. find (\<lambda>e. ends (es ! e) = (a, b)) [0..<length es]),
      pg_remove_edge = (\<lambda>(ws, es) e. (ws, if e < length es then swap_remove es e else es)),
      pg_weights = fst,
      pg_edges = snd,
      pg_preds = (\<lambda>(ws, es) i. rev (map fst (filter (\<lambda>(a, b, m). b = i) es))),
      pg_succs = (\<lambda>(ws, es) i. rev (map (\<lambda>(a, b, m). b) (filter (\<lambda>(a, b, m). a = i) es))),
      pg_is_cyclic = (\<lambda>(ws, es). isl (kahn (map ends es) [0..<length ws])),
      pg_toposort = (\<lambda>(ws, es). kahn (map ends es) [0..<length ws])\<rparr>"

text \<open>What the algorithm decides on a graph whose edges are in range.\<close>

lemma kahn_decides:
  assumes "\<forall>(a, b) \<in> set es. a < n \<and> b < n"
  shows "isl (kahn es [0..<n]) \<longleftrightarrow> \<not> acyclic (set es)"
proof (cases "kahn es [0..<n]")
  case (Inr xs)
  from kahn_order [OF this] assms have "distinct xs" "\<forall>(a, b) \<in> set es. precedes xs a b" by auto
  then have "acyclic (set es)" by (rule ordered_acyclic)
  with Inr show ?thesis by simp
next
  case (Inl c)
  then have "\<not> acyclic (set es)" using kahn_acyclic [of es "[0..<n]"] by auto
  with Inl show ?thesis by simp
qed

lemma list_pg_sel [simp]:
  "pg_weights list_pg g = fst g" "pg_edges list_pg g = snd g"
  by (simp_all add: list_pg_def)

lemma erel_list_pg: "erel list_pg (ws, es) = set (map ends es)"
  by (simp add: erel_def)

lemma in_range_list_pg:
  "in_range list_pg (ws, es) \<longleftrightarrow> (\<forall>(a, b) \<in> set (map ends es). a < length ws \<and> b < length ws)"
  by (simp add: in_range_def erel_list_pg)

lemma list_find_edge:
  "find (\<lambda>e. ends (es ! e) = (a, b)) [0..<length es] = Some e \<Longrightarrow>
     e < length es \<and> ends (es ! e) = (a, b)"
  by (auto dest: find_source)

lemma list_find_no_edge:
  "find (\<lambda>e. ends (es ! e) = (a, b)) [0..<length es] = None \<longleftrightarrow> (a, b) \<notin> ends ` set es"
proof -
  have "(a, b) \<in> ends ` set es \<longleftrightarrow> (\<exists>e < length es. ends (es ! e) = (a, b))"
  proof
    assume "(a, b) \<in> ends ` set es"
    then obtain x where "x \<in> set es" "ends x = (a, b)" by (metis imageE)
    then show "\<exists>e < length es. ends (es ! e) = (a, b)" unfolding in_set_conv_nth by blast
  next
    assume "\<exists>e < length es. ends (es ! e) = (a, b)"
    then obtain e where "e < length es" "ends (es ! e) = (a, b)" by blast
    then show "(a, b) \<in> ends ` set es" using nth_mem [of e es] by (metis image_eqI)
  qed
  then show ?thesis unfolding find_None_iff by auto
qed

interpretation lists: digraph list_pg
proof (unfold_locales, goal_cases)
  case (7 i g)
  then show ?case by (cases g) (simp add: list_pg_def)
next
  case (8 i g)
  then show ?case
    by (cases g) (simp add: list_pg_def case_prod_unfold)
next
  case (11 g a b e)
  then show ?case by (cases g) (auto simp: list_pg_def dest: list_find_edge)
next
  case (12 g a b)
  then show ?case by (cases g) (simp add: list_pg_def list_find_no_edge erel_def)
next
  case (14 e g)
  then show ?case by (cases g) (simp add: list_pg_def mset_swap_remove)
next
  case (15 g i)
  then show ?case by (cases g) (simp add: list_pg_def case_prod_unfold)
next
  case (16 g i)
  then show ?case by (cases g) (simp add: list_pg_def case_prod_unfold)
next
  case (17 g)
  then show ?case
    by (cases g) (simp add: list_pg_def kahn_decides in_range_list_pg [unfolded list_pg_def] erel_list_pg [unfolded list_pg_def])
next
  case (18 g)
  obtain ws es where g: "g = (ws, es)" by (cases g)
  then have "acyclic (set (map ends es))" using 18(2) by (simp add: erel_list_pg)
  from kahn_acyclic [OF this, of "[0..<length ws]"] obtain xs where
    xs: "kahn (map ends es) [0..<length ws] = Inr xs" by auto
  from kahn_order [OF this] 18(1) have
    "distinct xs \<and> set xs = {..<length ws} \<and> (\<forall>(a, b) \<in> set (map ends es). precedes xs a b)"
    unfolding g in_range_list_pg by fastforce
  with xs show ?case unfolding g erel_list_pg by (simp add: list_pg_def)
next
  case (19 g)
  obtain ws es where g: "g = (ws, es)" by (cases g)
  with 19 have "isl (kahn (map ends es) [0..<length ws])"
    using kahn_decides [of "map ends es" "length ws"] by (simp add: in_range_list_pg erel_list_pg)
  then show ?case by (auto simp: g list_pg_def isl_def)
qed (auto simp: list_pg_def)

end
