(* ===== verification/Dag.thy ===== *)
theory Dag
  imports PetGraph
begin

text \<open>
  \<open>src/dag/graph.rs\<close>: the in-memory lineage DAG. Its state is the \<open>petgraph\<close> graph and the map
  from branch ids to node indices; the lock around them serialises the operations, so each is one
  function on the state. The graph operations are the argument \<open>P\<close> (theory PetGraph), the printing
  of identifiers in a message is \<open>C\<close>.
\<close>

section \<open>State and operations\<close>

record 'g dag =
  dg_graph :: 'g
  dg_index :: "uuid \<rightharpoonup> nat"

definition dag_new :: "'g petgraph \<Rightarrow> 'g dag" where
  "dag_new P = \<lparr>dg_graph = pg_new P, dg_index = Map.empty\<rparr>"

abbreviation weights :: "'g petgraph \<Rightarrow> 'g dag \<Rightarrow> uuid list" where
  "weights P d \<equiv> pg_weights P (dg_graph d)"

definition add_node :: "'g petgraph \<Rightarrow> 'g dag \<Rightarrow> uuid \<Rightarrow> 'g dag \<times> nat branch_result" where
  "add_node P d branch_id =
     (case dg_index d branch_id of
        Some idx \<Rightarrow> (d, Inr idx)
      | None \<Rightarrow>
          (let (g, idx) = pg_add_node P (dg_graph d) branch_id
           in (\<lparr>dg_graph = g, dg_index = (dg_index d)(branch_id \<mapsto> idx)\<rparr>, Inr idx)))"

definition ensure_or_insert :: "'g petgraph \<Rightarrow> 'g dag \<Rightarrow> uuid \<Rightarrow> 'g dag \<times> nat" where
  "ensure_or_insert P d id' =
     (case dg_index d id' of
        Some idx \<Rightarrow> (d, idx)
      | None \<Rightarrow>
          (let (g, idx) = pg_add_node P (dg_graph d) id'
           in (\<lparr>dg_graph = g, dg_index = (dg_index d)(id' \<mapsto> idx)\<rparr>, idx)))"

definition remove_node ::
    "codec \<Rightarrow> 'g petgraph \<Rightarrow> 'g dag \<Rightarrow> uuid \<Rightarrow> 'g dag \<times> unit branch_result" where
  "remove_node C P d branch_id =
     (case dg_index d branch_id of
        None \<Rightarrow> (d, Inl (DagNodeNotFound branch_id))
      | Some idx \<Rightarrow>
          (let child_count = length (pg_succs P (dg_graph d) idx)
           in if child_count > 0
              then (d, Inl (SandboxError (''cannot remove branch '' @ uuid_str C branch_id @
                      '': it still has '' @ show_nat child_count @ '' child branch(es)'')))
              else (\<lparr>dg_graph = pg_remove_node P (dg_graph d) idx,
                     dg_index = (dg_index d)(branch_id := None)\<rparr>, Inr ())))"

text \<open>
  \<open>None\<close> is the panic of \<open>petgraph\<close>'s \<open>add_edge\<close> when an end point is not a node of the graph.
\<close>

definition add_edge_meta ::
    "'g petgraph \<Rightarrow> 'g dag \<Rightarrow> uuid \<Rightarrow> uuid \<Rightarrow> edge_meta \<Rightarrow> ('g dag \<times> unit branch_result) option" where
  "add_edge_meta P d parent_id child_id meta =
     (if parent_id = child_id then Some (d, Inl (DagCycle parent_id child_id))
      else
        let (d, parent_idx) = ensure_or_insert P d parent_id;
            (d, child_idx) = ensure_or_insert P d child_id
        in if pg_find_edge P (dg_graph d) parent_idx child_idx \<noteq> None then Some (d, Inr ())
           else if \<not> (parent_idx < length (weights P d) \<and> child_idx < length (weights P d)) then None
           else
             let g = pg_add_edge P (dg_graph d) parent_idx child_idx meta
             in if pg_is_cyclic P g
                then Some (d\<lparr>dg_graph := (case pg_find_edge P g parent_idx child_idx of
                                  Some e \<Rightarrow> pg_remove_edge P g e | None \<Rightarrow> g)\<rparr>,
                           Inl (DagCycle parent_id child_id))
                else Some (d\<lparr>dg_graph := g\<rparr>, Inr ()))"

definition add_edge ::
    "'g petgraph \<Rightarrow> datetime \<Rightarrow> 'g dag \<Rightarrow> uuid \<Rightarrow> uuid \<Rightarrow> ('g dag \<times> unit branch_result) option" where
  "add_edge P now d parent_id child_id =
     add_edge_meta P d parent_id child_id \<lparr>em_forked_at = now, em_merge_cursor = None\<rparr>"

definition parent_of :: "'g petgraph \<Rightarrow> 'g dag \<Rightarrow> uuid \<Rightarrow> uuid option branch_result" where
  "parent_of P d branch_id =
     res_bind (ok_or (DagNodeNotFound branch_id) (dg_index d branch_id)) (\<lambda>idx.
       Inr (case pg_preds P (dg_graph d) idx of [] \<Rightarrow> None | n # _ \<Rightarrow> Some (weights P d ! n)))"

definition children_of :: "'g petgraph \<Rightarrow> 'g dag \<Rightarrow> uuid \<Rightarrow> uuid list branch_result" where
  "children_of P d branch_id =
     res_bind (ok_or (DagNodeNotFound branch_id) (dg_index d branch_id)) (\<lambda>idx.
       Inr (map (nth (weights P d)) (pg_succs P (dg_graph d) idx)))"

text \<open>The ancestor walk is a loop over the graph; \<open>None\<close> would be a walk that does not end.\<close>

definition ancestors_of :: "'g petgraph \<Rightarrow> 'g dag \<Rightarrow> uuid \<Rightarrow> uuid list branch_result option" where
  "ancestors_of P d branch_id =
     (case dg_index d branch_id of
        None \<Rightarrow> Some (Inl (DagNodeNotFound branch_id))
      | Some start \<Rightarrow>
          map_option (\<lambda>output. Inr (map (nth (weights P d)) output))
            (search False (pg_preds P (dg_graph d)) [start] {} []))"

text \<open>\<open>?\<close> on a call that may not return.\<close>

definition bind_walk ::
    "'a branch_result option \<Rightarrow> ('a \<Rightarrow> 'b branch_result option) \<Rightarrow> 'b branch_result option" where
  "bind_walk r f = (case r of None \<Rightarrow> None | Some (Inl e) \<Rightarrow> Some (Inl e) | Some (Inr x) \<Rightarrow> f x)"

lemma bind_walk_simps [simp]:
  "bind_walk None f = None" "bind_walk (Some (Inl e)) f = Some (Inl e)"
  "bind_walk (Some (Inr x)) f = f x"
  by (simp_all add: bind_walk_def)

definition find_merge_base ::
    "'g petgraph \<Rightarrow> 'g dag \<Rightarrow> uuid \<Rightarrow> uuid \<Rightarrow> uuid option branch_result option" where
  "find_merge_base P d a b =
     (if a = b then Some (Inr (Some a))
      else
        bind_walk (ancestors_of P d a) (\<lambda>a_ancestors.
          let a_set = set a_ancestors \<union> {a}
          in if b \<in> a_set then Some (Inr (Some b))
             else bind_walk (ancestors_of P d b) (\<lambda>b_ancestors.
               Some (Inr (find (\<lambda>anc. anc \<in> a_set) b_ancestors)))))"

definition is_ancestor ::
    "'g petgraph \<Rightarrow> 'g dag \<Rightarrow> uuid \<Rightarrow> uuid \<Rightarrow> bool branch_result option" where
  "is_ancestor P d ancestor_id descendant_id =
     (if ancestor_id = descendant_id then Some (Inr True)
      else bind_walk (ancestors_of P d descendant_id) (\<lambda>ancestors.
        Some (Inr (ancestor_id \<in> set ancestors))))"

fun min_of :: "'a::linorder list \<Rightarrow> 'a option" where
  "min_of [] = None"
| "min_of (x # xs) = Some (fold min xs x)"

definition root_indices :: "'g petgraph \<Rightarrow> 'g \<Rightarrow> nat list" where
  "root_indices P g = filter (\<lambda>n. length (pg_preds P g n) = 0) [0..<length (pg_weights P g)]"

definition root :: "'g petgraph \<Rightarrow> 'g dag \<Rightarrow> uuid option branch_result" where
  "root P d = Inr (min_of (map (nth (weights P d)) (root_indices P (dg_graph d))))"

definition node_count :: "'g petgraph \<Rightarrow> 'g dag \<Rightarrow> nat" where
  "node_count P d = length (weights P d)"

definition depth_of :: "'g petgraph \<Rightarrow> 'g dag \<Rightarrow> uuid \<Rightarrow> nat branch_result option" where
  "depth_of P d branch_id =
     (case dg_index d branch_id of
        None \<Rightarrow> Some (Inl (DagNodeNotFound branch_id))
      | Some target \<Rightarrow>
          (let roots = root_indices P (dg_graph d)
           in map_option (\<lambda>depth_map. ok_or (DagNodeNotFound branch_id) (depth_map target))
                (bfs_depth (pg_succs P (dg_graph d)) roots (map_of (map (\<lambda>idx. (idx, 0)) roots)))))"

definition all_edges :: "'g petgraph \<Rightarrow> 'g dag \<Rightarrow> (uuid \<times> uuid \<times> edge_meta) list" where
  "all_edges P d =
     map (\<lambda>(src, dst, meta). (weights P d ! src, weights P d ! dst, meta)) (pg_edges P (dg_graph d))"

definition all_nodes :: "'g petgraph \<Rightarrow> 'g dag \<Rightarrow> uuid list" where
  "all_nodes P d = weights P d"

section \<open>The invariant and the lineage relation\<close>

text \<open>
  What the DAG means: the set of branches and the parent-child relation between them. In a
  well-formed DAG the index map is the inverse of the node weights, the edges connect nodes, no
  edge is stored twice, and there is no cycle.
\<close>

definition dag_nodes :: "'g petgraph \<Rightarrow> 'g dag \<Rightarrow> uuid set" where
  "dag_nodes P d = set (weights P d)"

definition dag_rel :: "'g petgraph \<Rightarrow> 'g dag \<Rightarrow> (uuid \<times> uuid) set" where
  "dag_rel P d = map_prod (nth (weights P d)) (nth (weights P d)) ` erel P (dg_graph d)"

definition index_ok :: "'g petgraph \<Rightarrow> 'g dag \<Rightarrow> bool" where
  "index_ok P d \<longleftrightarrow>
     (\<forall>u i. dg_index d u = Some i \<longleftrightarrow> i < length (weights P d) \<and> weights P d ! i = u)"

definition dag_wf :: "'g petgraph \<Rightarrow> 'g dag \<Rightarrow> bool" where
  "dag_wf P d \<longleftrightarrow>
     distinct (weights P d) \<and> index_ok P d \<and> in_range P (dg_graph d) \<and>
     distinct (map ends (pg_edges P (dg_graph d))) \<and> acyclic (erel P (dg_graph d))"

lemma trancl_map_prod:
  assumes "inj_on f A" "r \<subseteq> A \<times> A"
  shows "(map_prod f f ` r)\<^sup>+ = map_prod f f ` r\<^sup>+"
proof (rule equalityI)
  have "(x, y) \<in> map_prod f f ` r\<^sup>+" if "(x, y) \<in> (map_prod f f ` r)\<^sup>+" for x y
    using that
  proof induction
    case (base y)
    then show ?case by auto
  next
    case (step y z)
    then obtain a b b' c where ab: "(a, b) \<in> r\<^sup>+" "x = f a" "y = f b"
      and bc: "(b', c) \<in> r" "y = f b'" "z = f c" by auto
    have "b \<in> A" "b' \<in> A" using trancl_subset_Sigma [OF assms(2)] ab(1) bc(1) assms(2) by auto
    then have "b = b'" using assms(1) ab bc by (simp add: inj_on_def)
    with ab(1) bc(1) have "(a, c) \<in> r\<^sup>+" by simp
    then show ?case using ab bc by (metis imageI map_prod_simp)
  qed
  then show "(map_prod f f ` r)\<^sup>+ \<subseteq> map_prod f f ` r\<^sup>+" by auto
next
  have "(f a, f b) \<in> (map_prod f f ` r)\<^sup>+" if "(a, b) \<in> r\<^sup>+" for a b
    using that
  proof induction
    case (base y)
    then show ?case by (metis image_eqI map_prod_simp r_into_trancl)
  next
    case (step y z)
    from step(2) have "(f y, f z) \<in> map_prod f f ` r" by (metis image_eqI map_prod_simp)
    with step(3) show ?case by (rule trancl_into_trancl)
  qed
  then show "map_prod f f ` r\<^sup>+ \<subseteq> (map_prod f f ` r)\<^sup>+" by auto
qed

lemma relpow_map_prod:
  assumes "inj_on f A" "r \<subseteq> A \<times> A" "x \<in> A" "y \<in> A"
  shows "(f x, f y) \<in> (map_prod f f ` r) ^^ k \<longleftrightarrow> (x, y) \<in> r ^^ k"
proof -
  have to: "\<exists>j \<in> A. v = f j \<and> (x, j) \<in> r ^^ k" if "(f x, v) \<in> (map_prod f f ` r) ^^ k" for v k
    using that
  proof (induction k arbitrary: v)
    case 0
    then show ?case using assms(3) by auto
  next
    case (Suc k)
    then obtain w where w: "(f x, w) \<in> (map_prod f f ` r) ^^ k" "(w, v) \<in> map_prod f f ` r" by auto
    from Suc.IH [OF w(1)] obtain j where j: "j \<in> A" "w = f j" "(x, j) \<in> r ^^ k" by blast
    from w(2) obtain a b where ab: "(a, b) \<in> r" "w = f a" "v = f b" by auto
    with assms(1,2) j have "a = j" by (auto simp: inj_on_def)
    with ab j assms(2) show ?case by auto
  qed
  have from': "(f x, f y) \<in> (map_prod f f ` r) ^^ k" if "(x, y) \<in> r ^^ k" for y
    using that
  proof (induction k arbitrary: y)
    case (Suc k)
    then obtain z where "(x, z) \<in> r ^^ k" "(z, y) \<in> r" by auto
    then have "(f x, f z) \<in> (map_prod f f ` r) ^^ k" "(f z, f y) \<in> map_prod f f ` r"
      using Suc.IH by force+
    then show ?case unfolding relpow.simps by (rule relcompI)
  qed auto
  show ?thesis
  proof
    assume "(f x, f y) \<in> (map_prod f f ` r) ^^ k"
    from to [OF this] obtain j where "j \<in> A" "f y = f j" "(x, j) \<in> r ^^ k" by blast
    then show "(x, y) \<in> r ^^ k" using assms(1,4) by (auto simp: inj_on_def)
  qed (rule from')
qed

lemma map_prod_inj_mem:
  assumes "inj_on f A" "r \<subseteq> A \<times> A" "x \<in> A" "y \<in> A"
  shows "(f x, f y) \<in> map_prod f f ` r \<longleftrightarrow> (x, y) \<in> r"
proof
  assume "(f x, f y) \<in> map_prod f f ` r"
  then obtain a b where ab: "(a, b) \<in> r" "f a = f x" "f b = f y" by (auto simp: eq_commute)
  with assms have "a = x \<and> b = y" by (auto simp: inj_on_def)
  with ab show "(x, y) \<in> r" by simp
qed force

lemma wf_weights: "dag_wf P d \<Longrightarrow> distinct (weights P d)"
  by (simp add: dag_wf_def)

lemma wf_index: "dag_wf P d \<Longrightarrow> dg_index d u = Some i \<longleftrightarrow> i < length (weights P d) \<and> weights P d ! i = u"
  by (simp add: dag_wf_def index_ok_def)

lemma wf_index_None: "dag_wf P d \<Longrightarrow> dg_index d u = None \<longleftrightarrow> u \<notin> dag_nodes P d"
  unfolding dag_nodes_def by (metis in_set_conv_nth not_None_eq wf_index)

lemma wf_range: "dag_wf P d \<Longrightarrow> erel P (dg_graph d) \<subseteq> {..<length (weights P d)} \<times> {..<length (weights P d)}"
  by (auto simp: dag_wf_def in_range_def)

lemma wf_inj: "dag_wf P d \<Longrightarrow> inj_on (nth (weights P d)) {..<length (weights P d)}"
  by (rule inj_on_nth) (auto simp: dag_wf_def)

lemma graph_acyclic: "dag_wf P d \<Longrightarrow> acyclic (erel P (dg_graph d))"
  by (simp add: dag_wf_def)

lemma rel_trancl:
  "dag_wf P d \<Longrightarrow>
   (dag_rel P d)\<^sup>+ = map_prod (nth (weights P d)) (nth (weights P d)) ` (erel P (dg_graph d))\<^sup>+"
  unfolding dag_rel_def by (rule trancl_map_prod [OF wf_inj wf_range])

lemma rel_nth:
  "dag_wf P d \<Longrightarrow> i < length (weights P d) \<Longrightarrow> j < length (weights P d) \<Longrightarrow>
   (weights P d ! i, weights P d ! j) \<in> dag_rel P d \<longleftrightarrow> (i, j) \<in> erel P (dg_graph d)"
  unfolding dag_rel_def by (rule map_prod_inj_mem [OF wf_inj wf_range]) auto

lemma rel_trancl_nth:
  "dag_wf P d \<Longrightarrow> i < length (weights P d) \<Longrightarrow> j < length (weights P d) \<Longrightarrow>
   (weights P d ! i, weights P d ! j) \<in> (dag_rel P d)\<^sup>+ \<longleftrightarrow> (i, j) \<in> (erel P (dg_graph d))\<^sup>+"
  unfolding rel_trancl
  by (rule map_prod_inj_mem [OF wf_inj trancl_subset_Sigma [OF wf_range]]) auto

lemma rel_acyclic: "dag_wf P d \<Longrightarrow> acyclic (dag_rel P d)"
proof (rule acyclicI, rule allI, rule notI)
  fix x assume wf: "dag_wf P d" and "(x, x) \<in> (dag_rel P d)\<^sup>+"
  then obtain i j where ij: "(i, j) \<in> (erel P (dg_graph d))\<^sup>+" "weights P d ! i = weights P d ! j"
    by (auto simp: rel_trancl)
  have "i < length (weights P d)" "j < length (weights P d)"
    using trancl_subset_Sigma [OF wf_range [OF wf]] ij(1) by auto
  with ij wf_weights [OF wf] have "i = j" by (simp add: nth_eq_iff_index_eq)
  with ij(1) graph_acyclic [OF wf] show False by (auto simp: acyclic_def)
qed

lemma rel_nodes: "dag_wf P d \<Longrightarrow> dag_rel P d \<subseteq> dag_nodes P d \<times> dag_nodes P d"
  using wf_range unfolding dag_rel_def dag_nodes_def by fastforce

lemma rel_trancl_nodes: "dag_wf P d \<Longrightarrow> (dag_rel P d)\<^sup>+ \<subseteq> dag_nodes P d \<times> dag_nodes P d"
  by (rule trancl_subset_Sigma [OF rel_nodes])

section \<open>The operations against the relation\<close>

context digraph
begin

lemma new_wf: "dag_wf P (dag_new P)"
  by (simp add: dag_wf_def dag_new_def index_ok_def in_range_def erel_new weights_new edges_new
      acyclic_def)

lemma new_empty: "dag_nodes P (dag_new P) = {}" "dag_rel P (dag_new P) = {}"
  by (simp_all add: dag_nodes_def dag_rel_def dag_new_def weights_new erel_new)

text \<open>What \<open>ensure_or_insert\<close> gives: the node is there, the lineage is untouched.\<close>

lemma ensure_spec:
  assumes wf: "dag_wf P d" and e: "ensure_or_insert P d u = (d', i)"
  shows "dag_wf P d'" "i < length (weights P d')" "weights P d' ! i = u"
    "dag_nodes P d' = insert u (dag_nodes P d)" "dag_rel P d' = dag_rel P d"
    "\<And>v j. dg_index d v = Some j \<Longrightarrow> dg_index d' v = Some j"
proof -
  have "dag_wf P d' \<and> i < length (weights P d') \<and> weights P d' ! i = u \<and>
      dag_nodes P d' = insert u (dag_nodes P d) \<and> dag_rel P d' = dag_rel P d \<and>
      (\<forall>v j. dg_index d v = Some j \<longrightarrow> dg_index d' v = Some j)"
  proof (cases "dg_index d u")
    case (Some j)
    then have "d' = d" "i = j" using e by (simp_all add: ensure_or_insert_def)
    moreover have "j < length (weights P d)" "weights P d ! j = u"
      using Some wf wf_index by blast+
    moreover have "u \<in> dag_nodes P d" using calculation by (auto simp: dag_nodes_def)
    ultimately show ?thesis using wf by auto
  next
    case None
    let ?n = "length (weights P d)"
    define g where "g = fst (pg_add_node P (dg_graph d) u)"
    have d': "d' = \<lparr>dg_graph = g, dg_index = (dg_index d)(u \<mapsto> ?n)\<rparr>" and i: "i = ?n"
      using e None add_node_index [of "dg_graph d" u]
      by (auto simp: ensure_or_insert_def g_def case_prod_unfold)
    have w: "pg_weights P g = weights P d @ [u]" by (simp add: g_def add_node_weights)
    have eds: "pg_edges P g = pg_edges P (dg_graph d)" by (simp add: g_def add_node_edges)
    have er: "erel P g = erel P (dg_graph d)" by (simp add: g_def erel_add_node)
    have new: "u \<notin> set (weights P d)" using wf_index_None [OF wf] None by (simp add: dag_nodes_def)
    have idx: "index_ok P d'"
      using wf_index [OF wf] new unfolding index_ok_def d'
      by (auto simp: w nth_append less_Suc_eq in_set_conv_nth)
    have "in_range P g" using wf_range [OF wf] by (auto simp: in_range_def er w)
    then have "dag_wf P d'"
      using idx new wf by (simp add: dag_wf_def d' w er eds)
    moreover have "dag_rel P d' = dag_rel P d"
      unfolding dag_rel_def d' using wf_range [OF wf]
      by (intro set_eqI) (force simp: er w nth_append image_iff)
    moreover have "dg_index d' v = Some j" if "dg_index d v = Some j" for v j
      using that None by (auto simp: d')
    ultimately show ?thesis
      by (simp add: d' i w dag_nodes_def)
  qed
  then show "dag_wf P d'" "i < length (weights P d')" "weights P d' ! i = u"
    "dag_nodes P d' = insert u (dag_nodes P d)" "dag_rel P d' = dag_rel P d"
    "\<And>v j. dg_index d v = Some j \<Longrightarrow> dg_index d' v = Some j" by blast+
qed

lemma add_node_eq: "add_node P d u = (let (d', i) = ensure_or_insert P d u in (d', Inr i))"
  by (simp add: add_node_def ensure_or_insert_def case_prod_unfold Let_def split: option.split)

lemma wf_same_edges:
  assumes "dag_wf P d" "pg_weights P g = weights P d"
    "mset (pg_edges P g) = mset (pg_edges P (dg_graph d))"
  shows "dag_wf P (d\<lparr>dg_graph := g\<rparr>)" "dag_rel P (d\<lparr>dg_graph := g\<rparr>) = dag_rel P d"
    "dag_nodes P (d\<lparr>dg_graph := g\<rparr>) = dag_nodes P d"
  using assms erel_mset [OF assms(3)] distinct_ends_mset [OF assms(3)]
  by (simp_all add: dag_wf_def index_ok_def in_range_def dag_rel_def dag_nodes_def)

lemma wf_add_edge:
  assumes wf: "dag_wf P d" and i: "i < length (weights P d)" and j: "j < length (weights P d)"
    and new: "(i, j) \<notin> erel P (dg_graph d)"
    and acyc: "acyclic (insert (i, j) (erel P (dg_graph d)))"
  shows "dag_wf P (d\<lparr>dg_graph := pg_add_edge P (dg_graph d) i j m\<rparr>)"
    "dag_rel P (d\<lparr>dg_graph := pg_add_edge P (dg_graph d) i j m\<rparr>) =
       insert (weights P d ! i, weights P d ! j) (dag_rel P d)"
    "dag_nodes P (d\<lparr>dg_graph := pg_add_edge P (dg_graph d) i j m\<rparr>) = dag_nodes P d"
proof -
  have "(i, j) \<notin> ends ` set (pg_edges P (dg_graph d))" using new by (simp add: erel_def)
  then show "dag_wf P (d\<lparr>dg_graph := pg_add_edge P (dg_graph d) i j m\<rparr>)"
    using wf i j acyc
    by (simp add: dag_wf_def index_ok_def in_range_def add_edge_weights add_edge_edges erel_add_edge)
qed (use i j in \<open>simp_all add: dag_rel_def dag_nodes_def add_edge_weights erel_add_edge\<close>)

text \<open>
  \<open>add_edge_meta\<close> on every branch: it never panics, it keeps the invariant, and it rejects exactly
  the edges that would close a cycle, leaving the relation as it was.
\<close>

lemma add_edge_meta_spec:
  assumes wf: "dag_wf P d" and pc: "p \<noteq> c"
  shows "\<exists>d' r. add_edge_meta P d p c m = Some (d', r) \<and> dag_wf P d' \<and>
           dag_nodes P d' = insert c (insert p (dag_nodes P d)) \<and>
           (if (c, p) \<in> (dag_rel P d)\<^sup>+
            then r = Inl (DagCycle p c) \<and> dag_rel P d' = dag_rel P d
            else r = Inr () \<and> dag_rel P d' = insert (p, c) (dag_rel P d))"
proof -
  obtain d1 i where e1: "ensure_or_insert P d p = (d1, i)" by fastforce
  obtain d2 j where e2: "ensure_or_insert P d1 c = (d2, j)" by fastforce
  note s1 = ensure_spec [OF wf e1]
  note s2 = ensure_spec [OF s1(1) e2]
  have "dg_index d1 p = Some i" using s1 wf_index by blast
  then have i: "i < length (weights P d2)" "weights P d2 ! i = p"
    using s2(6) wf_index [OF s2(1)] by blast+
  have j: "j < length (weights P d2)" "weights P d2 ! j = c" by (rule s2(2), rule s2(3))
  have nodes: "dag_nodes P d2 = insert c (insert p (dag_nodes P d))" using s1(4) s2(4) by simp
  have rel: "dag_rel P d2 = dag_rel P d" using s1(5) s2(5) by simp
  let ?E = "erel P (dg_graph d2)" and ?g = "pg_add_edge P (dg_graph d2) i j m"
  have ij: "i \<noteq> j" using i j pc by auto
  have bk: "(j, i) \<in> ?E\<^sup>* \<longleftrightarrow> (c, p) \<in> (dag_rel P d)\<^sup>+"
    using rel_trancl_nth [OF s2(1) j(1) i(1)] i j ij rel by (auto simp: rtrancl_eq_or_trancl)
  have mem: "(i, j) \<in> ?E \<longleftrightarrow> (p, c) \<in> dag_rel P d"
    using rel_nth [OF s2(1) i(1) j(1)] i j rel by simp
  have eq: "add_edge_meta P d p c m =
      (if pg_find_edge P (dg_graph d2) i j \<noteq> None then Some (d2, Inr ())
       else if pg_is_cyclic P ?g
            then Some (d2\<lparr>dg_graph := (case pg_find_edge P ?g i j of
                              Some e \<Rightarrow> pg_remove_edge P ?g e | None \<Rightarrow> ?g)\<rparr>, Inl (DagCycle p c))
            else Some (d2\<lparr>dg_graph := ?g\<rparr>, Inr ()))"
    using pc i(1) j(1) by (simp add: add_edge_meta_def e1 e2 Let_def)
  show ?thesis
  proof (cases "(i, j) \<in> ?E")
    case True
    then have "add_edge_meta P d p c m = Some (d2, Inr ())"
      using find_edge_None [of "dg_graph d2" i j] by (simp add: eq)
    moreover have "(c, p) \<notin> (dag_rel P d)\<^sup>+"
      using True mem rel_acyclic [OF wf] by (meson acyclic_def trancl_into_trancl2)
    moreover have "insert (p, c) (dag_rel P d) = dag_rel P d" using True mem by auto
    ultimately show ?thesis using s2(1) nodes rel by simp
  next
    case False
    have "in_range P ?g"
      using wf_range [OF s2(1)] i(1) j(1)
      by (auto simp: in_range_def erel_add_edge add_edge_weights)
    then have cyc: "pg_is_cyclic P ?g \<longleftrightarrow> (c, p) \<in> (dag_rel P d)\<^sup>+"
      using is_cyclic i(1) j(1) graph_acyclic [OF s2(1)] bk by (simp add: erel_add_edge)
    have none: "pg_find_edge P (dg_graph d2) i j = None" using False find_edge_None by simp
    show ?thesis
    proof (cases "(c, p) \<in> (dag_rel P d)\<^sup>+")
      case True
      have "(i, j) \<in> erel P ?g" using i(1) j(1) by (simp add: erel_add_edge)
      then obtain e where e: "pg_find_edge P ?g i j = Some e"
        using find_edge_None by (metis not_None_eq)
      let ?u = "d2\<lparr>dg_graph := pg_remove_edge P ?g e\<rparr>"
      have "add_edge_meta P d p c m = Some (?u, Inl (DagCycle p c))"
        using True none cyc by (simp add: eq e)
      moreover have "pg_weights P (pg_remove_edge P ?g e) = weights P d2"
        using i(1) j(1) by (simp add: remove_edge_weights add_edge_weights)
      note keep = wf_same_edges [OF s2(1) this undo_add_edge [OF i(1) j(1) False e]]
      ultimately show ?thesis using True keep nodes rel by simp
    next
      case acyc: False
      then have "add_edge_meta P d p c m = Some (d2\<lparr>dg_graph := ?g\<rparr>, Inr ())"
        using none cyc by (simp add: eq)
      moreover have "acyclic (insert (i, j) ?E)"
        using graph_acyclic [OF s2(1)] bk acyc by simp
      note new = wf_add_edge [OF s2(1) i(1) j(1) False this, of m]
      ultimately show ?thesis using acyc new nodes rel i j by simp
    qed
  qed
qed

lemma ancestors_of_spec:
  assumes wf: "dag_wf P d"
  shows "if u \<in> dag_nodes P d
         then \<exists>xs. ancestors_of P d u = Some (Inr xs) \<and> distinct xs \<and>
                set xs = {a. (a, u) \<in> (dag_rel P d)\<^sup>+}
         else ancestors_of P d u = Some (Inl (DagNodeNotFound u))"
proof (cases "dg_index d u")
  case None
  then show ?thesis using wf_index_None [OF wf, of u] by (simp add: ancestors_of_def)
next
  case (Some i)
  let ?V = "{..<length (weights P d)}" and ?w = "nth (weights P d)"
  let ?E = "erel P (dg_graph d)"
  have i: "i \<in> ?V" "?w i = u" using Some wf_index [OF wf] by auto
  have "closed_under ?V (pg_preds P (dg_graph d))"
    using wf_range [OF wf] by (auto simp: closed_under_def set_preds)
  from search_correct [OF _ this i(1), of "{}" False] obtain out where
    out: "search False (pg_preds P (dg_graph d)) [i] {} [] = Some out" "distinct out"
      "set out = {y. (i, y) \<in> (?E\<inverse>)\<^sup>+}"
    by (auto simp: edges_of_preds)
  have set: "set out = {y. (y, i) \<in> ?E\<^sup>+}" using out(3) by (simp add: trancl_converse)
  have sub: "?E\<^sup>+ \<subseteq> ?V \<times> ?V" by (rule trancl_subset_Sigma [OF wf_range [OF wf]])
  then have V: "set out \<subseteq> ?V" using set by auto
  have "distinct (map ?w out)"
    using out(2) inj_on_subset [OF wf_inj [OF wf] V] by (simp add: distinct_map)
  moreover have "set (map ?w out) = {a. (a, u) \<in> (dag_rel P d)\<^sup>+}"
  proof (intro set_eqI iffI)
    fix a assume "a \<in> set (map ?w out)"
    then obtain y where "a = ?w y" "(y, i) \<in> ?E\<^sup>+" using set by auto
    then show "a \<in> {a. (a, u) \<in> (dag_rel P d)\<^sup>+}" using i(2) by (auto simp: rel_trancl [OF wf])
  next
    fix a assume "a \<in> {a. (a, u) \<in> (dag_rel P d)\<^sup>+}"
    then obtain x y where xy: "(x, y) \<in> ?E\<^sup>+" "a = ?w x" "?w y = u"
      by (auto simp: rel_trancl [OF wf])
    have "y \<in> ?V" using sub xy(1) by auto
    then have "y = i" using inj_onD [OF wf_inj [OF wf], of y i] i xy(3) by auto
    with xy show "a \<in> set (map ?w out)" using set by auto
  qed
  moreover have "u \<in> dag_nodes P d" using i by (auto simp: dag_nodes_def)
  ultimately show ?thesis using Some out(1) by (simp add: ancestors_of_def)
qed

lemma find_merge_base_spec:
  assumes wf: "dag_wf P d" and a: "a \<in> dag_nodes P d" and b: "b \<in> dag_nodes P d"
  shows "\<exists>r. find_merge_base P d a b = Some (Inr r) \<and>
           (case r of
              Some x \<Rightarrow> (x, a) \<in> (dag_rel P d)\<^sup>* \<and> (x, b) \<in> (dag_rel P d)\<^sup>*
            | None \<Rightarrow> \<not> (\<exists>x. (x, a) \<in> (dag_rel P d)\<^sup>* \<and> (x, b) \<in> (dag_rel P d)\<^sup>*))"
proof (cases "a = b")
  case True
  then show ?thesis by (simp add: find_merge_base_def)
next
  case False
  obtain as where as: "ancestors_of P d a = Some (Inr as)" "set as = {x. (x, a) \<in> (dag_rel P d)\<^sup>+}"
    using ancestors_of_spec [OF wf, of a] a by auto
  obtain bs where bs: "ancestors_of P d b = Some (Inr bs)" "set bs = {x. (x, b) \<in> (dag_rel P d)\<^sup>+}"
    using ancestors_of_spec [OF wf, of b] b by auto
  let ?A = "set as \<union> {a}"
  have A: "x \<in> ?A \<longleftrightarrow> (x, a) \<in> (dag_rel P d)\<^sup>*" for x
    by (auto simp: as(2) rtrancl_eq_or_trancl)
  have B: "x \<in> set bs \<or> x = b \<longleftrightarrow> (x, b) \<in> (dag_rel P d)\<^sup>*" for x
    by (auto simp: bs(2) rtrancl_eq_or_trancl)
  show ?thesis
  proof (cases "b \<in> ?A")
    case True
    then have "find_merge_base P d a b = Some (Inr (Some b))"
      using False by (simp add: find_merge_base_def as(1) Let_def)
    then show ?thesis using True A by auto
  next
    case nb: False
    let ?f = "find (\<lambda>x. x \<in> ?A) bs"
    have eq: "find_merge_base P d a b = Some (Inr ?f)"
      using False nb by (simp add: find_merge_base_def as(1) bs(1) Let_def)
    show ?thesis
    proof (cases ?f)
      case None
      then have "\<forall>x \<in> set bs. x \<notin> ?A" by (auto simp: find_None_iff)
      then have "\<not> (x \<in> ?A \<and> (x \<in> set bs \<or> x = b))" for x using nb by blast
      then show ?thesis using eq None unfolding A B by auto
    next
      case (Some x)
      then have "x \<in> set bs" "x \<in> ?A" by (auto dest: find_source)
      then show ?thesis using eq Some A [of x] B [of x] by simp
    qed
  qed
qed

lemma is_ancestor_spec:
  assumes "dag_wf P d" and "u \<in> dag_nodes P d"
  shows "is_ancestor P d a u = Some (Inr ((a, u) \<in> (dag_rel P d)\<^sup>*))"
  using ancestors_of_spec [OF assms(1), of u] assms(2)
  by (auto simp: is_ancestor_def rtrancl_eq_or_trancl)

end

section \<open>Roots and depths\<close>

definition dag_roots :: "'g petgraph \<Rightarrow> 'g dag \<Rightarrow> uuid set" where
  "dag_roots P d = {r \<in> dag_nodes P d. \<forall>a. (a, r) \<notin> dag_rel P d}"

text \<open>\<open>k\<close> is the least number of edges from a root down to \<open>u\<close>.\<close>

definition lineage_depth :: "'g petgraph \<Rightarrow> 'g dag \<Rightarrow> uuid \<Rightarrow> nat \<Rightarrow> bool" where
  "lineage_depth P d u k \<longleftrightarrow>
     (\<exists>r \<in> dag_roots P d. (r, u) \<in> dag_rel P d ^^ k) \<and>
     (\<forall>j < k. \<forall>r \<in> dag_roots P d. (r, u) \<notin> dag_rel P d ^^ j)"

lemma min_of_eq: "min_of xs = (if xs = [] then None else Some (Min (set xs)))"
proof (cases xs)
  case (Cons x ys)
  then show ?thesis by (simp add: Min.set_eq_fold [symmetric])
qed simp

context digraph
begin

lemma set_root_indices:
  "set (root_indices P g) = {i. i < length (pg_weights P g) \<and> (\<forall>a. (a, i) \<notin> erel P g)}"
  unfolding root_indices_def set_filter no_preds by auto

lemma roots_nth:
  assumes wf: "dag_wf P d"
  shows "dag_roots P d = nth (weights P d) ` set (root_indices P (dg_graph d))"
proof (intro set_eqI iffI)
  fix r assume "r \<in> dag_roots P d"
  then obtain i where i: "i < length (weights P d)" "r = weights P d ! i" and
    no: "\<forall>a. (a, r) \<notin> dag_rel P d"
    by (auto simp: dag_roots_def dag_nodes_def in_set_conv_nth)
  have "(a, i) \<notin> erel P (dg_graph d)" for a
    using no i rel_nth [OF wf _ i(1), of a] wf_range [OF wf] by auto
  with i show "r \<in> nth (weights P d) ` set (root_indices P (dg_graph d))"
    by (auto simp: set_root_indices)
next
  fix r assume "r \<in> nth (weights P d) ` set (root_indices P (dg_graph d))"
  then obtain i where i: "i < length (weights P d)" "r = weights P d ! i"
    and no: "\<forall>a. (a, i) \<notin> erel P (dg_graph d)"
    by (auto simp: set_root_indices)
  have "(a, r) \<notin> dag_rel P d" for a
  proof
    assume "(a, r) \<in> dag_rel P d"
    moreover from this have "a \<in> set (weights P d)"
      using rel_nodes [OF wf] by (auto simp: dag_nodes_def)
    then obtain j where "j < length (weights P d)" "a = weights P d ! j"
      by (metis in_set_conv_nth)
    ultimately show False using rel_nth [OF wf _ i(1)] i(2) no by auto
  qed
  then show "r \<in> dag_roots P d" using i by (auto simp: dag_roots_def dag_nodes_def)
qed

lemma root_spec:
  assumes "dag_wf P d"
  shows "root P d = Inr (if dag_roots P d = {} then None else Some (Min (dag_roots P d)))"
  by (simp add: root_def min_of_eq roots_nth [OF assms])

lemma bfs_hops:
  assumes wf: "dag_wf P d"
  shows "\<exists>dm. bfs_depth (pg_succs P (dg_graph d)) (root_indices P (dg_graph d))
               (map_of (map (\<lambda>idx. (idx, 0)) (root_indices P (dg_graph d)))) = Some dm \<and>
           (\<forall>i k. i < length (weights P d) \<longrightarrow> dm i = Some k \<longleftrightarrow> lineage_depth P d (weights P d ! i) k)"
proof -
  let ?V = "{..<length (weights P d)}" and ?R = "root_indices P (dg_graph d)"
  let ?E = "erel P (dg_graph d)" and ?w = "nth (weights P d)"
  have cl: "closed_under ?V (pg_succs P (dg_graph d))"
    using wf_range [OF wf] by (auto simp: closed_under_def set_succs)
  have R: "set ?R \<subseteq> ?V" by (auto simp: set_root_indices)
  have dm0: "map_of (map (\<lambda>idx. (idx, 0)) ?R) = (\<lambda>x. if x \<in> set ?R then Some (0::nat) else None)"
    by (auto simp: map_of_map_restrict restrict_map_def)
  from bfs_depth_correct [OF _ cl R] obtain dm where
    dm: "bfs_depth (pg_succs P (dg_graph d)) ?R (map_of (map (\<lambda>idx. (idx, 0)) ?R)) = Some dm"
      "\<And>y k. dm y = Some k \<longleftrightarrow> hops (set ?R) (pg_succs P (dg_graph d)) y k"
    unfolding dm0 by auto
  have pow: "(?w r, ?w i) \<in> dag_rel P d ^^ k \<longleftrightarrow> (r, i) \<in> ?E ^^ k" if "r \<in> set ?R" "i \<in> ?V" for r i k
    unfolding dag_rel_def using that R by (intro relpow_map_prod [OF wf_inj [OF wf] wf_range [OF wf]]) auto
  have "hops (set ?R) (pg_succs P (dg_graph d)) i k \<longleftrightarrow> lineage_depth P d (?w i) k" if "i \<in> ?V" for i k
    unfolding hops_def lineage_depth_def roots_nth [OF wf] edges_of_succs using pow that by auto
  with dm show ?thesis by auto
qed

lemma reach_root:
  assumes wf: "dag_wf P d" and u: "u \<in> dag_nodes P d"
  shows "\<exists>r \<in> dag_roots P d. (r, u) \<in> (dag_rel P d)\<^sup>*"
proof -
  have "finite (dag_rel P d)" by (simp add: dag_rel_def erel_def)
  then have "wf (dag_rel P d)" using rel_acyclic [OF wf] by (rule finite_acyclic_wf)
  then show ?thesis using u
  proof (induction u rule: wf_induct_rule)
    case (less u)
    show ?case
    proof (cases "\<exists>a. (a, u) \<in> dag_rel P d")
      case True
      then obtain a where a: "(a, u) \<in> dag_rel P d" by blast
      moreover have "a \<in> dag_nodes P d" using a rel_nodes [OF wf] by auto
      ultimately obtain r where "r \<in> dag_roots P d" "(r, a) \<in> (dag_rel P d)\<^sup>*" using less by blast
      with a show ?thesis by (meson rtrancl.rtrancl_into_rtrancl)
    next
      case False
      with less(2) show ?thesis by (auto simp: dag_roots_def)
    qed
  qed
qed

lemma depth_exists:
  assumes "dag_wf P d" and "u \<in> dag_nodes P d"
  shows "\<exists>k. lineage_depth P d u k"
proof -
  define Q where "Q k \<longleftrightarrow> (\<exists>r \<in> dag_roots P d. (r, u) \<in> dag_rel P d ^^ k)" for k
  from reach_root [OF assms] obtain r where "r \<in> dag_roots P d" "(r, u) \<in> (dag_rel P d)\<^sup>*" by blast
  then obtain k where "Q k" unfolding Q_def by (meson rtrancl_imp_relpow)
  then have "Q (LEAST k. Q k)" by (rule LeastI)
  moreover have "\<not> Q j" if "j < (LEAST k. Q k)" for j using that by (rule not_less_Least)
  ultimately show ?thesis unfolding lineage_depth_def Q_def by blast
qed

lemma depth_of_spec:
  assumes wf: "dag_wf P d"
  shows "if u \<in> dag_nodes P d
         then \<exists>k. depth_of P d u = Some (Inr k) \<and> lineage_depth P d u k
         else depth_of P d u = Some (Inl (DagNodeNotFound u))"
proof (cases "dg_index d u")
  case None
  then show ?thesis using wf_index_None [OF wf, of u] by (simp add: depth_of_def)
next
  case (Some i)
  then have i: "i < length (weights P d)" "weights P d ! i = u" using wf_index [OF wf] by auto
  then have u: "u \<in> dag_nodes P d" by (auto simp: dag_nodes_def)
  from bfs_hops [OF wf] obtain dm where dm:
    "bfs_depth (pg_succs P (dg_graph d)) (root_indices P (dg_graph d))
       (map_of (map (\<lambda>idx. (idx, 0)) (root_indices P (dg_graph d)))) = Some dm"
    "\<And>k. dm i = Some k \<longleftrightarrow> lineage_depth P d u k"
    using i by auto
  from depth_exists [OF wf u] obtain k where "lineage_depth P d u k" by blast
  then have "dm i = Some k" "lineage_depth P d u k" using dm(2) by auto
  then show ?thesis using Some u dm(1) by (auto simp: depth_of_def)
qed

end

section \<open>Removing a branch\<close>

lemma nth_swap_remove:
  "x < length xs - 1 \<Longrightarrow> i < length xs \<Longrightarrow>
   swap_remove xs i ! x = (if x = i then last xs else xs ! x)"
  by (simp add: swap_remove_def nth_butlast)

lemma nth_adopt:
  assumes "a < length xs" "a \<noteq> i" "i < length xs"
  shows "adopt (length xs) i a < length xs - 1 \<and> swap_remove xs i ! adopt (length xs) i a = xs ! a"
proof (cases "a = length xs - 1")
  case True
  moreover have "last xs = xs ! (length xs - 1)" using assms by (intro last_conv_nth) auto
  ultimately show ?thesis using assms by (auto simp: adopt_def nth_swap_remove)
next
  case False
  then show ?thesis using assms by (auto simp: adopt_def nth_swap_remove)
qed

lemma swap_remove_last: "swap_remove xs (length xs - 1) = butlast xs"
  by (cases xs rule: rev_cases) (simp_all add: swap_remove_def)

text \<open>The DAG after a successful \<open>remove_node\<close>.\<close>

definition removed :: "'g petgraph \<Rightarrow> 'g dag \<Rightarrow> uuid \<Rightarrow> nat \<Rightarrow> 'g dag" where
  "removed P d u i =
     \<lparr>dg_graph = pg_remove_node P (dg_graph d) i, dg_index = (dg_index d)(u := None)\<rparr>"

context digraph
begin

lemma erel_removed:
  assumes "i < length (pg_weights P g)"
  shows "erel P (pg_remove_node P g i) =
    map_prod (adopt (length (pg_weights P g)) i) (adopt (length (pg_weights P g)) i) `
      {(a, b) \<in> erel P g. a \<noteq> i \<and> b \<noteq> i}"
proof -
  have "set (pg_edges P (pg_remove_node P g i)) =
      (\<lambda>e. (adopt (length (pg_weights P g)) i (fst e),
             adopt (length (pg_weights P g)) i (fst (snd e)), snd (snd e))) `
        {e \<in> set (pg_edges P g). fst e \<noteq> i \<and> fst (snd e) \<noteq> i}"
    using arg_cong [OF remove_node_edges [OF assms], of set_mset]
    by (simp add: case_prod_unfold)
  then show ?thesis unfolding erel_def by (force simp: image_iff)
qed

lemma remove_node_eq:
  assumes wf: "dag_wf P d" and u: "dg_index d u = Some i" and leaf: "\<forall>c. (u, c) \<notin> dag_rel P d"
  shows "remove_node C P d u = (removed P d u i, Inr ())"
proof -
  have i: "i < length (weights P d)" "weights P d ! i = u" using wf_index [OF wf] u by auto
  have "(i, b) \<notin> erel P (dg_graph d)" for b
    using leaf i rel_nth [OF wf i(1), of b] wf_range [OF wf] by auto
  then have "length (pg_succs P (dg_graph d) i) = 0" by (simp only: no_succs) simp
  then show ?thesis using u by (simp add: remove_node_def removed_def)
qed

lemma removed_rel:
  assumes wf: "dag_wf P d" and u: "dg_index d u = Some i"
  shows "dag_nodes P (removed P d u i) = dag_nodes P d - {u}"
    "dag_rel P (removed P d u i) = {(x, y) \<in> dag_rel P d. x \<noteq> u \<and> y \<noteq> u}"
proof -
  let ?w = "weights P d" and ?f = "adopt (length (weights P d)) i"
  have i: "i < length ?w" "?w ! i = u" using wf_index [OF wf] u by auto
  have w': "weights P (removed P d u i) = swap_remove ?w i"
    using i by (simp add: removed_def remove_node_weights)
  have "mset (swap_remove ?w i) = mset ?w - {#u#}" using i mset_swap_remove by blast
  then have "set (swap_remove ?w i) = set ?w - {u}"
    using wf_weights [OF wf] by (metis mset_remove1 set_mset_mset set_remove1_eq)
  then show "dag_nodes P (removed P d u i) = dag_nodes P d - {u}"
    by (simp add: dag_nodes_def w')
  have neq: "?w ! a \<noteq> u \<longleftrightarrow> a \<noteq> i" if "a < length ?w" for a
    using that i wf_weights [OF wf] by (auto simp: nth_eq_iff_index_eq)
  have "dag_rel P (removed P d u i) =
      map_prod (\<lambda>a. swap_remove ?w i ! ?f a) (\<lambda>a. swap_remove ?w i ! ?f a) `
        {(a, b) \<in> erel P (dg_graph d). a \<noteq> i \<and> b \<noteq> i}"
    unfolding dag_rel_def w' using i
    by (simp add: removed_def erel_removed image_image map_prod_def case_prod_unfold)
  also have "\<dots> = map_prod (nth ?w) (nth ?w) ` {(a, b) \<in> erel P (dg_graph d). a \<noteq> i \<and> b \<noteq> i}"
    using wf_range [OF wf] nth_adopt [of _ ?w i] i(1) by (intro image_cong) auto
  also have "\<dots> = {(x, y) \<in> dag_rel P d. x \<noteq> u \<and> y \<noteq> u}"
    unfolding dag_rel_def using wf_range [OF wf] neq by (auto simp: image_iff) force+
  finally show "dag_rel P (removed P d u i) = {(x, y) \<in> dag_rel P d. x \<noteq> u \<and> y \<noteq> u}" .
qed

text \<open>The index map stays the inverse of the weights only when the freed index is the last one.\<close>

lemma removed_wf:
  assumes wf: "dag_wf P d" and u: "dg_index d u = Some i"
  shows "dag_wf P (removed P d u i) \<longleftrightarrow> i = length (weights P d) - 1"
proof
  let ?w = "weights P d" and ?n = "length (weights P d)"
  have i: "i < ?n" "?w ! i = u" using wf_index [OF wf] u by auto
  have w': "weights P (removed P d u i) = swap_remove ?w i"
    using i by (simp add: removed_def remove_node_weights)
  {
    assume "dag_wf P (removed P d u i)"
    then have ix: "index_ok P (removed P d u i)" by (simp add: dag_wf_def)
    show "i = ?n - 1"
    proof (rule ccontr)
      assume ne: "i \<noteq> ?n - 1"
      have "dg_index d (?w ! (?n - 1)) = Some (?n - 1)" using wf_index [OF wf] i by auto
      moreover have "?w ! (?n - 1) \<noteq> u"
        using i ne wf_weights [OF wf] nth_eq_iff_index_eq [of ?w "?n - 1" i] by auto
      ultimately have "dg_index (removed P d u i) (?w ! (?n - 1)) = Some (?n - 1)"
        by (simp add: removed_def)
      then have "?n - 1 < length (weights P (removed P d u i))" using ix by (simp add: index_ok_def)
      then show False by (simp add: w')
    qed
  next
    assume last: "i = ?n - 1"
    have w: "weights P (removed P d u i) = butlast ?w" using w' swap_remove_last [of ?w] last by simp
    have "mset (pg_edges P (pg_remove_node P (dg_graph d) i)) =
        mset (filter (\<lambda>(a, b, m). a \<noteq> i \<and> b \<noteq> i) (pg_edges P (dg_graph d)))"
      using remove_node_edges [OF i(1)] last by (simp add: adopt_def case_prod_unfold)
    then have ms: "mset (map ends (pg_edges P (pg_remove_node P (dg_graph d) i))) =
        mset (map ends (filter (\<lambda>(a, b, m). a \<noteq> i \<and> b \<noteq> i) (pg_edges P (dg_graph d))))"
      by (simp only: mset_map)
    have "distinct (map ends (pg_edges P (pg_remove_node P (dg_graph d) i)))"
      using wf unfolding mset_eq_imp_distinct_iff [OF ms]
      by (simp add: dag_wf_def distinct_map_filter)
    moreover have er: "erel P (pg_remove_node P (dg_graph d) i) = {(a, b) \<in> erel P (dg_graph d). a \<noteq> i \<and> b \<noteq> i}"
      using erel_removed [OF i(1)] last by (auto simp: adopt_def image_iff)
    moreover have "acyclic (erel P (pg_remove_node P (dg_graph d) i))"
      unfolding er by (rule acyclic_subset [OF graph_acyclic [OF wf]]) auto
    moreover have "in_range P (pg_remove_node P (dg_graph d) i)"
      using wf_range [OF wf] w last i unfolding in_range_def er by (fastforce simp: removed_def)
    moreover have "index_ok P (removed P d u i)"
      unfolding index_ok_def w
    proof (intro allI)
      fix v j
      have "dg_index (removed P d u i) v = Some j \<longleftrightarrow> v \<noteq> u \<and> j < ?n \<and> ?w ! j = v"
        using wf_index [OF wf, of v j] by (simp add: removed_def)
      also have "\<dots> \<longleftrightarrow> j < ?n \<and> j \<noteq> i \<and> ?w ! j = v"
        using i wf_weights [OF wf] nth_eq_iff_index_eq [of ?w j i] by auto
      also have "\<dots> \<longleftrightarrow> j < length (butlast ?w) \<and> butlast ?w ! j = v"
        using last by (auto simp: nth_butlast)
      finally show "dg_index (removed P d u i) v = Some j \<longleftrightarrow> j < length (butlast ?w) \<and> butlast ?w ! j = v" .
    qed
    moreover have "distinct (butlast ?w)" using wf_weights [OF wf] by (rule distinct_butlast)
    ultimately show "dag_wf P (removed P d u i)"
      using w by (simp add: dag_wf_def removed_def)
  }
qed

lemma removed_stale:
  assumes wf: "dag_wf P d" and u: "dg_index d u = Some i" and i: "i \<noteq> length (weights P d) - 1"
  defines "v \<equiv> last (weights P d)"
  shows "v \<in> dag_nodes P (removed P d u i)" "parent_of P (removed P d u i) v = Inr None"
    "children_of P (removed P d u i) v = Inr []"
proof -
  let ?n = "length (weights P d)"
  have il: "i < ?n" "weights P d ! i = u" using wf_index [OF wf] u by auto
  then have v: "v = weights P d ! (?n - 1)" unfolding v_def by (intro last_conv_nth) auto
  have "v \<noteq> u"
    using il i wf_weights [OF wf] nth_eq_iff_index_eq [of "weights P d" "?n - 1" i] v by auto
  moreover have "v \<in> dag_nodes P d" using il v by (auto simp: dag_nodes_def)
  ultimately show "v \<in> dag_nodes P (removed P d u i)" using removed_rel [OF wf u] by simp
  have "dg_index d v = Some (?n - 1)" using wf_index [OF wf] il v by auto
  then have ix: "dg_index (removed P d u i) v = Some (?n - 1)"
    using \<open>v \<noteq> u\<close> by (simp add: removed_def)
  have none: "(a, b) \<in> erel P (dg_graph (removed P d u i)) \<Longrightarrow> a \<noteq> ?n - 1 \<and> b \<noteq> ?n - 1" for a b
    using erel_removed [OF il(1)] i by (auto simp: removed_def adopt_def split: if_splits)
  have "set (pg_preds P (dg_graph (removed P d u i)) (?n - 1)) = {}"
    "set (pg_succs P (dg_graph (removed P d u i)) (?n - 1)) = {}"
    unfolding set_preds set_succs using none by auto
  then show "parent_of P (removed P d u i) v = Inr None" "children_of P (removed P d u i) v = Inr []"
    by (simp_all add: parent_of_def children_of_def ix res_bind_def)
qed

lemma parent_children_spec:
  assumes wf: "dag_wf P d" and u: "u \<in> dag_nodes P d"
  shows "\<exists>cs. children_of P d u = Inr cs \<and> set cs = {c. (u, c) \<in> dag_rel P d}"
    "\<exists>r. parent_of P d u = Inr r \<and>
       (case r of Some p \<Rightarrow> (p, u) \<in> dag_rel P d | None \<Rightarrow> \<forall>p. (p, u) \<notin> dag_rel P d)"
proof -
  obtain i where ix: "dg_index d u = Some i" using wf_index_None [OF wf, of u] u by auto
  then have i: "i < length (weights P d)" "weights P d ! i = u" using wf_index [OF wf] by auto
  have S: "nth (weights P d) ` {c. (i, c) \<in> erel P (dg_graph d)} = {c. (u, c) \<in> dag_rel P d}"
  proof (intro set_eqI iffI)
    fix c assume "c \<in> {c. (u, c) \<in> dag_rel P d}"
    then have c: "(u, c) \<in> dag_rel P d" by simp
    then have "c \<in> set (weights P d)" using rel_nodes [OF wf] by (auto simp: dag_nodes_def)
    then obtain j where "j < length (weights P d)" "c = weights P d ! j" by (metis in_set_conv_nth)
    then show "c \<in> nth (weights P d) ` {c. (i, c) \<in> erel P (dg_graph d)}"
      using c rel_nth [OF wf i(1)] i(2) by auto
  qed (use i rel_nth [OF wf i(1)] wf_range [OF wf] in auto)
  show "\<exists>cs. children_of P d u = Inr cs \<and> set cs = {c. (u, c) \<in> dag_rel P d}"
    by (simp add: children_of_def ix res_bind_def set_succs S)
  show "\<exists>r. parent_of P d u = Inr r \<and>
       (case r of Some p \<Rightarrow> (p, u) \<in> dag_rel P d | None \<Rightarrow> \<forall>p. (p, u) \<notin> dag_rel P d)"
  proof (cases "pg_preds P (dg_graph d) i")
    case Nil
    then have none: "\<forall>a. (a, i) \<notin> erel P (dg_graph d)" using set_preds [of "dg_graph d" i] by auto
    have "(p, u) \<notin> dag_rel P d" for p
    proof
      assume p: "(p, u) \<in> dag_rel P d"
      then have "p \<in> set (weights P d)" using rel_nodes [OF wf] by (auto simp: dag_nodes_def)
      then obtain j where "j < length (weights P d)" "p = weights P d ! j" by (metis in_set_conv_nth)
      then show False using p rel_nth [OF wf _ i(1)] i(2) none by auto
    qed
    with Nil show ?thesis by (simp add: parent_of_def ix res_bind_def)
  next
    case (Cons a as)
    then have "(a, i) \<in> erel P (dg_graph d)" using set_preds [of "dg_graph d" i] by auto
    then have "(weights P d ! a, u) \<in> dag_rel P d"
      using rel_nth [OF wf _ i(1), of a] wf_range [OF wf] i(2) by auto
    with Cons show ?thesis by (simp add: parent_of_def ix res_bind_def)
  qed
qed

end

section \<open>Properties\<close>

text \<open>
  A small DAG on the list implementation for the witnesses: branch 1 is the root, 2 and 4 are
  forked from it, and 3 is forked from 2.
\<close>

definition fork_meta :: edge_meta where
  "fork_meta = \<lparr>em_forked_at = 0, em_merge_cursor = None\<rparr>"

definition sample_dag :: "list_graph dag" where
  "sample_dag =
     \<lparr>dg_graph = ([1, 2, 3, 4], [(0, 1, fork_meta), (1, 2, fork_meta), (0, 3, fork_meta)]),
      dg_index = map_of [(1, 0), (2, 1), (3, 2), (4, 3)]\<rparr>"

lemma index_of_zip:
  "distinct ws \<Longrightarrow> map_of (zip ws [0..<length ws]) u = Some i \<longleftrightarrow> i < length ws \<and> ws ! i = u"
proof -
  assume "distinct ws"
  then have "map_of (zip ws [0..<length ws]) u = Some i \<longleftrightarrow> (u, i) \<in> set (zip ws [0..<length ws])"
    by (intro map_of_eq_Some_iff) simp
  also have "\<dots> \<longleftrightarrow> i < length ws \<and> ws ! i = u" by (auto simp: in_set_zip)
  finally show ?thesis .
qed

lemma sample_erel: "erel list_pg (dg_graph sample_dag) = {(0, 1), (1, 2), (0, 3)}"
  by (simp add: sample_dag_def erel_list_pg)

lemma sample_nodes: "dag_nodes list_pg sample_dag = {1, 2, 3, 4}"
  by (simp add: sample_dag_def dag_nodes_def)

lemma sample_rel: "dag_rel list_pg sample_dag = {(1, 2), (2, 3), (1, 4)}"
  unfolding dag_rel_def sample_erel by (simp add: sample_dag_def)

lemma sample_index:
  "dg_index sample_dag u = Some i \<longleftrightarrow> i < length (weights list_pg sample_dag) \<and> weights list_pg sample_dag ! i = u"
proof -
  have "zip [1, 2, 3, 4 :: uuid] [0..<length [1, 2, 3, 4 :: uuid]] = [(1, 0), (2, 1), (3, 2), (4, 3)]"
    by (simp add: upt_rec)
  then have "dg_index sample_dag = map_of (zip [1, 2, 3, 4] [0..<length [1, 2, 3, 4 :: uuid]])"
    by (simp only: sample_dag_def dag.select_convs)
  moreover have "weights list_pg sample_dag = [1, 2, 3, 4]" by (simp add: sample_dag_def)
  moreover have "distinct [1, 2, 3, 4 :: uuid]" by simp
  ultimately show ?thesis using index_of_zip [of "[1, 2, 3, 4 :: uuid]" u i] by (simp only:)
qed

lemma sample_wf: "dag_wf list_pg sample_dag"
proof -
  have "erel list_pg (dg_graph sample_dag) \<subseteq> less_than" by (simp add: sample_erel)
  then have "wf (erel list_pg (dg_graph sample_dag))" by (rule wf_subset [OF wf_less_than])
  then have "acyclic (erel list_pg (dg_graph sample_dag))" by (rule wf_acyclic)
  moreover have "in_range list_pg (dg_graph sample_dag)"
    unfolding in_range_def sample_erel by (simp add: sample_dag_def)
  moreover have "index_ok list_pg sample_dag" unfolding index_ok_def using sample_index by blast
  ultimately show ?thesis by (simp add: dag_wf_def) (simp add: sample_dag_def)
qed

text \<open>
  C12: \<open>add_edge_meta\<close> returns without a panic on every well-formed DAG and leaves it well-formed
  (in particular acyclic). It refuses exactly the self edges and the edges whose child already is
  an ancestor of the parent, and then the lineage is unchanged; every other edge is added, and
  nothing else (a second insertion of an edge changes nothing).
\<close>

theorem add_edge_meta_correct:
  assumes "digraph P" and "dag_wf P d"
  shows "\<exists>d' r. add_edge_meta P d p c m = Some (d', r) \<and> dag_wf P d' \<and>
           dag_nodes P d' = (if p = c then dag_nodes P d else dag_nodes P d \<union> {p, c}) \<and>
           (if (c, p) \<in> (dag_rel P d)\<^sup>*
            then r = Inl (DagCycle p c) \<and> dag_rel P d' = dag_rel P d
            else r = Inr () \<and> dag_rel P d' = insert (p, c) (dag_rel P d))"
proof (cases "p = c")
  case True
  then show ?thesis using assms(2) by (simp add: add_edge_meta_def)
next
  case False
  then show ?thesis
    using digraph.add_edge_meta_spec [OF assms False, of m]
    by (simp add: rtrancl_eq_or_trancl insert_commute)
qed

theorem add_edge_meta_correct_witness:
  "\<exists>d' r. add_edge_meta list_pg sample_dag 1 3 fork_meta = Some (d', r) \<and> dag_wf list_pg d'"
  using add_edge_meta_correct [OF lists.digraph_axioms sample_wf, of 1 3 fork_meta] by blast

text \<open>
  C27: \<open>ancestors_of\<close> terminates and lists every proper ancestor of a known branch exactly once;
  an unknown branch is a \<open>DagNodeNotFound\<close>. \<open>is_ancestor\<close> decides the reflexive ancestor
  relation.
\<close>

theorem ancestors_of_correct:
  assumes "digraph P" and "dag_wf P d"
  shows "if u \<in> dag_nodes P d
         then (\<exists>xs. ancestors_of P d u = Some (Inr xs) \<and> distinct xs \<and>
                 set xs = {a. (a, u) \<in> (dag_rel P d)\<^sup>+}) \<and>
              is_ancestor P d a u = Some (Inr ((a, u) \<in> (dag_rel P d)\<^sup>*))
         else ancestors_of P d u = Some (Inl (DagNodeNotFound u))"
  using digraph.ancestors_of_spec [OF assms, of u] digraph.is_ancestor_spec [OF assms, of u a] by simp

theorem ancestors_of_correct_witness:
  "\<exists>xs. ancestors_of list_pg sample_dag 3 = Some (Inr xs) \<and> distinct xs \<and>
      set xs = {a. (a, 3) \<in> (dag_rel list_pg sample_dag)\<^sup>+}"
  using ancestors_of_correct [OF lists.digraph_axioms sample_wf, of 3 1] by (simp add: sample_nodes)

text \<open>
  \<open>find_merge_base\<close> of two known branches returns a branch that is an ancestor of (or equal
  to) both, and returns \<open>None\<close> only when they have no such branch in common.
\<close>

theorem find_merge_base_correct:
  assumes "digraph P" and "dag_wf P d" and "a \<in> dag_nodes P d" and "b \<in> dag_nodes P d"
  shows "\<exists>r. find_merge_base P d a b = Some (Inr r) \<and>
           (case r of
              Some x \<Rightarrow> (x, a) \<in> (dag_rel P d)\<^sup>* \<and> (x, b) \<in> (dag_rel P d)\<^sup>*
            | None \<Rightarrow> \<not> (\<exists>x. (x, a) \<in> (dag_rel P d)\<^sup>* \<and> (x, b) \<in> (dag_rel P d)\<^sup>*))"
  by (rule digraph.find_merge_base_spec [OF assms])

theorem find_merge_base_correct_witness:
  "\<exists>r. find_merge_base list_pg sample_dag 3 4 = Some (Inr r) \<and>
     (case r of
        Some x \<Rightarrow> (x, 3) \<in> (dag_rel list_pg sample_dag)\<^sup>* \<and> (x, 4) \<in> (dag_rel list_pg sample_dag)\<^sup>*
      | None \<Rightarrow> \<not> (\<exists>x. (x, 3) \<in> (dag_rel list_pg sample_dag)\<^sup>* \<and> (x, 4) \<in> (dag_rel list_pg sample_dag)\<^sup>*))"
  by (rule find_merge_base_correct [OF lists.digraph_axioms sample_wf]) (simp_all add: sample_nodes)

text \<open>
  \<open>depth_of\<close> terminates and returns, for every known branch, the least number of edges from
  a root to it; an unknown branch is a \<open>DagNodeNotFound\<close>.
\<close>

theorem depth_of_correct:
  assumes "digraph P" and "dag_wf P d"
  shows "if u \<in> dag_nodes P d
         then \<exists>k. depth_of P d u = Some (Inr k) \<and> lineage_depth P d u k
         else depth_of P d u = Some (Inl (DagNodeNotFound u))"
  by (rule digraph.depth_of_spec [OF assms])

theorem depth_of_correct_witness:
  "\<exists>k. depth_of list_pg sample_dag 3 = Some (Inr k) \<and> lineage_depth list_pg sample_dag 3 k"
  using depth_of_correct [OF lists.digraph_axioms sample_wf, of 3] by (simp add: sample_nodes)

text \<open>
  \<open>remove_node\<close> of a childless branch takes exactly that branch and its edges out of the
  graph, but the DAG is still well-formed afterwards only if the branch had the last node index:
  otherwise \<open>petgraph\<close> moves the last node into the freed index and \<open>node_index\<close> is stale.
\<close>

theorem remove_node_correct:
  assumes "digraph P" and "dag_wf P d" and "dg_index d u = Some i" and "\<forall>c. (u, c) \<notin> dag_rel P d"
  shows "\<exists>d'. remove_node C P d u = (d', Inr ()) \<and> dag_nodes P d' = dag_nodes P d - {u} \<and>
           dag_rel P d' = {(x, y) \<in> dag_rel P d. x \<noteq> u \<and> y \<noteq> u} \<and>
           (dag_wf P d' \<longleftrightarrow> i = node_count P d - 1)"
  using digraph.remove_node_eq [OF assms] digraph.removed_rel [OF assms(1-3)]
    digraph.removed_wf [OF assms(1-3)]
  by (simp add: node_count_def)

theorem remove_node_correct_witness:
  "\<exists>d'. remove_node decimal_codec list_pg sample_dag 4 = (d', Inr ()) \<and>
     dag_nodes list_pg d' = {1, 2, 3} \<and> dag_wf list_pg d'"
proof -
  have "dg_index sample_dag 4 = Some 3" "\<forall>c. (4, c) \<notin> dag_rel list_pg sample_dag"
    "3 = node_count list_pg sample_dag - 1"
    by (simp_all add: sample_rel) (simp_all add: sample_dag_def node_count_def)
  moreover have "dag_nodes list_pg sample_dag - {4} = {1, 2, 3}" unfolding sample_nodes by auto
  ultimately show ?thesis
    using remove_node_correct [OF lists.digraph_axioms sample_wf, of 4 3 decimal_codec] by auto
qed

text \<open>
  consequence of the stale index: after removing a childless branch that is not the one added
  last, the branch that was added last is still in the graph but the lineage queries report that
  it has neither a parent nor children.
\<close>

theorem remove_node_orphans_last:
  assumes "digraph P" and "dag_wf P d" and "dg_index d u = Some i" and "\<forall>c. (u, c) \<notin> dag_rel P d"
    and "i \<noteq> node_count P d - 1"
  shows "\<exists>d'. remove_node C P d u = (d', Inr ()) \<and> last (weights P d) \<in> dag_nodes P d' \<and>
           parent_of P d' (last (weights P d)) = Inr None \<and>
           children_of P d' (last (weights P d)) = Inr []"
  using digraph.remove_node_eq [OF assms(1-4)] digraph.removed_stale [OF assms(1-3)] assms(5)
  by (simp add: node_count_def)

theorem remove_node_orphans_last_witness:
  "parent_of list_pg sample_dag 4 = Inr (Some 1) \<and>
   (\<exists>d'. remove_node decimal_codec list_pg sample_dag 3 = (d', Inr ()) \<and>
      parent_of list_pg d' 4 = Inr None)"
proof -
  have "dg_index sample_dag 3 = Some 2" "\<forall>c. (3, c) \<notin> dag_rel list_pg sample_dag"
    "2 \<noteq> node_count list_pg sample_dag - 1" "last (weights list_pg sample_dag) = 4"
    by (simp_all add: sample_rel) (simp_all add: sample_dag_def node_count_def)
  from remove_node_orphans_last [OF lists.digraph_axioms sample_wf this(1-3), of decimal_codec] this(4)
  show ?thesis
    by (auto simp: parent_of_def sample_dag_def list_pg_def res_bind_def)
qed

end
