(* ===== verification/Traversal.thy ===== *)
theory Traversal
  imports Dag
begin

text \<open>
  \<open>src/dag/traversal.rs\<close>: topological order, path enumeration, lowest common ancestor, subtree,
  leaves and divergence depth over the DAG of theory Dag.

  The maps and sets of this file are keyed by branch id while the work lists hold node indices;
  the loops below keep that. The iteration order of a \<open>HashSet\<close> is the argument \<open>it\<close>.
\<close>

section \<open>Operations\<close>

definition topological_sort :: "'g petgraph \<Rightarrow> 'g dag \<Rightarrow> uuid list branch_result" where
  "topological_sort P d =
     (case pg_toposort P (dg_graph d) of
        Inr order \<Rightarrow> Inr (map (nth (weights P d)) order)
      | Inl c \<Rightarrow> Inl (DagCycle (weights P d ! c) (weights P d ! c)))"

text \<open>
  The recursion of \<open>dfs_paths\<close>. Each call leaves \<open>visited\<close> and \<open>path\<close> as it found them, so every
  neighbour of a node is tried against the same \<open>visited\<close>. The first argument bounds the depth of
  the calls (\<open>None\<close> when it runs out); one more than the number of nodes is always enough.
\<close>

fun dfs_paths ::
    "nat \<Rightarrow> ('n \<Rightarrow> 'n list) \<Rightarrow> 'n \<Rightarrow> 'n \<Rightarrow> 'n set \<Rightarrow> 'n list \<Rightarrow> 'n list list option" where
  "dfs_paths 0 nb current target visited path = None"
| "dfs_paths (Suc k) nb current target visited path =
     (if current = target then Some [path]
      else map_option concat (those
        (map (\<lambda>neighbor. dfs_paths k nb neighbor target (insert neighbor visited) (path @ [neighbor]))
          (filter (\<lambda>neighbor. neighbor \<notin> visited) (nb current)))))"

definition all_paths ::
    "'g petgraph \<Rightarrow> 'g dag \<Rightarrow> uuid \<Rightarrow> uuid \<Rightarrow> uuid list list branch_result option" where
  "all_paths P d from' to' =
     (case dg_index d from' of
        None \<Rightarrow> Some (Inl (DagNodeNotFound from'))
      | Some from_n \<Rightarrow>
          (case dg_index d to' of
             None \<Rightarrow> Some (Inl (DagNodeNotFound to'))
           | Some to_n \<Rightarrow>
               map_option (\<lambda>results. Inr (map (map (nth (weights P d))) results))
                 (dfs_paths (node_count P d + 1) (pg_succs P (dg_graph d)) from_n to_n
                    {from_n} [from_n])))"

fun expand_key :: "('n \<Rightarrow> 'k) \<Rightarrow> 'k set \<Rightarrow> 'n list \<Rightarrow> 'n list" where
  "expand_key key seen [] = []"
| "expand_key key seen (x # xs) =
     (if key x \<in> seen then expand_key key seen xs
      else x # expand_key key (insert (key x) seen) xs)"

partial_function (option) ancestor_loop ::
    "('n \<Rightarrow> 'k) \<Rightarrow> ('n \<Rightarrow> 'n list) \<Rightarrow> 'n list \<Rightarrow> 'k set \<Rightarrow> 'k set option" where
  "ancestor_loop key nb stack visited =
     (case stack of
        [] \<Rightarrow> Some visited
      | node # rest \<Rightarrow>
          let fresh = expand_key key visited (nb node)
          in ancestor_loop key nb (rev fresh @ rest) (visited \<union> key ` set fresh))"

definition dfs_ancestor_set :: "'g petgraph \<Rightarrow> 'g dag \<Rightarrow> uuid \<Rightarrow> uuid set branch_result option" where
  "dfs_ancestor_set P d id' =
     (case dg_index d id' of
        None \<Rightarrow> Some (Inl (DagNodeNotFound id'))
      | Some start \<Rightarrow>
          map_option Inr (ancestor_loop (nth (weights P d)) (pg_preds P (dg_graph d)) [start] {}))"

fun expand_depth_key ::
    "('n \<Rightarrow> 'k) \<Rightarrow> nat \<Rightarrow> ('k \<rightharpoonup> nat) \<Rightarrow> 'n list \<Rightarrow> ('k \<rightharpoonup> nat) \<times> 'n list" where
  "expand_depth_key key d dm [] = (dm, [])"
| "expand_depth_key key d dm (c # cs) =
     (if dm (key c) = None
      then let (dm', fresh) = expand_depth_key key d (dm(key c \<mapsto> d)) cs in (dm', c # fresh)
      else expand_depth_key key d dm cs)"

partial_function (option) depth_loop ::
    "('n \<Rightarrow> 'k) \<Rightarrow> ('n \<Rightarrow> 'n list) \<Rightarrow> 'n list \<Rightarrow> ('k \<rightharpoonup> nat) \<Rightarrow> ('k \<rightharpoonup> nat) option" where
  "depth_loop key nb queue map' =
     (case queue of
        [] \<Rightarrow> Some map'
      | node # rest \<Rightarrow>
          (case map' (key node) of
             None \<Rightarrow> None
           | Some d \<Rightarrow>
               let (map', fresh) = expand_depth_key key (d + 1) map' (nb node)
               in depth_loop key nb (rest @ fresh) map'))"

definition bfs_depth_map :: "'g petgraph \<Rightarrow> 'g dag \<Rightarrow> (uuid \<rightharpoonup> nat) option" where
  "bfs_depth_map P d =
     (let roots = root_indices P (dg_graph d)
      in depth_loop (nth (weights P d)) (pg_succs P (dg_graph d)) roots
           (map_of (map (\<lambda>n. (weights P d ! n, 0)) roots)))"

text \<open>\<open>Iterator::max_by\<close>: the last of the greatest elements, \<open>gt\<close> the comparison being \<open>Greater\<close>.\<close>

fun max_by :: "('a \<Rightarrow> 'a \<Rightarrow> bool) \<Rightarrow> 'a list \<Rightarrow> 'a option" where
  "max_by gt [] = None"
| "max_by gt (x # xs) = Some (foldl (\<lambda>x y. if gt x y then x else y) x xs)"

definition depth_or_0 :: "(uuid \<rightharpoonup> nat) \<Rightarrow> uuid \<Rightarrow> nat" where
  "depth_or_0 depth_map x = (case depth_map x of Some k \<Rightarrow> k | None \<Rightarrow> 0)"

definition deeper :: "(uuid \<rightharpoonup> nat) \<Rightarrow> uuid \<Rightarrow> uuid \<Rightarrow> bool" where
  "deeper depth_map x y =
     (let dx = depth_or_0 depth_map x; dy = depth_or_0 depth_map y
      in if dx = dy then y > x else dx > dy)"

definition lowest_common_ancestor ::
    "(uuid set \<Rightarrow> uuid list) \<Rightarrow> 'g petgraph \<Rightarrow> 'g dag \<Rightarrow> uuid \<Rightarrow> uuid \<Rightarrow> uuid option branch_result option" where
  "lowest_common_ancestor it P d a b =
     (if a = b then Some (Inr (Some a))
      else case bfs_depth_map P d of
        None \<Rightarrow> None
      | Some depth_map \<Rightarrow>
          bind_walk (dfs_ancestor_set P d a) (\<lambda>a_ancestors.
          bind_walk (dfs_ancestor_set P d b) (\<lambda>b_ancestors.
            let common = it (insert a a_ancestors \<inter> insert b b_ancestors)
            in Some (Inr (if common = [] then None else max_by (deeper depth_map) common)))))"

definition subtree_of :: "'g petgraph \<Rightarrow> 'g dag \<Rightarrow> uuid \<Rightarrow> uuid list branch_result option" where
  "subtree_of P d root' =
     (case dg_index d root' of
        None \<Rightarrow> Some (Inl (DagNodeNotFound root'))
      | Some root_n \<Rightarrow>
          map_option (\<lambda>result. Inr (map (nth (weights P d)) result))
            (search True (pg_succs P (dg_graph d)) [root_n] {root_n} []))"

definition leaves :: "'g petgraph \<Rightarrow> 'g dag \<Rightarrow> uuid list branch_result" where
  "leaves P d =
     Inr (map (nth (weights P d))
       (filter (\<lambda>n. length (pg_succs P (dg_graph d) n) = 0) [0..<length (weights P d)]))"

definition divergence_depth ::
    "(uuid set \<Rightarrow> uuid list) \<Rightarrow> 'g petgraph \<Rightarrow> 'g dag \<Rightarrow> uuid \<Rightarrow> uuid \<Rightarrow> nat branch_result option" where
  "divergence_depth it P d branch_a branch_b =
     bind_walk (lowest_common_ancestor it P d branch_a branch_b) (\<lambda>r.
       case r of
         None \<Rightarrow> Some (Inl (DagNodeNotFound branch_a))
       | Some lca \<Rightarrow>
           bind_walk (depth_of P d branch_a) (\<lambda>depth_a.
           bind_walk (depth_of P d lca) (\<lambda>depth_lca. Some (Inr (depth_a - depth_lca)))))"

definition merge_order :: "'g petgraph \<Rightarrow> 'g dag \<Rightarrow> uuid list \<Rightarrow> uuid list branch_result" where
  "merge_order P d branches =
     res_bind (topological_sort P d) (\<lambda>full_order.
       Inr (filter (\<lambda>id'. id' \<in> set branches) full_order))"

section \<open>Topological order\<close>

context digraph
begin

lemma topological_sort_spec:
  assumes wf: "dag_wf P d"
  shows "\<exists>order. topological_sort P d = Inr order \<and> distinct order \<and> set order = dag_nodes P d \<and>
           (\<forall>(p, c) \<in> dag_rel P d. precedes order p c)"
proof -
  let ?w = "nth (weights P d)" and ?V = "{..<length (weights P d)}"
  have "in_range P (dg_graph d)" using wf by (simp add: dag_wf_def)
  from toposort_acyclic [OF this graph_acyclic [OF wf]] obtain xs where
    xs: "pg_toposort P (dg_graph d) = Inr xs" "distinct xs" "set xs = ?V"
      "\<forall>(a, b) \<in> erel P (dg_graph d). precedes xs a b" by auto
  have "distinct (map ?w xs)" using xs(2,3) wf_inj [OF wf] by (simp add: distinct_map)
  moreover have "set (map ?w xs) = dag_nodes P d"
    using xs(3) nth_image [of "length (weights P d)" "weights P d"]
    by (simp add: dag_nodes_def lessThan_atLeast0)
  moreover have "\<forall>(p, c) \<in> dag_rel P d. precedes (map ?w xs) p c"
  proof -
    have "precedes (map ?w xs) (?w a) (?w b)" if "(a, b) \<in> erel P (dg_graph d)" for a b
      using precedes_map [of xs a b ?w] that xs(4) by auto
    then show ?thesis by (auto simp: dag_rel_def)
  qed
  ultimately show ?thesis using xs(1) by (simp add: topological_sort_def)
qed

lemma merge_order_spec:
  assumes wf: "dag_wf P d"
  shows "\<exists>order. merge_order P d bs = Inr order \<and> distinct order \<and>
           set order = set bs \<inter> dag_nodes P d \<and>
           (\<forall>p c. p \<in> set bs \<longrightarrow> c \<in> set bs \<longrightarrow> (p, c) \<in> dag_rel P d \<longrightarrow> precedes order p c)"
proof -
  from topological_sort_spec [OF wf] obtain xs where
    xs: "topological_sort P d = Inr xs" "distinct xs" "set xs = dag_nodes P d"
      "\<forall>(p, c) \<in> dag_rel P d. precedes xs p c" by auto
  then show ?thesis
    by (auto simp: merge_order_def res_bind_def intro: precedes_filter)
qed

lemma subtree_of_spec:
  assumes wf: "dag_wf P d" and u: "u \<in> dag_nodes P d"
  shows "\<exists>xs. subtree_of P d u = Some (Inr xs) \<and> distinct xs \<and> set xs = {c. (u, c) \<in> (dag_rel P d)\<^sup>+}"
proof -
  let ?V = "{..<length (weights P d)}" and ?w = "nth (weights P d)" and ?E = "erel P (dg_graph d)"
  obtain i where ix: "dg_index d u = Some i" using wf_index_None [OF wf, of u] u by auto
  then have i: "i \<in> ?V" "?w i = u" using wf_index [OF wf] by auto
  have cl: "closed_under ?V (pg_succs P (dg_graph d))"
    using wf_range [OF wf] by (auto simp: closed_under_def set_succs)
  from search_correct [OF _ cl i(1), of "{i}" True] obtain out where
    out: "search True (pg_succs P (dg_graph d)) [i] {i} [] = Some out" "distinct out"
      "set out = {y. (i, y) \<in> ?E\<^sup>+} - {i}"
    by (auto simp: edges_of_succs)
  have "(i, i) \<notin> ?E\<^sup>+" using graph_acyclic [OF wf] by (simp add: acyclic_def)
  then have set: "set out = {y. (i, y) \<in> ?E\<^sup>+}" using out(3) by auto
  have V: "set out \<subseteq> ?V" using set trancl_subset_Sigma [OF wf_range [OF wf]] by auto
  have "?w ` {y. (i, y) \<in> ?E\<^sup>+} = {c. (u, c) \<in> (dag_rel P d)\<^sup>+}"
  proof (intro set_eqI iffI)
    fix c assume c: "c \<in> {c. (u, c) \<in> (dag_rel P d)\<^sup>+}"
    then have "c \<in> set (weights P d)" using rel_trancl_nodes [OF wf] by (auto simp: dag_nodes_def)
    then obtain j where "j < length (weights P d)" "c = ?w j" by (metis in_set_conv_nth)
    then show "c \<in> ?w ` {y. (i, y) \<in> ?E\<^sup>+}" using c rel_trancl_nth [OF wf, of i j] i by auto
  qed (use i in \<open>auto simp: rel_trancl [OF wf]\<close>)
  moreover have "distinct (map ?w out)"
    using out(2) inj_on_subset [OF wf_inj [OF wf] V] by (simp add: distinct_map)
  ultimately show ?thesis using ix out(1) set by (simp add: subtree_of_def)
qed

end

section \<open>Loops keyed by branch id\<close>

text \<open>
  On a graph whose keys are distinct the keyed loops do what the loops of theory Search do on the
  indices.
\<close>

lemma expand_key_eq:
  "inj_on key V \<Longrightarrow> seen \<subseteq> V \<Longrightarrow> set xs \<subseteq> V \<Longrightarrow> expand_key key (key ` seen) xs = expand seen xs"
proof (induction xs arbitrary: seen)
  case (Cons x xs)
  have "key x \<in> key ` seen \<longleftrightarrow> x \<in> seen"
    using Cons.prems by (auto simp: inj_on_def)
  moreover have "insert (key x) (key ` seen) = key ` insert x seen" by simp
  ultimately show ?case
    using Cons.IH [of seen] Cons.IH [of "insert x seen"] Cons.prems by simp
qed simp

lemma ancestor_loop_eq:
  assumes run: "search fifo nb work seen out = Some r"
    and pre: "\<not> fifo" "closed_under V nb" "inj_on key V" "seen = set out" "set work \<subseteq> V" "seen \<subseteq> V"
  shows "ancestor_loop key nb work (key ` seen) = Some (key ` set r)"
proof -
  define Q where "Q fifo nb work seen out r \<longleftrightarrow>
    (\<not> fifo \<longrightarrow> closed_under V nb \<longrightarrow> seen = set out \<longrightarrow> set work \<subseteq> V \<longrightarrow> seen \<subseteq> V \<longrightarrow>
     ancestor_loop key nb work (key ` seen) = Some (key ` set r))" for fifo nb work seen out r
  have "Q fifo nb work seen out r"
    using run
  proof (rule search.raw_induct [rotated, where P = Q], goal_cases)
    case (1 S fifo nb work seen out r)
    show ?case unfolding Q_def
    proof (intro impI)
      assume A: "\<not> fifo" "closed_under V nb" "seen = set out" "set work \<subseteq> V" "seen \<subseteq> V"
      show "ancestor_loop key nb work (key ` seen) = Some (key ` set r)"
      proof (cases work)
        case Nil
        with 1(2) A show ?thesis by (simp add: ancestor_loop.simps)
      next
        case (Cons n rest)
        let ?f = "expand seen (nb n)"
        have nV: "set (nb n) \<subseteq> V" using A Cons by (auto simp: closed_under_def)
        have f: "set ?f = set (nb n) - seen" by (rule set_expand)
        have k: "expand_key key (key ` seen) (nb n) = ?f"
          by (rule expand_key_eq [OF pre(3) A(5) nV])
        have "S fifo nb (rev ?f @ rest) (seen \<union> set ?f) (out @ ?f) = Some r"
          using 1(2) A(1) Cons by (simp add: Let_def)
        from 1(1) [OF this] have
          "ancestor_loop key nb (rev ?f @ rest) (key ` (seen \<union> set ?f)) = Some (key ` set r)"
          unfolding Q_def using A Cons f nV by auto
        then show ?thesis
          by (subst ancestor_loop.simps) (simp add: Cons k Let_def image_Un)
      qed
    qed
  qed
  then show ?thesis using pre by (simp add: Q_def)
qed

lemma expand_depth_key_eq:
  assumes inj: "inj_on key V"
  shows "set cs \<subseteq> V \<Longrightarrow> \<forall>i \<in> V. dmk (key i) = dm i \<Longrightarrow>
    \<exists>dmk'. expand_depth_key key d dmk cs = (dmk', snd (expand_depth d dm cs)) \<and>
      (\<forall>i \<in> V. dmk' (key i) = fst (expand_depth d dm cs) i)"
proof (induction cs arbitrary: dmk dm)
  case Nil
  then show ?case by simp
next
  case (Cons c cs)
  have c: "c \<in> V" "dmk (key c) = dm c" using Cons.prems by auto
  show ?case
  proof (cases "dm c = None")
    case True
    have h: "\<forall>i \<in> V. (dmk(key c \<mapsto> d)) (key i) = (dm(c \<mapsto> d)) i"
      using Cons.prems(2) c(1) inj by (auto simp: inj_on_def)
    have "set cs \<subseteq> V" using Cons.prems(1) by simp
    from Cons.IH [OF this h] obtain dmk' where
      "expand_depth_key key d (dmk(key c \<mapsto> d)) cs = (dmk', snd (expand_depth d (dm(c \<mapsto> d)) cs))"
      "\<forall>i \<in> V. dmk' (key i) = fst (expand_depth d (dm(c \<mapsto> d)) cs) i" by blast
    with True c show ?thesis by (auto simp: case_prod_unfold Let_def)
  next
    case False
    then show ?thesis using Cons.IH [of dmk dm] Cons.prems c by auto
  qed
qed

lemma expand_depth_sub: "set (snd (expand_depth d dm cs)) \<subseteq> set cs"
  by (induction cs arbitrary: dm) (auto simp: case_prod_unfold Let_def)

lemma depth_loop_eq:
  assumes run: "bfs_depth nb queue dm = Some r"
    and pre: "closed_under V nb" "inj_on key V" "set queue \<subseteq> V" "\<forall>i \<in> V. dmk (key i) = dm i"
  shows "\<exists>rk. depth_loop key nb queue dmk = Some rk \<and> (\<forall>i \<in> V. rk (key i) = r i)"
proof -
  define Q where "Q nb queue dm r \<longleftrightarrow>
    (\<forall>dmk. closed_under V nb \<longrightarrow> set queue \<subseteq> V \<longrightarrow> (\<forall>i \<in> V. dmk (key i) = dm i) \<longrightarrow>
       (\<exists>rk. depth_loop key nb queue dmk = Some rk \<and> (\<forall>i \<in> V. rk (key i) = r i)))"
    for nb queue dm and r :: "'a \<rightharpoonup> nat"
  have "Q nb queue dm r"
    using run
  proof (rule bfs_depth.raw_induct [rotated, where P = Q], goal_cases)
    case (1 B nb queue dm r)
    show ?case unfolding Q_def
    proof (intro allI impI)
      fix dmk
      assume A: "closed_under V nb" "set queue \<subseteq> V" "\<forall>i \<in> V. dmk (key i) = dm i"
      show "\<exists>rk. depth_loop key nb queue dmk = Some rk \<and> (\<forall>i \<in> V. rk (key i) = r i)"
      proof (cases queue)
        case Nil
        with 1(2) A show ?thesis by (simp add: depth_loop.simps)
      next
        case (Cons n rest)
        then have n: "n \<in> V" "dmk (key n) = dm n" using A by auto
        with 1(2) Cons obtain d where d: "dm n = Some d" by (cases "dm n") auto
        have nV: "set (nb n) \<subseteq> V" using A(1) n(1) by (auto simp: closed_under_def)
        let ?e = "expand_depth (d + 1) dm (nb n)"
        from expand_depth_key_eq [OF pre(2) nV A(3), of "d + 1"] obtain dmk' where
          e: "expand_depth_key key (d + 1) dmk (nb n) = (dmk', snd ?e)" "\<forall>i \<in> V. dmk' (key i) = fst ?e i"
          by blast
        have "B nb (rest @ snd ?e) (fst ?e) = Some r"
          using 1(2) Cons d by (simp add: case_prod_unfold Let_def)
        from 1(1) [OF this] have Q': "Q nb (rest @ snd ?e) (fst ?e) r" .
        have "set (rest @ snd ?e) \<subseteq> V"
          using A(2) Cons nV expand_depth_sub [of "d + 1" dm "nb n"] by auto
        with Q' A(1) e(2) obtain rk where
          "depth_loop key nb (rest @ snd ?e) dmk' = Some rk" "\<forall>i \<in> V. rk (key i) = r i"
          unfolding Q_def by blast
        then show ?thesis
          by (subst depth_loop.simps) (use Cons n(2) d e(1) in simp)
      qed
    qed
  qed
  then show ?thesis using pre unfolding Q_def by blast
qed

context digraph
begin

lemma dfs_ancestor_set_spec:
  assumes wf: "dag_wf P d"
  shows "dfs_ancestor_set P d u =
    (if u \<in> dag_nodes P d then Some (Inr {a. (a, u) \<in> (dag_rel P d)\<^sup>+}) else Some (Inl (DagNodeNotFound u)))"
proof (cases "dg_index d u")
  case None
  then show ?thesis using wf_index_None [OF wf, of u] by (simp add: dfs_ancestor_set_def)
next
  case (Some i)
  let ?V = "{..<length (weights P d)}"
  have i: "i \<in> ?V" "weights P d ! i = u" using Some wf_index [OF wf] by auto
  then have u: "u \<in> dag_nodes P d" by (auto simp: dag_nodes_def)
  have cl: "closed_under ?V (pg_preds P (dg_graph d))"
    using wf_range [OF wf] by (auto simp: closed_under_def set_preds)
  from ancestors_of_spec [OF wf, of u] u obtain xs where
    xs: "ancestors_of P d u = Some (Inr xs)" "set xs = {a. (a, u) \<in> (dag_rel P d)\<^sup>+}" by auto
  then obtain out where out: "search False (pg_preds P (dg_graph d)) [i] {} [] = Some out"
    "xs = map (nth (weights P d)) out"
    using Some by (auto simp: ancestors_of_def)
  from ancestor_loop_eq [OF out(1) _ cl wf_inj [OF wf]] i xs(2) out(2)
  show ?thesis using u Some by (simp add: dfs_ancestor_set_def)
qed

lemma bfs_depth_map_spec:
  assumes wf: "dag_wf P d"
  shows "\<exists>dm. bfs_depth_map P d = Some dm \<and>
           (\<forall>u \<in> dag_nodes P d. \<forall>k. dm u = Some k \<longleftrightarrow> lineage_depth P d u k)"
proof -
  let ?V = "{..<length (weights P d)}" and ?R = "root_indices P (dg_graph d)"
  let ?w = "nth (weights P d)"
  from bfs_hops [OF wf] obtain dm where
    dm: "bfs_depth (pg_succs P (dg_graph d)) ?R (map_of (map (\<lambda>idx. (idx, 0)) ?R)) = Some dm"
      "\<And>i k. i < length (weights P d) \<Longrightarrow> dm i = Some k \<longleftrightarrow> lineage_depth P d (?w i) k" by blast
  have cl: "closed_under ?V (pg_succs P (dg_graph d))"
    using wf_range [OF wf] by (auto simp: closed_under_def set_succs)
  have R: "set ?R \<subseteq> ?V" by (auto simp: set_root_indices)
  have "map_of (map (\<lambda>n. (?w n, 0)) rs) (?w i) = map_of (map (\<lambda>idx. (idx, 0)) rs) i"
    if "i \<in> ?V" "set rs \<subseteq> ?V" for i and rs :: "nat list"
    using that by (induction rs) (use wf_inj [OF wf] in \<open>auto simp: inj_on_def\<close>)
  with R have "\<forall>i \<in> ?V. map_of (map (\<lambda>n. (?w n, 0)) ?R) (?w i) = map_of (map (\<lambda>idx. (idx, 0)) ?R) i"
    by blast
  from depth_loop_eq [OF dm(1) cl wf_inj [OF wf] R this] obtain rk where
    rk: "bfs_depth_map P d = Some rk" "\<forall>i \<in> ?V. rk (?w i) = dm i"
    by (auto simp: bfs_depth_map_def Let_def)
  have "rk u = Some k \<longleftrightarrow> lineage_depth P d u k" if "u \<in> dag_nodes P d" for u k
  proof -
    from that obtain i where "i < length (weights P d)" "u = ?w i"
      unfolding dag_nodes_def by (metis in_set_conv_nth)
    then show ?thesis using rk(2) dm(2) by auto
  qed
  with rk(1) show ?thesis by blast
qed

end

section \<open>Lowest common ancestors\<close>

lemma foldl_max:
  assumes tr: "\<And>x y z. gt x y \<Longrightarrow> gt y z \<Longrightarrow> gt x z" and tot: "\<And>x y. x \<noteq> y \<Longrightarrow> gt x y \<or> gt y x"
  shows "foldl (\<lambda>x y. if gt x y then x else y) x xs \<in> insert x (set xs) \<and>
    (\<forall>y \<in> insert x (set xs). y = foldl (\<lambda>x y. if gt x y then x else y) x xs \<or>
       gt (foldl (\<lambda>x y. if gt x y then x else y) x xs) y)"
proof (induction xs arbitrary: x)
  case (Cons z zs)
  let ?x = "if gt x z then x else z"
  let ?m = "foldl (\<lambda>x y. if gt x y then x else y) ?x zs"
  from Cons.IH [of ?x] have m: "?m \<in> insert ?x (set zs)"
    and all: "\<And>y. y \<in> insert ?x (set zs) \<Longrightarrow> y = ?m \<or> gt ?m y" by blast+
  have h1: "y = ?x \<or> gt ?x y" if "y \<in> {x, z}" for y using that tot [of x z] by auto
  have h2: "?x = ?m \<or> gt ?m ?x" using all by blast
  have xz: "y = ?m \<or> gt ?m y" if y: "y \<in> {x, z}" for y
    using h1 [OF y]
  proof
    assume "y = ?x"
    then show ?thesis using h2 by blast
  next
    assume g: "gt ?x y"
    show ?thesis
    proof (rule disjE [OF h2])
      assume e: "?x = ?m"
      have "gt ?m y" by (rule subst [OF e, of "\<lambda>v. gt v y"]) (rule g)
      then show ?thesis ..
    next
      assume "gt ?m ?x"
      from tr [OF this g] show ?thesis ..
    qed
  qed
  have "?m \<in> insert x (set (z # zs))" using m by (auto split: if_splits)
  moreover have "\<forall>y \<in> insert x (set (z # zs)). y = ?m \<or> gt ?m y" using xz all by auto
  ultimately show ?case by simp
qed simp

lemma max_by_deeper:
  assumes "max_by (deeper dm) xs = Some x"
  shows "x \<in> set xs \<and> (\<forall>y \<in> set xs. y = x \<or> deeper dm x y)"
proof (cases xs)
  case (Cons z zs)
  have "deeper dm x y \<Longrightarrow> deeper dm y z \<Longrightarrow> deeper dm x z" for x y z
    by (auto simp: deeper_def Let_def split: if_splits)
  moreover have "x \<noteq> y \<Longrightarrow> deeper dm x y \<or> deeper dm y x" for x y
    by (auto simp: deeper_def Let_def)
  ultimately show ?thesis using assms Cons foldl_max [of "deeper dm" z zs] by auto
qed (use assms in simp)

definition common_ancestors :: "'g petgraph \<Rightarrow> 'g dag \<Rightarrow> uuid \<Rightarrow> uuid \<Rightarrow> uuid set" where
  "common_ancestors P d a b = {x. (x, a) \<in> (dag_rel P d)\<^sup>* \<and> (x, b) \<in> (dag_rel P d)\<^sup>*}"

context digraph
begin

lemma rtrancl_nodes:
  "dag_wf P d \<Longrightarrow> u \<in> dag_nodes P d \<Longrightarrow> (x, u) \<in> (dag_rel P d)\<^sup>* \<Longrightarrow> x \<in> dag_nodes P d"
  using rel_trancl_nodes [of P d] by (auto simp: rtrancl_eq_or_trancl)

lemma lca_spec:
  assumes wf: "dag_wf P d" and it: "hash_order it" and ab: "a \<noteq> b"
    and a: "a \<in> dag_nodes P d" and b: "b \<in> dag_nodes P d"
  shows "\<exists>r. lowest_common_ancestor it P d a b = Some (Inr r) \<and>
    (case r of
       None \<Rightarrow> common_ancestors P d a b = {}
     | Some x \<Rightarrow> x \<in> common_ancestors P d a b \<and>
         (\<forall>y \<in> common_ancestors P d a b. \<forall>kx ky.
            lineage_depth P d x kx \<longrightarrow> lineage_depth P d y ky \<longrightarrow> ky < kx \<or> ky = kx \<and> x \<le> y))"
proof -
  let ?C = "common_ancestors P d a b"
  from bfs_depth_map_spec [OF wf] obtain dm where dm: "bfs_depth_map P d = Some dm"
    "\<And>u k. u \<in> dag_nodes P d \<Longrightarrow> dm u = Some k \<longleftrightarrow> lineage_depth P d u k" by blast
  have rt: "(x, y) \<in> (dag_rel P d)\<^sup>* \<longleftrightarrow> x = y \<or> (x, y) \<in> (dag_rel P d)\<^sup>+" for x y
    by (rule rtrancl_eq_or_trancl [THEN trans]) auto
  have C: "insert a {x. (x, a) \<in> (dag_rel P d)\<^sup>+} \<inter> insert b {x. (x, b) \<in> (dag_rel P d)\<^sup>+} = ?C"
    unfolding common_ancestors_def rt by blast
  have sub: "?C \<subseteq> dag_nodes P d" using rtrancl_nodes [OF wf a] unfolding common_ancestors_def by blast
  then have fin: "finite ?C" by (rule finite_subset) (simp add: dag_nodes_def)
  have set: "set (it ?C) = ?C" using hash_order.set_it [OF it fin] .
  have eq: "lowest_common_ancestor it P d a b =
      Some (Inr (if it ?C = [] then None else max_by (deeper dm) (it ?C)))"
    using ab a b dm(1) C by (simp add: lowest_common_ancestor_def dfs_ancestor_set_spec [OF wf] Let_def)
  show ?thesis
  proof (cases "it ?C = []")
    case True
    then show ?thesis using eq set by auto
  next
    case False
    then obtain x where x: "max_by (deeper dm) (it ?C) = Some x" by (cases "it ?C") auto
    note mx = max_by_deeper [OF x, unfolded set]
    have depth: "depth_or_0 dm y = k" if "y \<in> ?C" "lineage_depth P d y k" for y k
    proof -
      have "dm y = Some k" using that dm(2) sub by blast
      then show ?thesis by (simp add: depth_or_0_def)
    qed
    have "ky < kx \<or> ky = kx \<and> x \<le> y"
      if y: "y \<in> ?C" and k: "lineage_depth P d x kx" "lineage_depth P d y ky" for y kx ky
    proof -
      have "depth_or_0 dm x = kx" "depth_or_0 dm y = ky" using depth mx y k by blast+
      moreover have "y = x \<or> deeper dm x y" using mx y by blast
      ultimately show ?thesis by (auto simp: deeper_def Let_def split: if_splits)
    qed
    then show ?thesis using eq False x mx by auto
  qed
qed

end

section \<open>Path enumeration\<close>

definition simple_walk ::
    "('n \<Rightarrow> 'n list) \<Rightarrow> 'n set \<Rightarrow> 'n \<Rightarrow> 'n \<Rightarrow> 'n list \<Rightarrow> bool" where
  "simple_walk nb visited current target q \<longleftrightarrow>
     successively (\<lambda>x y. y \<in> set (nb x)) (current # q) \<and> distinct q \<and> set q \<inter> visited = {} \<and>
     last (current # q) = target \<and> target \<notin> set (butlast (current # q))"

lemma simple_walk_target: "simple_walk nb visited target target q \<longleftrightarrow> q = []"
  by (cases q) (auto simp: simple_walk_def)

lemma simple_walk_step:
  "current \<noteq> target \<Longrightarrow> simple_walk nb visited current target q \<longleftrightarrow>
     (\<exists>n q'. q = n # q' \<and> n \<in> set (nb current) \<and> n \<notin> visited \<and>
        simple_walk nb (insert n visited) n target q')"
  by (cases q) (auto simp: simple_walk_def)

lemma those_map:
  "(\<And>x. x \<in> set xs \<Longrightarrow> f x = Some (g x)) \<Longrightarrow> those (map f xs) = Some (map g xs)"
  by (induction xs) auto

lemma distinct_concat_map:
  "distinct xs \<Longrightarrow> (\<And>x. x \<in> set xs \<Longrightarrow> distinct (g x)) \<Longrightarrow>
   (\<And>x y. x \<in> set xs \<Longrightarrow> y \<in> set xs \<Longrightarrow> x \<noteq> y \<Longrightarrow> set (g x) \<inter> set (g y) = {}) \<Longrightarrow>
   distinct (concat (map g xs))"
proof (induction xs)
  case (Cons x xs)
  have "distinct (concat (map g xs))" using Cons by auto
  moreover have "set (g x) \<inter> set (g y) = {}" if "y \<in> set xs" for y
    using Cons.prems(1) Cons.prems(3) [of x y] that by auto
  ultimately show ?case using Cons.prems(2) [of x] by auto
qed simp

lemma dfs_paths_spec:
  assumes V: "finite V" "closed_under V nb" and nb: "\<And>x. distinct (nb x)"
  shows "current \<in> V \<Longrightarrow> card (V - visited) < k \<Longrightarrow> current \<in> visited \<Longrightarrow>
    \<exists>rs. dfs_paths k nb current target visited path = Some rs \<and> distinct rs \<and>
      set rs = {path @ q |q. simple_walk nb visited current target q}"
proof (induction k arbitrary: current visited path)
  case 0
  then show ?case by simp
next
  case (Suc k)
  show ?case
  proof (cases "current = target")
    case True
    then show ?thesis by (simp add: simple_walk_target)
  next
    case False
    let ?ns = "filter (\<lambda>n. n \<notin> visited) (nb current)"
    let ?f = "\<lambda>n. dfs_paths k nb n target (insert n visited) (path @ [n])"
    let ?S = "\<lambda>n. {(path @ [n]) @ q |q. simple_walk nb (insert n visited) n target q}"
    have ex: "\<exists>rs. ?f n = Some rs \<and> distinct rs \<and> set rs = ?S n" if n: "n \<in> set ?ns" for n
    proof (rule Suc.IH)
      show "n \<in> V" using n Suc.prems(1) V(2) by (auto simp: closed_under_def)
      then have "card (V - insert n visited) < card (V - visited)"
        using n V(1) by (intro psubset_card_mono) auto
      then show "card (V - insert n visited) < k" using Suc.prems(2) by simp
    qed simp
    define g where "g n = the (?f n)" for n
    have g: "?f n = Some (g n)" "distinct (g n)" "set (g n) = ?S n" if "n \<in> set ?ns" for n
      using ex [OF that] by (auto simp: g_def)
    have "dfs_paths (Suc k) nb current target visited path = Some (concat (map g ?ns))"
      using False those_map [of ?ns ?f g] g(1) by simp
    moreover have "distinct (concat (map g ?ns))"
      by (rule distinct_concat_map) (use nb g(2,3) in auto)
    moreover have "set (concat (map g ?ns)) = {path @ q |q. simple_walk nb visited current target q}"
    proof -
      have "set (concat (map g ?ns)) = (\<Union>n \<in> set ?ns. ?S n)" using g(3) by auto
      also have "\<dots> = {path @ q |q. simple_walk nb visited current target q}"
        unfolding simple_walk_step [OF False] by fastforce
      finally show ?thesis .
    qed
    ultimately show ?thesis by blast
  qed
qed

lemma walk_trancl:
  "successively (\<lambda>x y. (x, y) \<in> r) (x # xs) \<Longrightarrow> y \<in> set xs \<Longrightarrow> (x, y) \<in> r\<^sup>+"
proof (induction xs arbitrary: x)
  case (Cons z zs)
  then show ?case by (cases "y = z") (auto intro: trancl_into_trancl2)
qed simp

lemma walk_distinct: "acyclic r \<Longrightarrow> successively (\<lambda>x y. (x, y) \<in> r) xs \<Longrightarrow> distinct xs"
proof (induction xs)
  case (Cons x xs)
  have "x \<notin> set xs" using walk_trancl [OF Cons.prems(2)] Cons.prems(1) by (auto simp: acyclic_def)
  moreover have "successively (\<lambda>x y. (x, y) \<in> r) xs" using Cons.prems(2) by (cases xs) auto
  ultimately show ?case using Cons by simp
qed simp

lemma acyclic_simple_walk:
  assumes "acyclic r" and nb: "\<And>x. set (nb x) = {y. (x, y) \<in> r}"
  shows "simple_walk nb {x} x t q \<longleftrightarrow> successively (\<lambda>x y. (x, y) \<in> r) (x # q) \<and> last (x # q) = t"
proof -
  have "distinct (x # q) \<and> t \<notin> set (butlast (x # q))"
    if s: "successively (\<lambda>x y. (x, y) \<in> r) (x # q)" and l: "last (x # q) = t"
  proof -
    have d: "distinct (x # q)" using walk_distinct [OF assms(1) s] .
    have "x # q = butlast (x # q) @ [t]" using l by (metis append_butlast_last_id list.distinct(1))
    with d have "distinct (butlast (x # q) @ [t])" by metis
    with d show ?thesis unfolding distinct_append by auto
  qed
  then show ?thesis unfolding simple_walk_def nb by auto
qed

context digraph
begin

lemma distinct_succs:
  assumes "distinct (map ends (pg_edges P g))"
  shows "distinct (pg_succs P g i)"
proof -
  let ?es = "filter (\<lambda>(a, b, m). a = i) (pg_edges P g)"
  have "distinct (map ends ?es)" using assms by (rule distinct_map_filter)
  then have "distinct (map snd (map ends ?es))"
    unfolding distinct_map [of snd] by (auto simp: inj_on_def)
  moreover have "map snd (map ends ?es) = map (\<lambda>(a, b, m). b) ?es"
    by (simp add: ends_def case_prod_unfold)
  ultimately have "distinct (map (\<lambda>(a, b, m). b) ?es)" by (simp only:)
  moreover have "mset (pg_succs P g i) = mset (map (\<lambda>(a, b, m). b) ?es)"
    by (simp only: succs mset_map mset_filter)
  ultimately show ?thesis using mset_eq_imp_distinct_iff by blast
qed

lemma all_paths_spec:
  assumes wf: "dag_wf P d" and u: "u \<in> dag_nodes P d" and v: "v \<in> dag_nodes P d"
  shows "\<exists>ps. all_paths P d u v = Some (Inr ps) \<and> distinct ps \<and>
    set ps = {p. p \<noteq> [] \<and> hd p = u \<and> last p = v \<and> successively (\<lambda>x y. (x, y) \<in> dag_rel P d) p}"
proof -
  let ?V = "{..<length (weights P d)}" and ?w = "nth (weights P d)" and ?E = "erel P (dg_graph d)"
  let ?nb = "pg_succs P (dg_graph d)"
  obtain i j where ij: "dg_index d u = Some i" "dg_index d v = Some j"
    using wf_index_None [OF wf] u v by (metis option.exhaust)
  then have i: "i \<in> ?V" "?w i = u" and j: "j \<in> ?V" "?w j = v" using wf_index [OF wf] by auto
  have cl: "closed_under ?V ?nb" using wf_range [OF wf] by (auto simp: closed_under_def set_succs)
  have "card (?V - {i}) < node_count P d + 1" using i by (simp add: node_count_def)
  from dfs_paths_spec [OF _ cl distinct_succs i(1) this, of j "[i]"] wf obtain rs where
    rs: "dfs_paths (node_count P d + 1) ?nb i j {i} [i] = Some rs" "distinct rs"
      "set rs = {[i] @ q |q. simple_walk ?nb {i} i j q}"
    by (auto simp: dag_wf_def)
  define W where "W = {p. p \<noteq> [] \<and> hd p = i \<and> last p = j \<and> successively (\<lambda>x y. (x, y) \<in> ?E) p}"
  have "set rs = W"
  proof -
    have "p \<in> set rs \<longleftrightarrow> p \<in> W" for p
      unfolding rs(3) W_def
      by (cases p) (auto simp: acyclic_simple_walk [OF graph_acyclic [OF wf] set_succs])
    then show ?thesis by blast
  qed
  have range: "set p \<subseteq> ?V" if "p \<in> W" for p
  proof -
    from that obtain q where p: "p = i # q" "successively (\<lambda>x y. (x, y) \<in> ?E) (i # q)"
      unfolding W_def by (cases p) auto
    have "y \<in> ?V" if "y \<in> set q" for y
      using walk_trancl [OF p(2) that] trancl_subset_Sigma [OF wf_range [OF wf]] by auto
    then show ?thesis using p(1) i by auto
  qed
  have walk: "successively (\<lambda>x y. (x, y) \<in> dag_rel P d) (map ?w p) \<longleftrightarrow> successively (\<lambda>x y. (x, y) \<in> ?E) p"
    if "set p \<subseteq> ?V" for p
    unfolding successively_map
    by (rule successively_cong) (use that rel_nth [OF wf] in auto)
  have "map ?w ` W = {p. p \<noteq> [] \<and> hd p = u \<and> last p = v \<and> successively (\<lambda>x y. (x, y) \<in> dag_rel P d) p}"
    (is "_ = ?U")
  proof (intro set_eqI iffI)
    fix p assume "p \<in> map ?w ` W"
    then obtain q where q: "q \<in> W" "p = map ?w q" by blast
    then show "p \<in> ?U" using walk [OF range] i j by (auto simp: W_def hd_map last_map)
  next
    fix p assume p: "p \<in> ?U"
    then obtain q where q: "p = u # q" "successively (\<lambda>x y. (x, y) \<in> dag_rel P d) (u # q)"
      by (cases p) auto
    have "set p \<subseteq> dag_nodes P d"
      using q(1) u walk_trancl [OF q(2)] rel_trancl_nodes [OF wf] by auto
    then have "set p \<subseteq> ?w ` ?V"
      using nth_image [of "length (weights P d)" "weights P d"]
      by (simp add: dag_nodes_def lessThan_atLeast0)
    then have "p \<in> lists (?w ` ?V)" by (simp add: lists_eq_set)
    then obtain ks where ks: "p = map ?w ks" "set ks \<subseteq> ?V"
      unfolding lists_image by (auto simp: lists_eq_set)
    have inj: "inj_on ?w ?V" by (rule wf_inj [OF wf])
    have "ks \<noteq> []" using p ks by auto
    then have "hd ks \<in> ?V" "last ks \<in> ?V" using ks(2) hd_in_set last_in_set by blast+
    moreover have "?w (hd ks) = u" "?w (last ks) = v"
      using p ks(1) \<open>ks \<noteq> []\<close> by (auto simp: hd_map last_map)
    ultimately have "hd ks = i" "last ks = j" using inj i j by (auto simp: inj_on_def)
    then have "ks \<in> W" using p ks \<open>ks \<noteq> []\<close> walk [OF ks(2)] by (simp add: W_def)
    then show "p \<in> map ?w ` W" using ks(1) by blast
  qed
  moreover have "distinct (map (map ?w) rs)"
  proof -
    have "inj_on (map ?w) W"
      by (rule inj_onI) (meson inj_on_map_eq_map inj_on_subset le_supI range wf wf_inj)
    then show ?thesis using rs(2) \<open>set rs = W\<close> by (simp add: distinct_map)
  qed
  ultimately show ?thesis using rs(1) ij \<open>set rs = W\<close> by (auto simp: all_paths_def)
qed

lemma divergence_depth_spec:
  assumes wf: "dag_wf P d" and it: "hash_order it"
    and a: "a \<in> dag_nodes P d" and b: "b \<in> dag_nodes P d"
    and l: "lowest_common_ancestor it P d a b = Some (Inr (Some l))"
  shows "\<exists>ka kl. lineage_depth P d a ka \<and> lineage_depth P d l kl \<and>
           divergence_depth it P d a b = Some (Inr (ka - kl))"
proof -
  have "l \<in> dag_nodes P d"
  proof (cases "a = b")
    case True
    then show ?thesis using l a by (simp add: lowest_common_ancestor_def)
  next
    case False
    then show ?thesis
      using lca_spec [OF wf it False a b] l rtrancl_nodes [OF wf a] by (auto simp: common_ancestors_def)
  qed
  then obtain kl where kl: "depth_of P d l = Some (Inr kl)" "lineage_depth P d l kl"
    using depth_of_spec [OF wf, of l] by auto
  obtain ka where ka: "depth_of P d a = Some (Inr ka)" "lineage_depth P d a ka"
    using depth_of_spec [OF wf, of a] a by auto
  show ?thesis using l kl ka by (auto simp: divergence_depth_def)
qed

end

section \<open>Properties\<close>

text \<open>
  \<open>topological_sort\<close> succeeds on every well-formed DAG and lists every branch once, each
  parent before its children; \<open>merge_order\<close> lists exactly the known ones of the given branches
  once, in an order compatible with the lineage.
\<close>

theorem merge_order_correct:
  assumes "digraph P" and "dag_wf P d"
  shows "(\<exists>order. topological_sort P d = Inr order \<and> distinct order \<and> set order = dag_nodes P d \<and>
            (\<forall>(p, c) \<in> dag_rel P d. precedes order p c)) \<and>
         (\<exists>order. merge_order P d bs = Inr order \<and> distinct order \<and>
            set order = set bs \<inter> dag_nodes P d \<and>
            (\<forall>p c. p \<in> set bs \<longrightarrow> c \<in> set bs \<longrightarrow> (p, c) \<in> dag_rel P d \<longrightarrow> precedes order p c))"
  using digraph.topological_sort_spec [OF assms] digraph.merge_order_spec [OF assms] by blast

theorem merge_order_correct_witness:
  "\<exists>order. merge_order list_pg sample_dag [3, 2] = Inr order \<and> set order = {2, 3} \<and>
     precedes order 2 3"
  using merge_order_correct [OF lists.digraph_axioms sample_wf, of "[3, 2]"]
  by (auto simp: sample_nodes sample_rel)

text \<open>
  C28: the lowest common ancestor of two different known branches is a common ancestor (or one of
  the two), \<open>None\<close> only if there is none; no common ancestor is deeper, and among the equally deep
  ones it has the smallest id. The result does not depend on the iteration order of the hash set.
\<close>

theorem lowest_common_ancestor_correct:
  assumes "digraph P" and "dag_wf P d" and "hash_order it" and "a \<noteq> b"
    and "a \<in> dag_nodes P d" and "b \<in> dag_nodes P d"
  shows "\<exists>r. lowest_common_ancestor it P d a b = Some (Inr r) \<and>
    (case r of
       None \<Rightarrow> common_ancestors P d a b = {}
     | Some x \<Rightarrow> x \<in> common_ancestors P d a b \<and>
         (\<forall>y \<in> common_ancestors P d a b. \<forall>kx ky.
            lineage_depth P d x kx \<longrightarrow> lineage_depth P d y ky \<longrightarrow> ky < kx \<or> ky = kx \<and> x \<le> y))"
  by (rule digraph.lca_spec [OF assms])

theorem lowest_common_ancestor_correct_witness:
  "\<exists>r. lowest_common_ancestor sorted_list_of_set list_pg sample_dag 3 4 = Some (Inr (Some r)) \<and>
     (r, 3) \<in> (dag_rel list_pg sample_dag)\<^sup>* \<and> (r, 4) \<in> (dag_rel list_pg sample_dag)\<^sup>*"
proof -
  have "(1, 3) \<in> (dag_rel list_pg sample_dag)\<^sup>*" "(1, 4) \<in> (dag_rel list_pg sample_dag)\<^sup>*"
    by (auto simp: sample_rel intro: rtrancl_into_rtrancl)
  then have "1 \<in> common_ancestors list_pg sample_dag 3 4" by (simp add: common_ancestors_def)
  with lowest_common_ancestor_correct
    [OF lists.digraph_axioms sample_wf sorted_order.hash_order_axioms, of 3 4]
  show ?thesis by (auto simp: sample_nodes common_ancestors_def split: option.splits)
qed

text \<open>
  \<open>all_paths\<close> enumerates, each exactly once, all the lineage paths from one known branch to
  another; the recursion depth allowed is enough.
\<close>

theorem all_paths_correct:
  assumes "digraph P" and "dag_wf P d" and "u \<in> dag_nodes P d" and "v \<in> dag_nodes P d"
  shows "\<exists>ps. all_paths P d u v = Some (Inr ps) \<and> distinct ps \<and>
    set ps = {p. p \<noteq> [] \<and> hd p = u \<and> last p = v \<and> successively (\<lambda>x y. (x, y) \<in> dag_rel P d) p}"
  by (rule digraph.all_paths_spec [OF assms])

theorem all_paths_correct_witness:
  "\<exists>ps. all_paths list_pg sample_dag 1 3 = Some (Inr ps) \<and> [1, 2, 3] \<in> set ps"
proof -
  have "successively (\<lambda>x y. (x, y) \<in> dag_rel list_pg sample_dag) [1, 2, 3]"
    by (simp add: sample_rel)
  with all_paths_correct [OF lists.digraph_axioms sample_wf, of 1 3]
  show ?thesis by (auto simp: sample_nodes)
qed

text \<open>
  \<open>subtree_of\<close> terminates and lists every proper descendant of a known branch exactly once.
\<close>

theorem subtree_of_correct:
  assumes "digraph P" and "dag_wf P d" and "u \<in> dag_nodes P d"
  shows "\<exists>xs. subtree_of P d u = Some (Inr xs) \<and> distinct xs \<and> set xs = {c. (u, c) \<in> (dag_rel P d)\<^sup>+}"
  by (rule digraph.subtree_of_spec [OF assms])

theorem subtree_of_correct_witness:
  "\<exists>xs. subtree_of list_pg sample_dag 1 = Some (Inr xs) \<and> {2, 4} \<subseteq> set xs"
  using subtree_of_correct [OF lists.digraph_axioms sample_wf, of 1]
  by (auto simp: sample_nodes sample_rel)

text \<open>
  \<open>divergence_depth\<close> is the depth of the first branch less the depth of the lowest common
  ancestor (never negative).
\<close>

theorem divergence_depth_correct:
  assumes "digraph P" and "dag_wf P d" and "hash_order it"
    and "a \<in> dag_nodes P d" and "b \<in> dag_nodes P d"
    and "lowest_common_ancestor it P d a b = Some (Inr (Some l))"
  shows "\<exists>ka kl. lineage_depth P d a ka \<and> lineage_depth P d l kl \<and>
           divergence_depth it P d a b = Some (Inr (ka - kl))"
  by (rule digraph.divergence_depth_spec [OF assms])

theorem divergence_depth_correct_witness:
  "\<exists>ka kl. lineage_depth list_pg sample_dag 3 ka \<and> lineage_depth list_pg sample_dag 3 kl \<and>
     divergence_depth sorted_list_of_set list_pg sample_dag 3 3 = Some (Inr (ka - kl))"
  by (rule divergence_depth_correct
        [OF lists.digraph_axioms sample_wf sorted_order.hash_order_axioms])
    (simp_all add: sample_nodes lowest_common_ancestor_def)

end
