(* ===== verification/Entities.thy ===== *)
theory Entities
  imports Types
begin

text \<open>
  The databases of the branches: the three entity tables as \<open>src/diff/extractor.rs\<close>,
  \<open>src/merge/applier.rs\<close> and \<open>src/commit\<close> read and write them through SQL. The table definitions
  are not part of the repository, so a table carries its schema: the columns, what a cell holds
  after a text (or \<open>NULL\<close>) is bound to it, and the value of a column that an insert does not list.
  The file system maps a path to the database in that file.
\<close>

section \<open>Tables\<close>

text \<open>
  A row is its \<open>id\<close> and the JSON object that SQLite's \<open>json_object\<close> renders for all its columns,
  in row order. \<open>tb_cell\<close> and \<open>tb_default\<close> may fail with a constraint violation.
\<close>

record table =
  tb_columns :: "string list"
  tb_cell :: "string \<Rightarrow> string option \<Rightarrow> branch_error + json"
  tb_default :: "string \<Rightarrow> branch_error + json"
  tb_rows :: "(string \<times> (string \<times> json) list) list"

type_synonym branch_db = "entity_type \<Rightarrow> table option"
type_synonym file_system = "path \<Rightarrow> branch_db option"

definition no_such_table :: branch_error where
  "no_such_table = Database ''no such table''"

definition no_such_column :: branch_error where
  "no_such_column = Database ''no such column''"

definition unable_to_open :: branch_error where
  "unable_to_open = Database ''unable to open database file''"

text \<open>A read-only pool on an existing file; a missing file is an error (\<open>create_if_missing(false)\<close>).\<close>

definition open_pool :: "file_system \<Rightarrow> path \<Rightarrow> branch_db branch_result" where
  "open_pool fs path = ok_or unable_to_open (fs path)"

text \<open>
  \<open>fetch_all_entities\<close>: a missing table (no columns) reads as empty; otherwise the rows become a
  map from id to JSON object. A \<open>HashMap\<close> is represented by the list of its entries sorted by key;
  a later row with the same id would win, as with \<open>insert\<close>.
\<close>

definition fetch_all_entities :: "branch_db \<Rightarrow> entity_type \<Rightarrow> (string \<times> json) list" where
  "fetch_all_entities db entity_type =
     (case db entity_type of
        None \<Rightarrow> []
      | Some tb \<Rightarrow>
          if tb_columns tb = [] then []
          else obj_of_list (map (\<lambda>(id', data). (id', JObject data)) (tb_rows tb)))"

text \<open>\<open>DELETE FROM t WHERE id = ?\<close> and \<open>INSERT OR REPLACE INTO t (columns) VALUES (args)\<close>.\<close>

definition exec_delete :: "branch_db \<Rightarrow> entity_type \<Rightarrow> string \<Rightarrow> branch_db branch_result" where
  "exec_delete db t id' =
     res_bind (ok_or no_such_table (db t)) (\<lambda>tb.
       Inr (db(t \<mapsto> tb\<lparr>tb_rows := filter (\<lambda>(i, _). i \<noteq> id') (tb_rows tb)\<rparr>)))"

definition stored_cell :: "table \<Rightarrow> (string \<times> string option) list \<Rightarrow> string \<Rightarrow> branch_error + json" where
  "stored_cell tb binds c = (case map_of binds c of Some a \<Rightarrow> tb_cell tb c a | None \<Rightarrow> tb_default tb c)"

definition exec_replace ::
    "branch_db \<Rightarrow> entity_type \<Rightarrow> string \<Rightarrow> (string \<times> string option) list \<Rightarrow> branch_db branch_result" where
  "exec_replace db t id' binds =
     res_bind (ok_or no_such_table (db t)) (\<lambda>tb.
       if \<not> list_all (\<lambda>(c, _). c \<in> set (tb_columns tb)) binds then Inl no_such_column
       else
         res_bind (res_mapM (stored_cell tb binds) (tb_columns tb)) (\<lambda>cells.
           Inr (db(t \<mapsto> tb\<lparr>tb_rows := filter (\<lambda>(i, _). i \<noteq> id') (tb_rows tb) @
                                      [(id', obj_of_list (zip (tb_columns tb) cells))]\<rparr>))))"

section \<open>The contents of a database\<close>

text \<open>
  What a database holds: for each entity type the map from ids to JSON objects. Ids are unique
  (they are the primary key), the columns are not repeated, and an existing table has columns.
\<close>

definition table_ok :: "table \<Rightarrow> bool" where
  "table_ok tb \<longleftrightarrow> tb_columns tb \<noteq> [] \<and> distinct (tb_columns tb) \<and> distinct (map fst (tb_rows tb)) \<and>
     (\<forall>(i, data) \<in> set (tb_rows tb). obj_ok data)"

definition db_ok :: "branch_db \<Rightarrow> bool" where
  "db_ok db \<longleftrightarrow> (\<forall>t tb. db t = Some tb \<longrightarrow> table_ok tb)"

definition contents :: "branch_db \<Rightarrow> entity_type \<Rightarrow> string \<Rightarrow> (string \<times> json) list option" where
  "contents db t i = (case db t of None \<Rightarrow> None | Some tb \<Rightarrow> map_of (tb_rows tb) i)"

lemma map_of_rev: "distinct (map fst xs) \<Longrightarrow> map_of (rev xs) = map_of xs"
proof (rule ext)
  fix x assume d: "distinct (map fst xs)"
  then have r: "distinct (map fst (rev xs))" by (simp add: rev_map [symmetric])
  have "map_of (rev xs) x = Some y \<longleftrightarrow> map_of xs x = Some y" for y
    using map_of_eq_Some_iff [OF d] map_of_eq_Some_iff [OF r] by simp
  then show "map_of (rev xs) x = map_of xs x" by (metis not_None_eq)
qed

lemma map_of_without: "map_of (filter (\<lambda>(a, _). a \<noteq> i) rows) = (map_of rows)(i := None)"
  by (induction rows) auto

lemma fetch_ok [simp]: "obj_ok (fetch_all_entities db t)"
  by (simp add: fetch_all_entities_def split: option.splits)

lemma fetch_get:
  assumes "db_ok db"
  shows "obj_get (fetch_all_entities db t) i = map_option JObject (contents db t i)"
proof (cases "db t")
  case None
  then show ?thesis by (simp add: fetch_all_entities_def contents_def)
next
  case (Some tb)
  let ?ps = "map (\<lambda>(id', data). (id', JObject data)) (tb_rows tb)"
  have tb: "table_ok tb" using assms Some by (simp add: db_ok_def)
  have "map fst ?ps = map fst (tb_rows tb)" by (simp add: case_prod_unfold)
  moreover have "distinct (map fst (tb_rows tb))" using tb by (simp add: table_ok_def)
  ultimately have "map_of (rev ?ps) = map_of ?ps" by (intro map_of_rev) (simp only:)
  moreover have "map_of ?ps i = map_option JObject (map_of (tb_rows tb) i)"
    by (simp add: map_of_map)
  ultimately show ?thesis
    using Some tb by (simp add: fetch_all_entities_def contents_def obj_get_of_list table_ok_def)
qed

lemma fetch_keys:
  assumes "db_ok db"
  shows "set (obj_keys (fetch_all_entities db t)) = {i. contents db t i \<noteq> None}"
  using obj_get_eq_None [of "fetch_all_entities db t"] fetch_get [OF assms] by auto

lemma exec_delete_Inr:
  "exec_delete db t i = Inr db' \<longleftrightarrow>
   (\<exists>tb. db t = Some tb \<and>
      db' = db(t \<mapsto> tb\<lparr>tb_rows := filter (\<lambda>(a, _). a \<noteq> i) (tb_rows tb)\<rparr>))"
  by (auto simp: exec_delete_def res_bind_eq_Inr ok_or_eq_Inr)

lemma exec_delete_contents:
  "exec_delete db t i = Inr db' \<Longrightarrow>
   contents db' t' j = (if t' = t \<and> j = i then None else contents db t' j)"
  by (auto simp: exec_delete_Inr contents_def map_of_without)

lemma distinct_without: "distinct (map fst rows) \<Longrightarrow> distinct (map fst (filter P rows))"
  by (rule distinct_map_filter)

lemma table_without: "table_ok tb \<Longrightarrow> table_ok (tb\<lparr>tb_rows := filter P (tb_rows tb)\<rparr>)"
  by (auto simp: table_ok_def distinct_without)

lemma table_replaced:
  assumes "table_ok tb" and "obj_ok data"
  shows "table_ok (tb\<lparr>tb_rows := filter (\<lambda>(a, _). a \<noteq> i) (tb_rows tb) @ [(i, data)]\<rparr>)"
proof -
  have "i \<notin> fst ` set (filter (\<lambda>(a, _). a \<noteq> i) (tb_rows tb))" by auto
  then show ?thesis using assms by (auto simp: table_ok_def distinct_without)
qed

lemma exec_delete_ok: "exec_delete db t i = Inr db' \<Longrightarrow> db_ok db \<Longrightarrow> db_ok db'"
  unfolding exec_delete_Inr db_ok_def
  by (auto simp: table_without split: if_splits)

text \<open>The row an \<open>INSERT OR REPLACE\<close> leaves, given the bound columns.\<close>

lemma exec_replace_Inr:
  "exec_replace db t i binds = Inr db' \<longleftrightarrow>
   (\<exists>tb cells. db t = Some tb \<and> list_all (\<lambda>(c, _). c \<in> set (tb_columns tb)) binds \<and>
      res_mapM (stored_cell tb binds) (tb_columns tb) = Inr cells \<and>
      db' = db(t \<mapsto> tb\<lparr>tb_rows := filter (\<lambda>(a, _). a \<noteq> i) (tb_rows tb) @
                                  [(i, obj_of_list (zip (tb_columns tb) cells))]\<rparr>))"
  by (auto simp: exec_replace_def res_bind_eq_Inr ok_or_eq_Inr split: if_splits)

lemma exec_replace_contents:
  assumes "exec_replace db t i binds = Inr db'" and "db_ok db"
  shows "(t', j) \<noteq> (t, i) \<Longrightarrow> contents db' t' j = contents db t' j"
    and "\<exists>tb data. db t = Some tb \<and> contents db' t i = Some data \<and>
      (\<forall>c. obj_get data c =
         (if c \<in> set (tb_columns tb)
          then (case stored_cell tb binds c of Inr v \<Rightarrow> Some v | Inl _ \<Rightarrow> None) else None)) \<and>
      (\<forall>c \<in> set (tb_columns tb). isl (stored_cell tb binds c) = False)"
proof -
  obtain tb cells where tb: "db t = Some tb"
    and cells: "res_mapM (stored_cell tb binds) (tb_columns tb) = Inr cells"
    and db': "db' = db(t \<mapsto> tb\<lparr>tb_rows := filter (\<lambda>(a, _). a \<noteq> i) (tb_rows tb) @
                              [(i, obj_of_list (zip (tb_columns tb) cells))]\<rparr>)"
    using assms(1) unfolding exec_replace_Inr by blast
  let ?data = "obj_of_list (zip (tb_columns tb) cells)"
  have c: "contents db' t' j = (if t' = t \<and> j = i then Some ?data else contents db t' j)" for t' j
    using tb by (auto simp: contents_def db' map_add_def map_of_without split: option.splits)
  then show "(t', j) \<noteq> (t, i) \<Longrightarrow> contents db' t' j = contents db t' j" by auto
  have d: "distinct (tb_columns tb)" using assms(2) tb by (simp add: db_ok_def table_ok_def)
  have len: "length cells = length (tb_columns tb)" using cells by (rule res_mapM_Inr_length)
  have nth: "stored_cell tb binds (tb_columns tb ! k) = Inr (cells ! k)" if "k < length (tb_columns tb)" for k
    using res_mapM_Inr_nth [OF cells that] .
  have "map_of (zip (tb_columns tb) cells) c =
      (if c \<in> set (tb_columns tb)
       then (case stored_cell tb binds c of Inr v \<Rightarrow> Some v | Inl _ \<Rightarrow> None) else None)" for c
  proof (cases "c \<in> set (tb_columns tb)")
    case True
    then obtain k where k: "k < length (tb_columns tb)" "c = tb_columns tb ! k"
      by (metis in_set_conv_nth)
    then show ?thesis using nth [OF k(1)] d len by (simp add: map_of_zip_nth)
  qed (simp add: map_of_zip_is_None len)
  moreover have "map_of (rev (zip (tb_columns tb) cells)) = map_of (zip (tb_columns tb) cells)"
    using d len by (intro map_of_rev) simp
  ultimately have "obj_get ?data c =
      (if c \<in> set (tb_columns tb)
       then (case stored_cell tb binds c of Inr v \<Rightarrow> Some v | Inl _ \<Rightarrow> None) else None)" for c
    by (simp only: obj_get_of_list)
  moreover have "\<not> isl (stored_cell tb binds c)" if "c \<in> set (tb_columns tb)" for c
    using that nth by (auto simp: in_set_conv_nth)
  ultimately show "\<exists>tb data. db t = Some tb \<and> contents db' t i = Some data \<and>
      (\<forall>c. obj_get data c =
         (if c \<in> set (tb_columns tb)
          then (case stored_cell tb binds c of Inr v \<Rightarrow> Some v | Inl _ \<Rightarrow> None) else None)) \<and>
      (\<forall>c \<in> set (tb_columns tb). isl (stored_cell tb binds c) = False)"
    using tb c by auto
qed

lemma exec_replace_ok:
  "exec_replace db t i binds = Inr db' \<Longrightarrow> db_ok db \<Longrightarrow> db_ok db'"
  unfolding exec_replace_Inr db_ok_def by (auto simp: table_replaced split: if_splits)

section \<open>A concrete schema\<close>

text \<open>
  A database with one text table of the columns \<open>id\<close> and \<open>name\<close> and the given rows, used by the
  witnesses: a cell holds the bound text, an unlisted column \<open>NULL\<close>.
\<close>

definition text_cell :: "string option \<Rightarrow> json" where
  "text_cell a = (case a of None \<Rightarrow> JNull | Some s \<Rightarrow> JString s)"

definition text_db :: "(string \<times> string) list \<Rightarrow> branch_db" where
  "text_db rows t =
     (if t = MemoryRecord
      then Some \<lparr>tb_columns = [''id'', ''name''], tb_cell = (\<lambda>c a. Inr (text_cell a)),
                 tb_default = (\<lambda>c. Inr JNull),
                 tb_rows = map (\<lambda>(i, n). (i, [(''id'', JString i), (''name'', JString n)])) rows\<rparr>
      else None)"

lemma text_db_ok: "distinct (map fst rows) \<Longrightarrow> db_ok (text_db rows)"
  by (auto simp: db_ok_def text_db_def table_ok_def obj_ok_def comp_def case_prod_unfold)

lemma text_db_contents:
  "contents (text_db rows) t i =
     (if t = MemoryRecord
      then map_option (\<lambda>n. [(''id'', JString i), (''name'', JString n)]) (map_of rows i) else None)"
  by (induction rows) (auto simp: contents_def text_db_def)

definition blank_branch :: branch where
  "blank_branch =
     \<lparr>br_id = 0, br_name = [], br_slug = [], br_parent_id = None, br_status = Active,
      br_db_path = [], br_snapshot_path = [], br_workspace_id = 0, br_created_at = 0,
      br_updated_at = 0, br_forked_from_cursor = None, br_description = None,
      br_metadata = JObject [], br_metrics = default_metrics\<rparr>"

definition branch_at :: "uuid \<Rightarrow> path \<Rightarrow> branch" where
  "branch_at u path = blank_branch\<lparr>br_id := u, br_db_path := path\<rparr>"

lemma branch_at_sel [simp]: "br_id (branch_at u p) = u" "br_db_path (branch_at u p) = p"
  by (simp_all add: branch_at_def)

definition files_ab :: "branch_db \<Rightarrow> branch_db \<Rightarrow> file_system" where
  "files_ab db_a db_b = [[''a''] \<mapsto> db_a, [''b''] \<mapsto> db_b]"

lemma files_ab_sel [simp]:
  "files_ab db_a db_b [''a''] = Some db_a" "files_ab db_a db_b [''b''] = Some db_b"
  by (simp_all add: files_ab_def)

end
