(* ===== verification/Diff.thy ===== *)
theory Diff
  imports Entities
begin

text \<open>
  \<open>src/diff/extractor.rs\<close>, \<open>src/diff/scorer.rs\<close> and the summary of \<open>src/diff/formatter.rs\<close>: the
  entity and field level difference of two branch databases, its counters and its scores. \<open>ho\<close> is
  the iteration order of the hash sets of ids and of field names.
\<close>

section \<open>Extraction\<close>

definition or_null :: "(string \<times> json) list \<Rightarrow> string \<Rightarrow> json" where
  "or_null m field = (case obj_get m field of Some v \<Rightarrow> v | None \<Rightarrow> JNull)"

definition obj_or_default :: "json \<Rightarrow> (string \<times> json) list" where
  "obj_or_default v = (case as_object v of Some m \<Rightarrow> m | None \<Rightarrow> [])"

definition compare_entity_values ::
    "(string set \<Rightarrow> string list) \<Rightarrow> string \<Rightarrow> entity_type \<Rightarrow> json \<Rightarrow> json \<Rightarrow> entity_diff" where
  "compare_entity_values ho entity_id entity_type a b =
     (let a_obj = obj_or_default a;
          b_obj = obj_or_default b;
          all_fields = ho (set (obj_keys a_obj) \<union> set (obj_keys b_obj));
          field_diffs =
            concat (map (\<lambda>field.
              let av = or_null a_obj field; bv = or_null b_obj field
              in if av \<noteq> bv then [\<lparr>fd_field = field, fd_before = av, fd_after = bv\<rparr>] else [])
              all_fields);
          diff_kind = (if field_diffs = [] then Unchanged else Modified)
      in \<lparr>ed_entity_id = entity_id, ed_entity_type = entity_type, ed_diff_kind = diff_kind,
          ed_field_diffs = field_diffs\<rparr>)"

text \<open>The body of the loop over the ids; \<open>None\<close> is the unreachable branch.\<close>

definition diff_id ::
    "(string set \<Rightarrow> string list) \<Rightarrow> entity_type \<Rightarrow> (string \<times> json) list \<Rightarrow> (string \<times> json) list \<Rightarrow>
     entity_diff list \<times> diff_stats \<Rightarrow> string \<Rightarrow> (entity_diff list \<times> diff_stats) option" where
  "diff_id ho entity_type map_a map_b acc id' =
     (case acc of (entity_diffs, stats) \<Rightarrow>
        (case (obj_get map_a id', obj_get map_b id') of
           (Some _, None) \<Rightarrow>
             Some (entity_diffs @ [\<lparr>ed_entity_id = id', ed_entity_type = entity_type,
                                   ed_diff_kind = Removed, ed_field_diffs = []\<rparr>],
                   stats\<lparr>ds_removed := ds_removed stats + 1\<rparr>)
         | (None, Some _) \<Rightarrow>
             Some (entity_diffs @ [\<lparr>ed_entity_id = id', ed_entity_type = entity_type,
                                   ed_diff_kind = Added, ed_field_diffs = []\<rparr>],
                   stats\<lparr>ds_added := ds_added stats + 1\<rparr>)
         | (Some va, Some vb) \<Rightarrow>
             (let ed = compare_entity_values ho id' entity_type va vb
              in Some (entity_diffs @ [ed],
                   (case ed_diff_kind ed of
                      Modified \<Rightarrow> stats\<lparr>ds_modified := ds_modified stats + 1\<rparr>
                    | Unchanged \<Rightarrow> stats\<lparr>ds_unchanged := ds_unchanged stats + 1\<rparr>
                    | _ \<Rightarrow> stats)))
         | (None, None) \<Rightarrow> None))"

fun opt_fold :: "('s \<Rightarrow> 'a \<Rightarrow> 's option) \<Rightarrow> 's \<Rightarrow> 'a list \<Rightarrow> 's option" where
  "opt_fold f s [] = Some s"
| "opt_fold f s (x # xs) = Option.bind (f s x) (\<lambda>s'. opt_fold f s' xs)"

definition diff_type ::
    "(string set \<Rightarrow> string list) \<Rightarrow> branch_db \<Rightarrow> branch_db \<Rightarrow>
     entity_diff list \<times> diff_stats \<Rightarrow> entity_type \<Rightarrow> (entity_diff list \<times> diff_stats) option" where
  "diff_type ho pool_a pool_b acc entity_type =
     (case acc of (entity_diffs, stats) \<Rightarrow>
        let map_a = fetch_all_entities pool_a entity_type;
            map_b = fetch_all_entities pool_b entity_type;
            all_ids = ho (set (obj_keys map_a) \<union> set (obj_keys map_b));
            stats = stats\<lparr>ds_total_entities := ds_total_entities stats + of_nat (length all_ids)\<rparr>
        in opt_fold (diff_id ho entity_type map_a map_b) (entity_diffs, stats) all_ids)"

definition score_divergence :: "diff_stats \<Rightarrow> real" where
  "score_divergence stats =
     (if ds_total_entities stats = 0 then 0
      else real (unat (ds_added stats + ds_removed stats + ds_modified stats)) /
           real (unat (ds_total_entities stats)))"

definition all_entity_types :: "entity_type list" where
  "all_entity_types = [MemoryRecord, Session, ToolOutput]"

definition diff ::
    "(string set \<Rightarrow> string list) \<Rightarrow> datetime \<Rightarrow> file_system \<Rightarrow> branch \<Rightarrow> branch \<Rightarrow> entity_type list option \<Rightarrow>
     diff_result branch_result option" where
  "diff ho now fs branch_a branch_b entity_types =
     (case open_pool fs (br_db_path branch_a) of
        Inl e \<Rightarrow> Some (Inl e)
      | Inr pool_a \<Rightarrow>
          (case open_pool fs (br_db_path branch_b) of
             Inl e \<Rightarrow> Some (Inl e)
           | Inr pool_b \<Rightarrow>
               let types = (case entity_types of Some ts \<Rightarrow> ts | None \<Rightarrow> all_entity_types)
               in map_option (\<lambda>(entity_diffs, stats).
                    Inr \<lparr>dr_branch_a_id = br_id branch_a, dr_branch_b_id = br_id branch_b,
                         dr_compared_at = now, dr_entity_diffs = entity_diffs, dr_stats = stats,
                         dr_divergence_score = score_divergence stats\<rparr>)
                  (opt_fold (diff_type ho pool_a pool_b) ([], default_stats) types)))"

definition diff_entity ::
    "(string set \<Rightarrow> string list) \<Rightarrow> string \<Rightarrow> entity_type \<Rightarrow> branch_db \<Rightarrow> branch_db \<Rightarrow> entity_diff" where
  "diff_entity ho entity_id entity_type pool_a pool_b =
     (let map_a = fetch_all_entities pool_a entity_type;
          map_b = fetch_all_entities pool_b entity_type
      in case (obj_get map_a entity_id, obj_get map_b entity_id) of
           (Some _, None) \<Rightarrow> \<lparr>ed_entity_id = entity_id, ed_entity_type = entity_type,
                             ed_diff_kind = Removed, ed_field_diffs = []\<rparr>
         | (None, Some _) \<Rightarrow> \<lparr>ed_entity_id = entity_id, ed_entity_type = entity_type,
                             ed_diff_kind = Added, ed_field_diffs = []\<rparr>
         | (Some va, Some vb) \<Rightarrow> compare_entity_values ho entity_id entity_type va vb
         | (None, None) \<Rightarrow> \<lparr>ed_entity_id = entity_id, ed_entity_type = entity_type,
                            ed_diff_kind = Unchanged, ed_field_diffs = []\<rparr>)"

section \<open>Scores\<close>

text \<open>
  \<open>DivergenceScorer::score\<close>, over the real numbers (the sources compute in \<open>f64\<close>, whose rounding
  is not modelled).
\<close>

definition clamp01 :: "real \<Rightarrow> real" where
  "clamp01 x = (if x < 0 then 0 else if x > 1 then 1 else x)"

definition score :: "diff_result \<Rightarrow> u64 \<Rightarrow> real" where
  "score d total_entities_base =
     (let numerator = real (unat (ds_added (dr_stats d))) + real (unat (ds_removed (dr_stats d))) +
                      real (unat (ds_modified (dr_stats d))) * 0.5;
          denominator = real (unat (max total_entities_base 1))
      in clamp01 (numerator / denominator))"

text \<open>
  Field similarity. The character diff ratio (\<open>similar\<close>), the \<open>f64\<close> reading of a number and the
  serialised text of a value (\<open>serde_json\<close>) are arguments.
\<close>

record similarity_ops =
  so_ratio :: "string \<Rightarrow> string \<Rightarrow> real"
  so_as_f64 :: "number \<Rightarrow> real option"
  so_to_string :: "json \<Rightarrow> string"

definition string_similarity :: "similarity_ops \<Rightarrow> string \<Rightarrow> string \<Rightarrow> real" where
  "string_similarity S a b =
     (if a = [] \<and> b = [] then 1 else if a = [] \<or> b = [] then 0 else so_ratio S a b)"

definition numeric_similarity :: "real \<Rightarrow> real \<Rightarrow> real" where
  "numeric_similarity a b =
     (let m = max (max \<bar>a\<bar> \<bar>b\<bar>) 1 in clamp01 (1 - \<bar>a - b\<bar> / m))"

definition array_jaccard :: "similarity_ops \<Rightarrow> json list \<Rightarrow> json list \<Rightarrow> real" where
  "array_jaccard S a b =
     (let a_set = set (map (so_to_string S) a);
          b_set = set (map (so_to_string S) b);
          intersection = card (a_set \<inter> b_set);
          union = card (a_set \<union> b_set)
      in if union = 0 then 1 else real intersection / real union)"

lemma size_or_null: "size (or_null m k) < size (JObject m)"
  using obj_get_in [of m k] size_in_obj by (auto simp: or_null_def split: option.splits)

function score_field_similarity ::
    "(string set \<Rightarrow> string list) \<Rightarrow> similarity_ops \<Rightarrow> json \<Rightarrow> json \<Rightarrow> real" where
  "score_field_similarity ho S a b =
     (if a = b then 1
      else case (a, b) of
        (JString sa, JString sb) \<Rightarrow> string_similarity S sa sb
      | (JNumber na, JNumber nb) \<Rightarrow>
          numeric_similarity (case so_as_f64 S na of Some x \<Rightarrow> x | None \<Rightarrow> 0)
            (case so_as_f64 S nb of Some x \<Rightarrow> x | None \<Rightarrow> 0)
      | (JObject oa, JObject ob) \<Rightarrow>
          (let keys = ho (set (obj_keys oa) \<union> set (obj_keys ob))
           in if keys = [] then 1
              else sum_list (map (\<lambda>k. score_field_similarity ho S (or_null oa k) (or_null ob k)) keys) /
                   real (length keys))
      | (JArray aa, JArray ab) \<Rightarrow> array_jaccard S aa ab
      | _ \<Rightarrow> 0)"
  by pat_completeness auto

termination
  by (relation "measure (\<lambda>(ho, S, a, b). size a)") (auto simp: size_or_null simp del: json.size)

declare score_field_similarity.simps [simp del]

section \<open>Summary\<close>

record diff_summary =
  sm_added :: u32
  sm_removed :: u32
  sm_modified :: u32
  sm_unchanged :: u32
  sm_divergence_score :: real
  sm_is_identical :: bool
  sm_entity_type_breakdown :: "(string \<times> diff_stats) list"

text \<open>The name the derived \<open>Debug\<close> prints for an entity type.\<close>

fun debug_name :: "entity_type \<Rightarrow> string" where
  "debug_name MemoryRecord = ''MemoryRecord''"
| "debug_name Session = ''Session''"
| "debug_name ToolOutput = ''ToolOutput''"

definition summarise_step :: "(string \<times> diff_stats) list \<Rightarrow> entity_diff \<Rightarrow> (string \<times> diff_stats) list" where
  "summarise_step breakdown ed =
     (let key = debug_name (ed_entity_type ed);
          entry = (case obj_get breakdown key of Some s \<Rightarrow> s | None \<Rightarrow> default_stats);
          entry = entry\<lparr>ds_total_entities := ds_total_entities entry + 1\<rparr>;
          entry = (case ed_diff_kind ed of
                     Added \<Rightarrow> entry\<lparr>ds_added := ds_added entry + 1\<rparr>
                   | Removed \<Rightarrow> entry\<lparr>ds_removed := ds_removed entry + 1\<rparr>
                   | Modified \<Rightarrow> entry\<lparr>ds_modified := ds_modified entry + 1\<rparr>
                   | Unchanged \<Rightarrow> entry\<lparr>ds_unchanged := ds_unchanged entry + 1\<rparr>)
      in obj_insert key entry breakdown)"

definition summarise_diff :: "diff_result \<Rightarrow> diff_summary" where
  "summarise_diff d =
     (let breakdown = foldl summarise_step [] (dr_entity_diffs d);
          is_identical = (ds_added (dr_stats d) = 0 \<and> ds_removed (dr_stats d) = 0 \<and> ds_modified (dr_stats d) = 0)
      in \<lparr>sm_added = ds_added (dr_stats d), sm_removed = ds_removed (dr_stats d),
          sm_modified = ds_modified (dr_stats d), sm_unchanged = ds_unchanged (dr_stats d),
          sm_divergence_score = dr_divergence_score d, sm_is_identical = is_identical,
          sm_entity_type_breakdown = breakdown\<rparr>)"

section \<open>What a field comparison finds\<close>

lemma compare_fields:
  fixes a b :: "(string \<times> json) list" and i :: string and t :: entity_type
  assumes ho: "hash_order ho"
  defines "ed \<equiv> compare_entity_values ho i t (JObject a) (JObject b)"
  shows "set (ed_field_diffs ed) =
      {\<lparr>fd_field = f, fd_before = or_null a f, fd_after = or_null b f\<rparr> |f. or_null a f \<noteq> or_null b f}"
    and "distinct (map fd_field (ed_field_diffs ed))"
    and "ed_diff_kind ed = (if \<forall>f. or_null a f = or_null b f then Unchanged else Modified)"
    and "ed_entity_id ed = i" and "ed_entity_type ed = t"
proof -
  let ?K = "set (obj_keys a) \<union> set (obj_keys b)"
  let ?F = "\<lambda>f. if or_null a f \<noteq> or_null b f
      then [\<lparr>fd_field = f, fd_before = or_null a f, fd_after = or_null b f\<rparr>] else []"
  have K: "set (ho ?K) = ?K" "distinct (ho ?K)"
    using hash_order.set_it [OF ho, of ?K] hash_order.distinct_it [OF ho, of ?K] by auto
  have same: "or_null a f = or_null b f" if "f \<notin> ?K" for f
  proof -
    have "obj_get a f = None" "obj_get b f = None" using that by (simp_all add: obj_get_eq_None)
    then show ?thesis by (simp add: or_null_def)
  qed
  have fds: "ed_field_diffs ed = concat (map ?F (ho ?K))"
    by (simp add: ed_def compare_entity_values_def obj_or_default_def Let_def)
  show set: "set (ed_field_diffs ed) =
      {\<lparr>fd_field = f, fd_before = or_null a f, fd_after = or_null b f\<rparr> |f. or_null a f \<noteq> or_null b f}"
    unfolding fds using K(1) same by auto
  have "map fd_field (concat (map ?F fs)) = filter (\<lambda>f. or_null a f \<noteq> or_null b f) fs" for fs
    by (induction fs) auto
  then show "distinct (map fd_field (ed_field_diffs ed))" unfolding fds using K(2) by simp
  have "ed_field_diffs ed = [] \<longleftrightarrow> (\<forall>f. or_null a f = or_null b f)"
  proof -
    have "ed_field_diffs ed = [] \<longleftrightarrow> set (ed_field_diffs ed) = {}" by simp
    then show ?thesis unfolding set by simp
  qed
  then show "ed_diff_kind ed = (if \<forall>f. or_null a f = or_null b f then Unchanged else Modified)"
    unfolding ed_def by (simp add: compare_entity_values_def Let_def)
  show "ed_entity_id ed = i" "ed_entity_type ed = t"
    by (simp_all add: ed_def compare_entity_values_def Let_def)
qed

text \<open>
  The fields a diff reports, and the effect of writing their \<open>after\<close> values over an object: the
  step the merge and the selective commit rely on.
\<close>

definition patch :: "field_diff list \<Rightarrow> (string \<times> json) list \<Rightarrow> (string \<times> json) list" where
  "patch fds m = fold (\<lambda>fd. obj_insert (fd_field fd) (fd_after fd)) fds m"

lemma patch_ok [simp]: "obj_ok m \<Longrightarrow> obj_ok (patch fds m)"
  unfolding patch_def by (induction fds arbitrary: m) auto

lemma patch_get:
  assumes "obj_ok m" and "distinct (map fd_field fds)"
  shows "obj_get (patch fds m) f =
    (case find (\<lambda>fd. fd_field fd = f) fds of Some fd \<Rightarrow> Some (fd_after fd) | None \<Rightarrow> obj_get m f)"
  using assms
proof (induction fds arbitrary: m)
  case (Cons fd fds)
  have IH: "obj_get (patch fds (obj_insert (fd_field fd) (fd_after fd) m)) f =
      (case find (\<lambda>fd. fd_field fd = f) fds of Some fd \<Rightarrow> Some (fd_after fd)
       | None \<Rightarrow> obj_get (obj_insert (fd_field fd) (fd_after fd) m) f)"
    using Cons by simp
  have "find (\<lambda>fd'. fd_field fd' = fd_field fd) fds = None"
    using Cons.prems(2) unfolding find_None_iff by (auto simp: rev_image_eqI)
  with IH Cons.prems(1) show ?case
    by (auto simp: patch_def obj_get_insert split: option.splits)
qed (simp add: patch_def)

lemma compare_patch:
  assumes ho: "hash_order ho" and a: "obj_ok a"
  shows "or_null (patch (ed_field_diffs (compare_entity_values ho i t (JObject a) (JObject b))) a) f = or_null b f"
proof -
  let ?fds = "ed_field_diffs (compare_entity_values ho i t (JObject a) (JObject b))"
  note c = compare_fields [OF ho, of i t a b]
  show ?thesis
  proof (cases "find (\<lambda>fd. fd_field fd = f) ?fds")
    case None
    then have "or_null a f = or_null b f" using c(1) by (fastforce simp: find_None_iff)
    then show ?thesis using None patch_get [OF a c(2)] by (simp add: or_null_def)
  next
    case (Some fd)
    then have "fd \<in> set ?fds" "fd_field fd = f" by (auto simp: find_Some_iff)
    then have "fd_after fd = or_null b f" using c(1) by auto
    then show ?thesis using Some patch_get [OF a c(2)] by (simp add: or_null_def)
  qed
qed

section \<open>The whole diff\<close>

text \<open>What one entity diff must say, given the contents of the two databases.\<close>

definition describes :: "branch_db \<Rightarrow> branch_db \<Rightarrow> entity_diff \<Rightarrow> bool" where
  "describes db_a db_b ed \<longleftrightarrow>
     (case (contents db_a (ed_entity_type ed) (ed_entity_id ed),
            contents db_b (ed_entity_type ed) (ed_entity_id ed)) of
        (Some _, None) \<Rightarrow> ed_diff_kind ed = Removed \<and> ed_field_diffs ed = []
      | (None, Some _) \<Rightarrow> ed_diff_kind ed = Added \<and> ed_field_diffs ed = []
      | (Some a, Some b) \<Rightarrow>
          ed_diff_kind ed = (if \<forall>f. or_null a f = or_null b f then Unchanged else Modified) \<and>
          distinct (map fd_field (ed_field_diffs ed)) \<and>
          set (ed_field_diffs ed) =
            {\<lparr>fd_field = f, fd_before = or_null a f, fd_after = or_null b f\<rparr> |f. or_null a f \<noteq> or_null b f}
      | (None, None) \<Rightarrow> ed_diff_kind ed = Unchanged \<and> ed_field_diffs ed = [])"

lemma diff_entity_id [simp]:
  "ed_entity_id (diff_entity ho i t db_a db_b) = i" "ed_entity_type (diff_entity ho i t db_a db_b) = t"
  by (simp_all add: diff_entity_def compare_entity_values_def Let_def split: option.splits)

lemma diff_entity_describes:
  assumes ho: "hash_order ho" and "db_ok db_a" and "db_ok db_b"
  shows "describes db_a db_b (diff_entity ho i t db_a db_b)"
proof -
  note get = fetch_get [OF assms(2)] fetch_get [OF assms(3)]
  show ?thesis
  proof (cases "contents db_a t i"; cases "contents db_b t i")
    fix a b assume ab: "contents db_a t i = Some a" "contents db_b t i = Some b"
    then have "diff_entity ho i t db_a db_b = compare_entity_values ho i t (JObject a) (JObject b)"
      by (simp add: diff_entity_def get)
    with ab compare_fields [OF ho, of i t a b] show ?thesis by (simp add: describes_def)
  qed (simp_all add: describes_def, simp_all add: diff_entity_def get)
qed

text \<open>The counters as a function of the entity diff appended.\<close>

definition count_diff :: "diff_stats \<Rightarrow> entity_diff \<Rightarrow> diff_stats" where
  "count_diff stats ed =
     (case ed_diff_kind ed of
        Added \<Rightarrow> stats\<lparr>ds_added := ds_added stats + 1\<rparr>
      | Removed \<Rightarrow> stats\<lparr>ds_removed := ds_removed stats + 1\<rparr>
      | Modified \<Rightarrow> stats\<lparr>ds_modified := ds_modified stats + 1\<rparr>
      | Unchanged \<Rightarrow> stats\<lparr>ds_unchanged := ds_unchanged stats + 1\<rparr>)"

lemma compare_kind: "ed_diff_kind (compare_entity_values ho i t a b) \<in> {Unchanged, Modified}"
  by (simp add: compare_entity_values_def Let_def)

lemma diff_id_eq:
  assumes "obj_get (fetch_all_entities db_a t) i \<noteq> None \<or> obj_get (fetch_all_entities db_b t) i \<noteq> None"
  shows "diff_id ho t (fetch_all_entities db_a t) (fetch_all_entities db_b t) (eds, stats) i =
    Some (eds @ [diff_entity ho i t db_a db_b], count_diff stats (diff_entity ho i t db_a db_b))"
proof -
  have k: "ed_diff_kind (compare_entity_values ho i t va vb) = Unchanged \<or>
      ed_diff_kind (compare_entity_values ho i t va vb) = Modified" for va vb
    using compare_kind by blast
  show ?thesis
  proof (cases "obj_get (fetch_all_entities db_a t) i"; cases "obj_get (fetch_all_entities db_b t) i")
    fix va vb assume ab: "obj_get (fetch_all_entities db_a t) i = Some va"
      "obj_get (fetch_all_entities db_b t) i = Some vb"
    then show ?thesis using k [of va vb]
      by (auto simp: diff_id_def diff_entity_def count_diff_def Let_def)
  qed (use assms in \<open>auto simp: diff_id_def diff_entity_def count_diff_def Let_def\<close>)
qed

lemma opt_fold_ids:
  assumes "\<And>i. i \<in> set is' \<Longrightarrow>
    obj_get (fetch_all_entities db_a t) i \<noteq> None \<or> obj_get (fetch_all_entities db_b t) i \<noteq> None"
  shows "opt_fold (diff_id ho t (fetch_all_entities db_a t) (fetch_all_entities db_b t)) (eds, stats) is' =
    Some (eds @ map (\<lambda>i. diff_entity ho i t db_a db_b) is',
          foldl count_diff stats (map (\<lambda>i. diff_entity ho i t db_a db_b) is'))"
  using assms
proof (induction is' arbitrary: eds stats)
  case (Cons i is')
  then show ?case using diff_id_eq [of db_a t i db_b ho eds stats] by simp
qed simp

text \<open>The ids the diff of one entity type visits, in the order of the hash set.\<close>

definition visited_ids ::
    "(string set \<Rightarrow> string list) \<Rightarrow> branch_db \<Rightarrow> branch_db \<Rightarrow> entity_type \<Rightarrow> string list" where
  "visited_ids ho db_a db_b t =
     ho (set (obj_keys (fetch_all_entities db_a t)) \<union> set (obj_keys (fetch_all_entities db_b t)))"

definition type_diffs ::
    "(string set \<Rightarrow> string list) \<Rightarrow> branch_db \<Rightarrow> branch_db \<Rightarrow> entity_type \<Rightarrow> entity_diff list" where
  "type_diffs ho db_a db_b t = map (\<lambda>i. diff_entity ho i t db_a db_b) (visited_ids ho db_a db_b t)"

lemma visited_ids_set:
  assumes "hash_order ho"
  shows "set (visited_ids ho db_a db_b t) =
      set (obj_keys (fetch_all_entities db_a t)) \<union> set (obj_keys (fetch_all_entities db_b t))"
    "distinct (visited_ids ho db_a db_b t)"
  unfolding visited_ids_def
  by (rule hash_order.set_it [OF assms], simp, rule hash_order.distinct_it [OF assms], simp)

lemma diff_type_eq:
  assumes "hash_order ho"
  shows "diff_type ho db_a db_b (eds, stats) t =
    Some (eds @ type_diffs ho db_a db_b t,
          foldl count_diff
            (stats\<lparr>ds_total_entities := ds_total_entities stats + of_nat (length (type_diffs ho db_a db_b t))\<rparr>)
            (type_diffs ho db_a db_b t))"
proof -
  have "obj_get (fetch_all_entities db_a t) i \<noteq> None \<or> obj_get (fetch_all_entities db_b t) i \<noteq> None"
    if "i \<in> set (visited_ids ho db_a db_b t)" for i
    using that unfolding visited_ids_set(1) [OF assms] obj_get_eq_None by auto
  from opt_fold_ids [OF this, where is' = "visited_ids ho db_a db_b t"]
  show ?thesis by (simp add: diff_type_def visited_ids_def [symmetric] type_diffs_def Let_def)
qed

text \<open>All counters after a fold are sums; the total is kept separately.\<close>

definition kinds :: "diff_kind \<Rightarrow> entity_diff list \<Rightarrow> nat" where
  "kinds k eds = length (filter (\<lambda>ed. ed_diff_kind ed = k) eds)"

definition counted :: "entity_diff list \<Rightarrow> diff_stats \<Rightarrow> bool" where
  "counted eds stats \<longleftrightarrow>
     ds_added stats = of_nat (kinds Added eds) \<and> ds_removed stats = of_nat (kinds Removed eds) \<and>
     ds_modified stats = of_nat (kinds Modified eds) \<and> ds_unchanged stats = of_nat (kinds Unchanged eds)"

lemma kinds_append [simp]: "kinds k (xs @ ys) = kinds k xs + kinds k ys"
  by (simp add: kinds_def)

lemma counted_step: "counted eds stats \<Longrightarrow> counted (eds @ [ed]) (count_diff stats ed)"
  by (cases "ed_diff_kind ed") (simp_all add: counted_def count_diff_def kinds_def)

lemma counted_fold: "counted eds stats \<Longrightarrow> counted (eds @ new) (foldl count_diff stats new)"
proof (induction new arbitrary: eds stats)
  case (Cons ed new)
  from Cons.IH [OF counted_step [OF Cons.prems], of ed] show ?case by simp
qed simp

lemma total_fold [simp]: "ds_total_entities (foldl count_diff stats new) = ds_total_entities stats"
  by (induction new arbitrary: stats) (simp_all add: count_diff_def split: diff_kind.split)

lemma counted_total: "counted eds (stats\<lparr>ds_total_entities := n\<rparr>) = counted eds stats"
  by (simp add: counted_def)

lemma opt_fold_types:
  assumes ho: "hash_order ho"
  shows "counted eds stats \<Longrightarrow> ds_total_entities stats = of_nat (length eds) \<Longrightarrow>
    \<exists>stats'. opt_fold (diff_type ho db_a db_b) (eds, stats) ts =
        Some (eds @ concat (map (type_diffs ho db_a db_b) ts), stats') \<and>
      counted (eds @ concat (map (type_diffs ho db_a db_b) ts)) stats' \<and>
      ds_total_entities stats' = of_nat (length (eds @ concat (map (type_diffs ho db_a db_b) ts)))"
proof (induction ts arbitrary: eds stats)
  case (Cons t ts)
  let ?n = "type_diffs ho db_a db_b t"
  let ?s = "foldl count_diff (stats\<lparr>ds_total_entities := ds_total_entities stats + of_nat (length ?n)\<rparr>) ?n"
  have "counted (eds @ ?n) ?s" using Cons.prems(1) by (intro counted_fold) (simp add: counted_total)
  moreover have "ds_total_entities ?s = of_nat (length (eds @ ?n))" using Cons.prems(2) by simp
  ultimately show ?case using Cons.IH [of "eds @ ?n" ?s] by (simp add: diff_type_eq [OF ho])
qed simp

lemma diff_eq:
  assumes ho: "hash_order ho"
    and "fs (br_db_path branch_a) = Some db_a" and "fs (br_db_path branch_b) = Some db_b"
  shows "\<exists>r. diff ho now fs branch_a branch_b types = Some (Inr r) \<and>
    dr_branch_a_id r = br_id branch_a \<and> dr_branch_b_id r = br_id branch_b \<and>
    dr_entity_diffs r = concat (map (type_diffs ho db_a db_b)
      (case types of Some ts \<Rightarrow> ts | None \<Rightarrow> all_entity_types)) \<and>
    counted (dr_entity_diffs r) (dr_stats r) \<and>
    ds_total_entities (dr_stats r) = of_nat (length (dr_entity_diffs r)) \<and>
    dr_divergence_score r = score_divergence (dr_stats r)"
proof -
  let ?ts = "case types of Some ts \<Rightarrow> ts | None \<Rightarrow> all_entity_types"
  have "counted [] default_stats" "ds_total_entities default_stats = of_nat (length [])"
    by (simp_all add: counted_def default_stats_def kinds_def)
  from opt_fold_types [OF ho this, of db_a db_b ?ts] obtain stats where
    "opt_fold (diff_type ho db_a db_b) ([], default_stats) ?ts =
       Some (concat (map (type_diffs ho db_a db_b) ?ts), stats)"
    "counted (concat (map (type_diffs ho db_a db_b) ?ts)) stats"
    "ds_total_entities stats = of_nat (length (concat (map (type_diffs ho db_a db_b) ?ts)))"
    by auto
  then show ?thesis using assms(2,3) by (simp add: diff_def open_pool_def Let_def)
qed

text \<open>Which entities the diffs of one type are about.\<close>

lemma type_diffs_ids:
  assumes ho: "hash_order ho" and "db_ok db_a" and "db_ok db_b"
  shows "map (\<lambda>ed. (ed_entity_type ed, ed_entity_id ed)) (type_diffs ho db_a db_b t) =
      map (Pair t) (visited_ids ho db_a db_b t)"
    and "set (visited_ids ho db_a db_b t) = {i. contents db_a t i \<noteq> None \<or> contents db_b t i \<noteq> None}"
    and "\<forall>ed \<in> set (type_diffs ho db_a db_b t). describes db_a db_b ed"
  using diff_entity_describes [OF assms] visited_ids_set(1) [OF ho]
  by (auto simp: type_diffs_def fetch_keys [OF assms(2)] fetch_keys [OF assms(3)])

lemma concat_pairs_distinct:
  "distinct ts \<Longrightarrow> (\<And>t. distinct (f t)) \<Longrightarrow> distinct (concat (map (\<lambda>t. map (Pair t) (f t)) ts))"
  by (induction ts) (auto simp: distinct_map inj_on_def)

lemma kinds_total:
  "kinds Added eds + kinds Removed eds + kinds Modified eds + kinds Unchanged eds = length eds"
proof (induction eds)
  case (Cons ed eds)
  then show ?case by (cases "ed_diff_kind ed") (simp_all add: kinds_def)
qed (simp add: kinds_def)

lemma kinds_zero: "kinds k eds = 0 \<longleftrightarrow> (\<forall>ed \<in> set eds. ed_diff_kind ed \<noteq> k)"
  by (auto simp: kinds_def filter_empty_conv)

lemma u32_zero:
  assumes "n < 2 ^ 32" shows "(of_nat n :: u32) = 0 \<longleftrightarrow> n = 0"
proof -
  have "unat (of_nat n :: u32) = n" using assms by (simp add: unat_of_nat take_bit_nat_eq_self)
  then show ?thesis using unat_eq_zero [of "of_nat n :: u32"] by simp
qed

text \<open>The counters are zero exactly when no entity differs.\<close>

lemma counted_zero:
  assumes "counted eds stats" and "length eds < 2 ^ 32"
  shows "ds_added stats = 0 \<and> ds_modified stats = 0 \<and> ds_removed stats = 0 \<longleftrightarrow>
    (\<forall>ed \<in> set eds. ed_diff_kind ed = Unchanged)"
proof -
  have k: "kinds k eds < 2 ^ 32" for k
    using assms(2) by (rule le_less_trans [rotated]) (simp add: kinds_def)
  have "ds_added stats = 0 \<and> ds_modified stats = 0 \<and> ds_removed stats = 0 \<longleftrightarrow>
      kinds Added eds = 0 \<and> kinds Modified eds = 0 \<and> kinds Removed eds = 0"
    using assms(1) k by (simp add: counted_def u32_zero)
  also have "\<dots> \<longleftrightarrow> (\<forall>ed \<in> set eds. ed_diff_kind ed = Unchanged)"
  proof -
    have "k = Unchanged \<longleftrightarrow> k \<noteq> Added \<and> k \<noteq> Modified \<and> k \<noteq> Removed" for k by (cases k) simp_all
    then show ?thesis unfolding kinds_zero by blast
  qed
  finally show ?thesis .
qed

lemma unat_counts:
  assumes "counted eds stats" and "length eds < 2 ^ 32"
  shows "unat (ds_added stats + ds_removed stats + ds_modified stats) =
    kinds Added eds + kinds Removed eds + kinds Modified eds"
proof -
  have "kinds Added eds + kinds Removed eds + kinds Modified eds < 2 ^ 32"
    using kinds_total [of eds] assms(2) by linarith
  moreover have "ds_added stats + ds_removed stats + ds_modified stats =
      of_nat (kinds Added eds + kinds Removed eds + kinds Modified eds)"
    using assms(1) by (simp add: counted_def)
  ultimately show ?thesis by (simp only: unat_of_nat take_bit_nat_eq_self len_num1 len_num0 len_bit0)
      (simp add: take_bit_nat_eq_self)
qed

lemma score_counted:
  assumes "counted eds stats" and "length eds < 2 ^ 32"
    and "ds_total_entities stats = of_nat (length eds)"
  shows "score_divergence stats =
    (if eds = [] then 0 else real (kinds Added eds + kinds Removed eds + kinds Modified eds) / real (length eds))"
proof -
  have "unat (ds_total_entities stats) = length eds"
    unfolding assms(3) using assms(2) by (simp add: unat_of_nat take_bit_nat_eq_self)
  moreover from this have "ds_total_entities stats = 0 \<longleftrightarrow> eds = []" by (metis length_0_conv unat_eq_zero)
  ultimately show ?thesis using unat_counts [OF assms(1,2)] by (simp add: score_divergence_def)
qed

lemma clamp01_bounds: "0 \<le> clamp01 x \<and> clamp01 x \<le> 1"
  by (simp add: clamp01_def)

lemma sum_list_bounds:
  "(\<And>x. x \<in> set xs \<Longrightarrow> 0 \<le> f x \<and> f x \<le> (1::real)) \<Longrightarrow>
   0 \<le> sum_list (map f xs) \<and> sum_list (map f xs) \<le> real (length xs)"
  by (induction xs) force+

lemma array_jaccard_bounds: "0 \<le> array_jaccard S a b \<and> array_jaccard S a b \<le> 1"
proof -
  have "card (A \<inter> B) \<le> card (A \<union> B)" if "finite A" "finite B" for A B :: "string set"
    using that by (intro card_mono) auto
  then show ?thesis by (auto simp: array_jaccard_def Let_def divide_le_eq_1)
qed

section \<open>Properties\<close>

text \<open>
  C13: the diff of two branch databases lists, exactly once, every entity of the compared types that
  one of them holds, with the right kind and exactly the fields whose values differ, and its five
  counters are the numbers of these entities (as \<open>u32\<close>). Neither the hash order nor the order of the
  rows matters, and the unreachable branch is not reached.
\<close>

theorem diff_correct:
  assumes "hash_order ho" and "db_ok db_a" and "db_ok db_b"
    and "fs (br_db_path branch_a) = Some db_a" and "fs (br_db_path branch_b) = Some db_b"
    and "distinct ts"
  shows "\<exists>r. diff ho now fs branch_a branch_b (Some ts) = Some (Inr r) \<and>
    distinct (map (\<lambda>ed. (ed_entity_type ed, ed_entity_id ed)) (dr_entity_diffs r)) \<and>
    (\<lambda>ed. (ed_entity_type ed, ed_entity_id ed)) ` set (dr_entity_diffs r) =
      {(t, i). t \<in> set ts \<and> (contents db_a t i \<noteq> None \<or> contents db_b t i \<noteq> None)} \<and>
    (\<forall>ed \<in> set (dr_entity_diffs r). describes db_a db_b ed) \<and>
    counted (dr_entity_diffs r) (dr_stats r) \<and>
    ds_total_entities (dr_stats r) = of_nat (length (dr_entity_diffs r))"
proof -
  let ?p = "\<lambda>ed. (ed_entity_type ed, ed_entity_id ed)"
  let ?eds = "concat (map (type_diffs ho db_a db_b) ts)"
  note T = type_diffs_ids [OF assms(1-3)]
  from diff_eq [OF assms(1,4,5), of now "Some ts"] obtain r where
    r: "diff ho now fs branch_a branch_b (Some ts) = Some (Inr r)" "dr_entity_diffs r = ?eds"
      "counted (dr_entity_diffs r) (dr_stats r)"
      "ds_total_entities (dr_stats r) = of_nat (length (dr_entity_diffs r))" by auto
  have p: "map ?p ?eds = concat (map (\<lambda>t. map (Pair t) (visited_ids ho db_a db_b t)) ts)"
    by (simp add: map_concat comp_def T(1))
  have "distinct (map ?p ?eds)"
    unfolding p using assms(6) visited_ids_set(2) [OF assms(1)] by (rule concat_pairs_distinct)
  moreover have "?p ` set ?eds = set (map ?p ?eds)" by (simp only: set_map)
  then have "?p ` set ?eds = {(t, i). t \<in> set ts \<and> (contents db_a t i \<noteq> None \<or> contents db_b t i \<noteq> None)}"
    unfolding p using T(2) by auto
  moreover have "\<forall>ed \<in> set ?eds. describes db_a db_b ed" using T(3) by auto
  ultimately show ?thesis using r by auto
qed

theorem diff_correct_witness:
  "\<exists>r. diff sorted_list_of_set 0 (files_ab (text_db [(''1'', ''x'')]) (text_db [(''1'', ''y'')]))
         (branch_at 1 [''a'']) (branch_at 2 [''b'']) (Some [MemoryRecord]) = Some (Inr r) \<and>
     length (dr_entity_diffs r) = 1 \<and>
     (\<forall>ed \<in> set (dr_entity_diffs r). ed_diff_kind ed = Modified)"
proof -
  let ?fs = "files_ab (text_db [(''1'', ''x'')]) (text_db [(''1'', ''y'')])"
  have ok: "db_ok (text_db [(''1'', ''x'')])" "db_ok (text_db [(''1'', ''y'')])"
    by (rule text_db_ok, simp)+
  have fs: "?fs (br_db_path (branch_at 1 [''a''])) = Some (text_db [(''1'', ''x'')])"
    "?fs (br_db_path (branch_at 2 [''b''])) = Some (text_db [(''1'', ''y'')])" by simp_all
  have S: "{(t, i). t \<in> set [MemoryRecord] \<and> (contents (text_db [(''1'', ''x'')]) t i \<noteq> None \<or>
      contents (text_db [(''1'', ''y'')]) t i \<noteq> None)} = {(MemoryRecord, ''1'')}"
    by (auto simp: text_db_contents)
  have "distinct [MemoryRecord]" by simp
  from diff_correct [OF sorted_order.hash_order_axioms ok fs this, of 0] obtain r where
    r: "diff sorted_list_of_set 0 ?fs (branch_at 1 [''a'']) (branch_at 2 [''b'']) (Some [MemoryRecord]) =
        Some (Inr r)"
    and d: "distinct (map (\<lambda>ed. (ed_entity_type ed, ed_entity_id ed)) (dr_entity_diffs r))"
    and s: "(\<lambda>ed. (ed_entity_type ed, ed_entity_id ed)) ` set (dr_entity_diffs r) = {(MemoryRecord, ''1'')}"
    and k: "\<forall>ed \<in> set (dr_entity_diffs r).
        describes (text_db [(''1'', ''x'')]) (text_db [(''1'', ''y'')]) ed"
    using S by auto
  have "length (dr_entity_diffs r) = 1" using distinct_card [OF d] s by simp
  moreover have "ed_diff_kind ed = Modified" if ed: "ed \<in> set (dr_entity_diffs r)" for ed
  proof -
    have "ed_entity_type ed = MemoryRecord \<and> ed_entity_id ed = ''1''" using s ed by auto
    moreover have "or_null [(''id'', JString ''1''), (''name'', JString ''x'')] ''name'' \<noteq>
        or_null [(''id'', JString ''1''), (''name'', JString ''y'')] ''name''"
      by (simp add: or_null_def obj_get_def)
    moreover have "describes (text_db [(''1'', ''x'')]) (text_db [(''1'', ''y'')]) ed" using k ed by blast
    ultimately show ?thesis
      unfolding describes_def text_db_contents by (auto split: if_splits)
  qed
  ultimately show ?thesis using r by blast
qed

text \<open>
  C40: the divergence score of a diff of fewer than 2^32 entities lies between 0 and 1; it is 0
  exactly when every entity is unchanged and 1 exactly when there are entities and none is.
\<close>

theorem divergence_score_bounds:
  assumes "hash_order ho" and "fs (br_db_path branch_a) = Some db_a"
    and "fs (br_db_path branch_b) = Some db_b"
    and "diff ho now fs branch_a branch_b types = Some (Inr r)" and "length (dr_entity_diffs r) < 2 ^ 32"
  shows "0 \<le> dr_divergence_score r \<and> dr_divergence_score r \<le> 1 \<and>
    (dr_divergence_score r = 0 \<longleftrightarrow> (\<forall>ed \<in> set (dr_entity_diffs r). ed_diff_kind ed = Unchanged)) \<and>
    (dr_divergence_score r = 1 \<longleftrightarrow>
       dr_entity_diffs r \<noteq> [] \<and> (\<forall>ed \<in> set (dr_entity_diffs r). ed_diff_kind ed \<noteq> Unchanged))"
proof -
  let ?eds = "dr_entity_diffs r"
  let ?c = "kinds Added ?eds + kinds Removed ?eds + kinds Modified ?eds"
  have eq: "dr_divergence_score r = (if ?eds = [] then 0 else real ?c / real (length ?eds))"
    using diff_eq [OF assms(1-3), of now types] assms(4) score_counted [OF _ assms(5)] by auto
  have c: "?c + kinds Unchanged ?eds = length ?eds" by (rule kinds_total)
  have all: "?c = 0 \<longleftrightarrow> (\<forall>ed \<in> set ?eds. ed_diff_kind ed = Unchanged)"
  proof -
    have "k = Unchanged \<longleftrightarrow> k \<noteq> Added \<and> k \<noteq> Removed \<and> k \<noteq> Modified" for k
      by (cases k) simp_all
    then show ?thesis unfolding add_is_0 kinds_zero by blast
  qed
  have none: "?c = length ?eds \<longleftrightarrow> (\<forall>ed \<in> set ?eds. ed_diff_kind ed \<noteq> Unchanged)"
    using c kinds_zero [of Unchanged ?eds] by linarith
  show ?thesis
  proof (cases "?eds = []")
    case False
    then have s: "dr_divergence_score r = real ?c / real (length ?eds)" and l: "0 < length ?eds"
      using eq by auto
    have "dr_divergence_score r = 0 \<longleftrightarrow> ?c = 0" using l unfolding s by (simp del: of_nat_add)
    moreover have "dr_divergence_score r = 1 \<longleftrightarrow> ?c = length ?eds"
      using l unfolding s by (simp add: divide_eq_eq del: of_nat_add)
    moreover have "0 \<le> dr_divergence_score r" "dr_divergence_score r \<le> 1"
      using c l unfolding s by (simp_all add: divide_le_eq_1 del: of_nat_add)
    ultimately show ?thesis using all none False by simp
  qed (simp add: eq)
qed

lemma fetch_empty: "fetch_all_entities (text_db []) t = []"
  by (simp add: fetch_all_entities_def text_db_def obj_of_list_def)

theorem divergence_score_bounds_witness:
  "\<exists>r. diff sorted_list_of_set 0 (files_ab (text_db []) (text_db [])) (branch_at 1 [''a'']) (branch_at 2 [''a'']) None =
         Some (Inr r) \<and> dr_divergence_score r = 0"
proof -
  let ?fs = "files_ab (text_db []) (text_db [])"
  have fs: "?fs (br_db_path (branch_at 1 [''a''])) = Some (text_db [])"
    "?fs (br_db_path (branch_at 2 [''a''])) = Some (text_db [])" by simp_all
  from diff_eq [OF sorted_order.hash_order_axioms fs, of 0 None] obtain r where
    r: "diff sorted_list_of_set 0 ?fs (branch_at 1 [''a'']) (branch_at 2 [''a'']) None = Some (Inr r)"
      "dr_entity_diffs r = []"
    by (auto simp: all_entity_types_def type_diffs_def visited_ids_def fetch_empty obj_keys_def)
  from divergence_score_bounds [OF sorted_order.hash_order_axioms fs r(1)] r show ?thesis by auto
qed

text \<open>
  a field level diff is a patch. Writing the \<open>after\<close> values of the fields that
  \<open>compare_entity_values\<close> reports over the first object makes every field read as in the second.
\<close>

theorem compare_patch_roundtrip:
  assumes "hash_order ho" and "obj_ok a"
  shows "or_null (patch (ed_field_diffs (compare_entity_values ho i t (JObject a) (JObject b))) a) f = or_null b f"
  by (rule compare_patch [OF assms])

theorem compare_patch_roundtrip_witness:
  "or_null (patch (ed_field_diffs (compare_entity_values sorted_list_of_set ''1'' Session
      (JObject [(''n'', JNull)]) (JObject [(''n'', JBool True)]))) [(''n'', JNull)]) ''n'' = JBool True"
proof -
  have "obj_ok [(''n'', JNull)]" by (simp add: obj_ok_def)
  from compare_patch_roundtrip [OF sorted_order.hash_order_axioms this,
      of "''1''" Session "[(''n'', JBool True)]" "''n''"]
  show ?thesis by (simp add: or_null_def obj_get_def)
qed

text \<open>
  The similarity of two JSON values lies between 0 and 1 whatever they are nested like, given
  only that the character diff ratio does; the recursion over nested objects ends; equal values
  have similarity 1.
\<close>

theorem field_similarity_bounds:
  assumes "\<And>x y. 0 \<le> so_ratio S x y \<and> so_ratio S x y \<le> 1"
  shows "0 \<le> score_field_similarity ho S a b \<and> score_field_similarity ho S a b \<le> 1 \<and>
    score_field_similarity ho S a a = 1"
proof -
  have "0 \<le> score_field_similarity ho S a b \<and> score_field_similarity ho S a b \<le> 1"
    using assms
  proof (induction ho S a b rule: score_field_similarity.induct)
    case (1 ho S a b)
    show ?case
    proof (cases "\<exists>oa ob. a = JObject oa \<and> b = JObject ob \<and> a \<noteq> b")
      case True
      then obtain oa ob where ab: "a = JObject oa" "b = JObject ob" "a \<noteq> b" by blast
      let ?K = "ho (set (obj_keys oa) \<union> set (obj_keys ob))"
      let ?f = "\<lambda>k. score_field_similarity ho S (or_null oa k) (or_null ob k)"
      have "0 \<le> ?f k \<and> ?f k \<le> 1" if "k \<in> set ?K" for k
        using 1(1) [OF ab(3) refl ab(1,2) refl _ that 1(2)] that by (metis empty_iff list.set(1))
      then have "0 \<le> sum_list (map ?f ?K) \<and> sum_list (map ?f ?K) \<le> real (length ?K)"
        by (rule sum_list_bounds)
      then show ?thesis
        using ab by (subst score_field_similarity.simps, subst (2) score_field_similarity.simps)
          (auto simp: Let_def divide_le_eq_1)
    next
      case False
      then show ?thesis
        using 1(2) clamp01_bounds array_jaccard_bounds
        by (subst score_field_similarity.simps, subst (2) score_field_similarity.simps)
          (auto simp: string_similarity_def numeric_similarity_def Let_def split: json.splits)
    qed
  qed
  then show ?thesis by (simp add: score_field_similarity.simps [of _ _ a a])
qed

definition flat_similarity :: similarity_ops where
  "flat_similarity = \<lparr>so_ratio = (\<lambda>_ _. 1 / 2), so_as_f64 = (\<lambda>_. None), so_to_string = (\<lambda>_. [])\<rparr>"

theorem field_similarity_bounds_witness:
  "score_field_similarity sorted_list_of_set flat_similarity (JString ''ab'') (JString ''ac'') \<le> 1"
  using field_similarity_bounds [of flat_similarity sorted_list_of_set "JString ''ab''" "JString ''ac''"]
  by (simp add: flat_similarity_def)

end
