(* ===== verification/Merge.thy ===== *)
theory Merge
  imports Diff
begin

text \<open>
  \<open>src/merge/strategies.rs\<close>, \<open>conflict.rs\<close>, \<open>resolver.rs\<close> and \<open>applier.rs\<close>: the strategies, the
  detection of field conflicts, their resolution with the JSON union, and the application of the
  resolved changes to a branch database in one transaction.
\<close>

section \<open>Strategies and resolutions\<close>

datatype merge_strategy =
    Ours
  | Theirs
  | Union
  | FieldLevel "(string \<times> merge_strategy) list"
  | Manual

fun strategy_for_entity_type :: "entity_type \<Rightarrow> merge_strategy" where
  "strategy_for_entity_type MemoryRecord = FieldLevel []"
| "strategy_for_entity_type Session = Ours"
| "strategy_for_entity_type ToolOutput = Theirs"

datatype resolved_value = UseOurs | UseTheirs | MergedValue json | Escalate

section \<open>Conflicts\<close>

definition changes_of :: "entity_diff \<Rightarrow> (string \<times> json) list" where
  "changes_of ed = obj_of_list (map (\<lambda>fd. (fd_field fd, fd_after fd)) (ed_field_diffs ed))"

definition value_get :: "json \<Rightarrow> string \<Rightarrow> json option" where
  "value_get v field = (case v of JObject m \<Rightarrow> obj_get m field | _ \<Rightarrow> None)"

definition detect_conflicts ::
    "(string set \<Rightarrow> string list) \<Rightarrow> entity_diff \<Rightarrow> entity_diff \<Rightarrow> json \<Rightarrow> merge_conflict list" where
  "detect_conflicts ho ours_diff theirs_diff base_entity =
     (if ed_entity_id ours_diff \<noteq> ed_entity_id theirs_diff then []
      else
        let ours_changes = changes_of ours_diff;
            theirs_changes = changes_of theirs_diff
        in concat (map (\<lambda>field.
             case (obj_get ours_changes field, obj_get theirs_changes field) of
               (Some ours_after, Some theirs_after) \<Rightarrow>
                 if ours_after \<noteq> theirs_after
                 then [\<lparr>mc_entity_id = ed_entity_id ours_diff,
                        mc_entity_type = ed_entity_type ours_diff,
                        mc_base_value = (case value_get base_entity field of Some v \<Rightarrow> v | None \<Rightarrow> JNull),
                        mc_ours_value = ours_after, mc_theirs_value = theirs_after,
                        mc_conflicting_fields = [field]\<rparr>]
                 else []
             | _ \<Rightarrow> [])
           (ho (set (obj_keys ours_changes)))))"

definition is_trivially_resolvable :: "merge_conflict \<Rightarrow> bool" where
  "is_trivially_resolvable c \<longleftrightarrow> mc_ours_value c = mc_theirs_value c"

section \<open>The JSON union\<close>

text \<open>\<open>str::parse::<i64>\<close>: an optional sign, at least one digit, only digits, in range.\<close>

definition is_digit :: "char \<Rightarrow> bool" where
  "is_digit c \<longleftrightarrow> 48 \<le> (of_char c :: nat) \<and> (of_char c :: nat) \<le> 57"

definition parse_i64 :: "string \<Rightarrow> int option" where
  "parse_i64 s =
     (let neg = (s \<noteq> [] \<and> hd s = CHR ''-'');
          digits = (if s \<noteq> [] \<and> (hd s = CHR ''-'' \<or> hd s = CHR ''+'') then tl s else s)
      in if digits = [] \<or> \<not> list_all is_digit digits then None
         else
           let n = int (read_nat digits); v = (if neg then - n else n)
           in if - (2 ^ 63) \<le> v \<and> v < 2 ^ 63 then Some v else None)"

definition extract_timestamp :: "(string \<times> json) list \<Rightarrow> int option" where
  "extract_timestamp object =
     (case obj_get object ''updated_at'' of
        Some (JNumber number) \<Rightarrow> as_i64 number
      | Some (JString timestamp) \<Rightarrow> parse_i64 timestamp
      | _ \<Rightarrow> None)"

definition same_identity :: "json \<Rightarrow> json \<Rightarrow> bool" where
  "same_identity left right =
     (case (left, right) of
        (JObject left_obj, JObject right_obj) \<Rightarrow>
          (case (obj_get left_obj ''id'', obj_get right_obj ''id'') of
             (Some left_id, Some right_id) \<Rightarrow> left_id = right_id
           | _ \<Rightarrow> left = right)
      | _ \<Rightarrow> left = right)"

definition opt_or :: "'a option \<Rightarrow> 'a option \<Rightarrow> 'a option" where
  "opt_or a b = (case a of Some x \<Rightarrow> Some x | None \<Rightarrow> b)"

definition first_match :: "json \<Rightarrow> json list \<Rightarrow> nat option" where
  "first_match item xs = find (\<lambda>i. same_identity item (xs ! i)) [0..<length xs]"

definition unconsumed :: "json list \<Rightarrow> json list \<Rightarrow> json list" where
  "unconsumed ours_array theirs_array =
     (let consumed_theirs = map (\<lambda>item. first_match item theirs_array) ours_array
      in map (nth theirs_array)
           (filter (\<lambda>i. Some i \<notin> set consumed_theirs) [0..<length theirs_array]))"

definition add_missing :: "(string \<times> json) list \<Rightarrow> (string \<times> json) list \<Rightarrow> (string \<times> json) list" where
  "add_missing theirs_obj merged =
     fold (\<lambda>(k, v) m. if obj_get m k \<noteq> None then m else obj_insert k v m) theirs_obj merged"

definition scalar_union :: "int option \<Rightarrow> int option \<Rightarrow> json \<Rightarrow> json \<Rightarrow> json" where
  "scalar_union ours_ts theirs_ts ours theirs =
     (let ours_timestamp = (case ours_ts of Some t \<Rightarrow> t | None \<Rightarrow> 0);
          theirs_timestamp = (case theirs_ts of Some t \<Rightarrow> t | None \<Rightarrow> 0)
      in if theirs_timestamp \<ge> ours_timestamp then theirs else ours)"

function merge_union :: "json \<Rightarrow> json \<Rightarrow> int option \<Rightarrow> int option \<Rightarrow> json" where
  "merge_union ours theirs ours_ts theirs_ts =
     (case (ours, theirs) of
        (JObject ours_obj, JObject theirs_obj) \<Rightarrow>
          (let ours_timestamp = opt_or (extract_timestamp ours_obj) ours_ts;
               theirs_timestamp = opt_or (extract_timestamp theirs_obj) theirs_ts;
               merged = obj_of_list (map (\<lambda>(key, ours_value).
                 (key,
                  case obj_get theirs_obj key of
                    Some theirs_value \<Rightarrow>
                      merge_union ours_value theirs_value ours_timestamp theirs_timestamp
                  | None \<Rightarrow> ours_value)) ours_obj)
           in JObject (add_missing theirs_obj merged))
      | (JArray ours_array, JArray theirs_array) \<Rightarrow>
          JArray (map (\<lambda>ours_item.
             case first_match ours_item theirs_array of
               Some index \<Rightarrow> merge_union ours_item (theirs_array ! index) ours_ts theirs_ts
             | None \<Rightarrow> ours_item) ours_array @
           unconsumed ours_array theirs_array)
      | (JNull, v) \<Rightarrow> v
      | (v, JNull) \<Rightarrow> v
      | _ \<Rightarrow> scalar_union ours_ts theirs_ts ours theirs)"
  by pat_completeness auto

termination
  by (relation "measure (\<lambda>(a, b, _). size a)")
    (auto dest: size_in_obj size_in_array simp del: json.size)

declare merge_union.simps [simp del]

definition merge_json_union :: "json \<Rightarrow> json \<Rightarrow> json" where
  "merge_json_union ours theirs = merge_union ours theirs None None"

section \<open>Resolution\<close>

lemma size_in_field_map: "map_of m f = Some s \<Longrightarrow> size s < size (FieldLevel m)"
  by (induction m) (auto split: if_splits)

function resolve :: "merge_conflict \<Rightarrow> merge_strategy \<Rightarrow> resolved_value branch_result" where
  "resolve conflict strategy =
     (if is_trivially_resolvable conflict then Inr (MergedValue (mc_ours_value conflict))
      else case strategy of
        Ours \<Rightarrow> Inr UseOurs
      | Theirs \<Rightarrow> Inr UseTheirs
      | Union \<Rightarrow>
          Inr (MergedValue (merge_json_union (mc_ours_value conflict) (mc_theirs_value conflict)))
      | FieldLevel field_map \<Rightarrow>
          (case (case mc_conflicting_fields conflict of
                   [] \<Rightarrow> None | f # _ \<Rightarrow> map_of field_map f) of
             Some field_strategy \<Rightarrow> resolve conflict field_strategy
           | None \<Rightarrow> resolve conflict Union)
      | Manual \<Rightarrow> Inr Escalate)"
  by pat_completeness auto

termination
  by (relation "measure (\<lambda>(_, s). size s)")
    (auto dest: size_in_field_map simp del: merge_strategy.size split: list.splits, simp_all)

declare resolve.simps [simp del]

definition resolve_batch ::
    "merge_conflict list \<Rightarrow> merge_strategy \<Rightarrow> (merge_conflict \<times> resolved_value) list branch_result" where
  "resolve_batch conflicts strategy =
     res_mapM (\<lambda>c. res_bind (resolve c strategy) (\<lambda>r. Inr (c, r))) conflicts"

section \<open>Application\<close>

text \<open>The texts \<open>serde_json\<close> prints for a number and for an array or object are arguments.\<close>

record json_printer =
  jp_number :: "number \<Rightarrow> string"
  jp_value :: "json \<Rightarrow> string"

fun json_to_sqlite_str :: "json_printer \<Rightarrow> json \<Rightarrow> string option" where
  "json_to_sqlite_str J JNull = None"
| "json_to_sqlite_str J (JBool b) = Some (if b then ''1'' else ''0'')"
| "json_to_sqlite_str J (JNumber n) = Some (jp_number J n)"
| "json_to_sqlite_str J (JString s) = Some s"
| "json_to_sqlite_str J v = Some (jp_value J v)"

text \<open>The columns of the statement with what is bound to them; \<open>id\<close> comes first.\<close>

definition build_upsert_sql ::
    "json_printer \<Rightarrow> string \<Rightarrow> (string \<times> json) list \<Rightarrow> (string \<times> string option) list" where
  "build_upsert_sql J entity_id obj =
     (''id'', json_to_sqlite_str J (JString entity_id)) #
     map (\<lambda>(k, v). (k, json_to_sqlite_str J v)) (filter (\<lambda>(k, v). k \<noteq> ''id'') obj)"

definition upsert_entity ::
    "json_printer \<Rightarrow> branch_db \<Rightarrow> entity_type \<Rightarrow> string \<Rightarrow> json \<Rightarrow> branch_db branch_result" where
  "upsert_entity J db t entity_id v =
     (case as_object v of
        Some obj \<Rightarrow> exec_replace db t entity_id (build_upsert_sql J entity_id obj)
      | None \<Rightarrow> Inr db)"

definition apply_value ::
    "json_printer \<Rightarrow> branch_db \<Rightarrow> entity_type \<Rightarrow> entity_diff \<Rightarrow> json \<Rightarrow> branch_db branch_result" where
  "apply_value J db entity_type d v =
     (case ed_diff_kind d of
        Removed \<Rightarrow> exec_delete db entity_type (ed_entity_id d)
      | _ \<Rightarrow> upsert_entity J db entity_type (ed_entity_id d) v)"

definition reconstruct_from_field_diffs :: "entity_diff \<Rightarrow> json" where
  "reconstruct_from_field_diffs d =
     JObject (fold (\<lambda>fd obj. obj_insert (fd_field fd) (fd_after fd) obj) (ed_field_diffs d)
       (obj_insert ''id'' (JString (ed_entity_id d)) []))"

definition apply_change ::
    "json_printer \<Rightarrow> branch_db \<Rightarrow> entity_type \<Rightarrow> entity_diff \<Rightarrow> resolved_value \<Rightarrow> branch_db branch_result" where
  "apply_change J db entity_type d resolved =
     (case resolved of
        UseOurs \<Rightarrow> Inr db
      | Escalate \<Rightarrow> Inl (MergeConflictUnresolved [ed_entity_id d])
      | UseTheirs \<Rightarrow> apply_value J db entity_type d (reconstruct_from_field_diffs d)
      | MergedValue v \<Rightarrow> apply_value J db entity_type d v)"

text \<open>
  \<open>apply_batch\<close>: one transaction. The state threaded is the database inside it and the count; an
  error drops the transaction, so the database is the one from before.
\<close>

definition batch_step ::
    "json_printer \<Rightarrow> branch_db \<times> u32 \<Rightarrow> entity_diff \<times> resolved_value \<Rightarrow> (branch_db \<times> u32) branch_result" where
  "batch_step J st ch =
     (case (st, ch) of ((tx, count), (d, resolved)) \<Rightarrow>
        (case resolved of
           UseOurs \<Rightarrow> Inr (tx, count)
         | Escalate \<Rightarrow> Inl (MergeConflictUnresolved [ed_entity_id d])
         | UseTheirs \<Rightarrow>
             res_bind (apply_value J tx (ed_entity_type d) d (reconstruct_from_field_diffs d))
               (\<lambda>tx. Inr (tx, count + 1))
         | MergedValue v \<Rightarrow>
             res_bind (apply_value J tx (ed_entity_type d) d v) (\<lambda>tx. Inr (tx, count + 1))))"

definition apply_batch ::
    "json_printer \<Rightarrow> branch_db \<Rightarrow> (entity_diff \<times> resolved_value) list \<Rightarrow> branch_db \<times> u32 branch_result" where
  "apply_batch J db changes =
     (case res_foldM (batch_step J) (db, 0) changes of
        Inl e \<Rightarrow> (db, Inl e)
      | Inr (tx, count) \<Rightarrow> (tx, Inr count))"

section \<open>Facts about the union\<close>

lemma merge_union_object:
  "merge_union (JObject a) (JObject b) ta tb =
     JObject (add_missing b (obj_of_list (map (\<lambda>(key, v).
       (key, case obj_get b key of
          Some w \<Rightarrow> merge_union v w (opt_or (extract_timestamp a) ta) (opt_or (extract_timestamp b) tb)
        | None \<Rightarrow> v)) a)))"
  by (simp add: merge_union.simps [of "JObject a"] Let_def)

lemma merge_union_array:
  "merge_union (JArray a) (JArray b) ta tb =
     JArray (map (\<lambda>item. case first_match item b of
         Some index \<Rightarrow> merge_union item (b ! index) ta tb | None \<Rightarrow> item) a @ unconsumed a b)"
  by (simp add: merge_union.simps [of "JArray a"])

lemma merge_union_null: "merge_union JNull v ta tb = v" "merge_union v JNull ta tb = v"
  by (simp_all add: merge_union.simps split: json.split)

lemma add_missing_ok: "obj_ok m \<Longrightarrow> obj_ok (add_missing ps m)"
  unfolding add_missing_def by (induction ps arbitrary: m) auto

lemma add_missing_get:
  "obj_ok m \<Longrightarrow> obj_get (add_missing ps m) k =
     (case obj_get m k of Some v \<Rightarrow> Some v | None \<Rightarrow> map_of ps k)"
proof (induction ps arbitrary: m)
  case Nil
  then show ?case by (simp add: add_missing_def split: option.split)
next
  case (Cons p ps)
  obtain k' v where p: "p = (k', v)" by force
  show ?case
  proof (cases "obj_get m k' = None")
    case True
    then have "add_missing (p # ps) m = add_missing ps (obj_insert k' v m)"
      by (simp add: add_missing_def p)
    with Cons True show ?thesis
      by (auto simp: p obj_get_insert split: option.split)
  next
    case False
    then have "add_missing (p # ps) m = add_missing ps m" by (simp add: add_missing_def p)
    with Cons False show ?thesis by (auto simp: p split: option.split)
  qed
qed

lemma map_of_map_key: "map_of (map (\<lambda>(k, v). (k, g k v)) ps) k = map_option (g k) (map_of ps k)"
  by (induction ps) auto

lemma map_of_filter_key: "Q k \<Longrightarrow> map_of (filter (\<lambda>(a, b). Q a) ps) k = map_of ps k"
  by (induction ps) auto

text \<open>The fields of the union of two objects.\<close>

definition union_object :: "(string \<times> json) list \<Rightarrow> (string \<times> json) list \<Rightarrow> int option \<Rightarrow> int option \<Rightarrow> (string \<times> json) list" where
  "union_object a b ta tb = the (as_object (merge_union (JObject a) (JObject b) ta tb))"

lemma union_object_get:
  assumes "obj_ok a" and "obj_ok b"
  shows "merge_union (JObject a) (JObject b) ta tb = JObject (union_object a b ta tb)"
    and "obj_ok (union_object a b ta tb)"
    and "obj_get (union_object a b ta tb) k =
      (case (obj_get a k, obj_get b k) of
         (Some v, Some w) \<Rightarrow>
           Some (merge_union v w (opt_or (extract_timestamp a) ta) (opt_or (extract_timestamp b) tb))
       | (Some v, None) \<Rightarrow> Some v
       | (None, Some w) \<Rightarrow> Some w
       | (None, None) \<Rightarrow> None)"
proof -
  let ?f = "\<lambda>(key, v). (key, case obj_get b key of
      Some w \<Rightarrow> merge_union v w (opt_or (extract_timestamp a) ta) (opt_or (extract_timestamp b) tb)
    | None \<Rightarrow> v)"
  let ?m = "obj_of_list (map ?f a)"
  have u: "union_object a b ta tb = add_missing b ?m"
    by (simp add: union_object_def merge_union_object)
  show "merge_union (JObject a) (JObject b) ta tb = JObject (union_object a b ta tb)"
    by (simp add: u merge_union_object)
  show "obj_ok (union_object a b ta tb)" by (simp add: u add_missing_ok)
  have keys: "map fst (map ?f a) = map fst a" by (simp add: case_prod_unfold)
  have "map_of (rev (map ?f a)) = map_of (map ?f a)"
    using obj_ok_distinct [OF assms(1)] by (intro map_of_rev) (simp only: keys)
  moreover have "map_of (map ?f a) k = map_option (\<lambda>v. snd (?f (k, v))) (map_of a k)"
    by (simp add: map_of_map_key)
  ultimately have "obj_get ?m k = map_option (\<lambda>v. snd (?f (k, v))) (obj_get a k)"
    unfolding obj_get_of_list obj_get_def [of a] by simp
  then show "obj_get (union_object a b ta tb) k =
      (case (obj_get a k, obj_get b k) of
         (Some v, Some w) \<Rightarrow>
           Some (merge_union v w (opt_or (extract_timestamp a) ta) (opt_or (extract_timestamp b) tb))
       | (Some v, None) \<Rightarrow> Some v
       | (None, Some w) \<Rightarrow> Some w
       | (None, None) \<Rightarrow> None)"
    unfolding u add_missing_get [OF obj_ok_of_list] obj_get_def [of b, symmetric]
    by (simp split: option.split)
qed

text \<open>
  The values \<open>serde_json\<close> builds have their objects sorted by key; in an array with distinct
  identities no two elements are the same entity.
\<close>

function distinct_identities :: "json \<Rightarrow> bool" where
  "distinct_identities (JObject m) \<longleftrightarrow> (\<forall>(k, v) \<in> set m. distinct_identities v)"
| "distinct_identities (JArray xs) \<longleftrightarrow>
     (\<forall>x \<in> set xs. distinct_identities x) \<and>
     (\<forall>i < length xs. \<forall>j < length xs. same_identity (xs ! i) (xs ! j) \<longrightarrow> i = j)"
| "distinct_identities JNull \<longleftrightarrow> True"
| "distinct_identities (JBool b) \<longleftrightarrow> True"
| "distinct_identities (JNumber n) \<longleftrightarrow> True"
| "distinct_identities (JString s) \<longleftrightarrow> True"
  by pat_completeness auto

termination
  by (relation "measure size") (auto dest: size_in_obj size_in_array simp del: json.size)

lemma same_identity_refl [simp]: "same_identity v v"
  by (simp add: same_identity_def split: json.split option.split)

lemma find_upt_first:
  assumes "i < n" and "Q i" and "\<And>j. j < i \<Longrightarrow> \<not> Q j"
  shows "find Q [0..<n] = Some i"
  unfolding find_Some_iff using assms by (intro exI [of _ i]) auto

lemma first_match_self:
  assumes "distinct_identities (JArray xs)" and "i < length xs"
  shows "first_match (xs ! i) xs = Some i"
  unfolding first_match_def
proof (rule find_upt_first)
  fix j assume "j < i"
  then have "j < length xs" "i \<noteq> j" using assms(2) by auto
  with assms show "\<not> same_identity (xs ! i) (xs ! j)" by (metis distinct_identities.simps(2))
qed (use assms in auto)

lemma merge_union_self:
  "json_ok v \<Longrightarrow> distinct_identities v \<Longrightarrow> merge_union v v ta tb = v"
proof (induction "size v" arbitrary: v ta tb rule: less_induct)
  case less
  show ?case
  proof (cases v)
    case (JObject m)
    have ok: "obj_ok m" using less.prems JObject by simp
    let ?u = "union_object m m ta tb"
    note U = union_object_get [OF ok ok, of ta tb]
    have "obj_get ?u k = obj_get m k" for k
    proof (cases "obj_get m k")
      case (Some w)
      then have kw: "(k, w) \<in> set m" by (rule obj_get_in)
      then have "size w < size v" using JObject size_in_obj by blast
      moreover have "json_ok w" "distinct_identities w" using less.prems JObject kw by auto
      ultimately show ?thesis using less.hyps U(3) [of k] Some by simp
    qed (simp add: U(3))
    then have "?u = m" using U(2) ok by (intro obj_ext)
    then show ?thesis using U(1) JObject by simp
  next
    case (JArray xs)
    have f: "first_match (xs ! i) xs = Some i" if "i < length xs" for i
      using first_match_self less.prems(2) JArray that by simp
    have item: "(case first_match x xs of Some index \<Rightarrow> merge_union x (xs ! index) ta tb | None \<Rightarrow> x) = x"
      if x: "x \<in> set xs" for x
    proof -
      obtain i where i: "i < length xs" "x = xs ! i" using x by (metis in_set_conv_nth)
      have "size x < size v" using JArray x size_in_array by blast
      moreover have "json_ok x" "distinct_identities x" using less.prems JArray x by auto
      ultimately show ?thesis using less.hyps f [OF i(1)] i(2) by simp
    qed
    have "unconsumed xs xs = []"
    proof -
      have "Some i \<in> set (map (\<lambda>item. first_match item xs) xs)" if "i < length xs" for i
        using f [OF that] that by (metis (no_types, lifting) image_eqI list.set_map nth_mem)
      then show ?thesis by (simp add: unconsumed_def filter_empty_conv)
    qed
    then show ?thesis using JArray item by (simp add: merge_union_array map_idI)
  qed (simp_all add: merge_union.simps scalar_union_def Let_def)
qed

section \<open>Facts about conflicts\<close>

lemma changes_of_get:
  assumes "distinct (map fd_field (ed_field_diffs ed))"
  shows "obj_get (changes_of ed) f = Some v \<longleftrightarrow>
    (\<exists>fd \<in> set (ed_field_diffs ed). fd_field fd = f \<and> fd_after fd = v)"
proof -
  let ?ps = "map (\<lambda>fd. (fd_field fd, fd_after fd)) (ed_field_diffs ed)"
  have d: "distinct (map fst ?ps)" using assms by (simp add: comp_def)
  have "obj_get (changes_of ed) f = map_of ?ps f"
    by (simp add: changes_of_def obj_get_of_list map_of_rev [OF d])
  then show ?thesis using map_of_eq_Some_iff [OF d] by auto
qed

definition conflict_on :: "entity_diff \<Rightarrow> json \<Rightarrow> string \<Rightarrow> json \<Rightarrow> json \<Rightarrow> merge_conflict" where
  "conflict_on ours base f x y =
     \<lparr>mc_entity_id = ed_entity_id ours, mc_entity_type = ed_entity_type ours,
      mc_base_value = (case value_get base f of Some v \<Rightarrow> v | None \<Rightarrow> JNull),
      mc_ours_value = x, mc_theirs_value = y, mc_conflicting_fields = [f]\<rparr>"

lemma detect_conflicts_set:
  assumes ho: "hash_order ho" and id': "ed_entity_id ours = ed_entity_id theirs"
  shows "set (detect_conflicts ho ours theirs base) =
    {conflict_on ours base f x y |f x y.
       obj_get (changes_of ours) f = Some x \<and> obj_get (changes_of theirs) f = Some y \<and> x \<noteq> y}"
proof -
  have K: "set (ho (set (obj_keys (changes_of ours)))) = set (obj_keys (changes_of ours))"
    by (rule hash_order.set_it [OF ho]) simp
  have k: "f \<in> set (obj_keys (changes_of ours))" if "obj_get (changes_of ours) f = Some x" for f x
    using that obj_get_eq_None [of "changes_of ours" f] by auto
  define body where "body f = (case (obj_get (changes_of ours) f, obj_get (changes_of theirs) f) of
      (Some x, Some y) \<Rightarrow> if x \<noteq> y then [conflict_on ours base f x y] else [] | _ \<Rightarrow> [])" for f
  have eq: "detect_conflicts ho ours theirs base =
      concat (map body (ho (set (obj_keys (changes_of ours)))))"
    unfolding detect_conflicts_def conflict_on_def body_def Let_def using id' by simp
  have body: "c \<in> set (body f) \<longleftrightarrow> (\<exists>x y. obj_get (changes_of ours) f = Some x \<and>
      obj_get (changes_of theirs) f = Some y \<and> x \<noteq> y \<and> c = conflict_on ours base f x y)" for c f
    unfolding body_def
    by (cases "obj_get (changes_of ours) f"; cases "obj_get (changes_of theirs) f") auto
  have "c \<in> set (detect_conflicts ho ours theirs base) \<longleftrightarrow>
      (\<exists>f \<in> set (obj_keys (changes_of ours)). c \<in> set (body f))" for c
    by (simp add: eq K)
  moreover have "(\<exists>f \<in> set (obj_keys (changes_of ours)). c \<in> set (body f)) \<longleftrightarrow> (\<exists>f. c \<in> set (body f))" for c
    unfolding body using k by blast
  ultimately have "c \<in> set (detect_conflicts ho ours theirs base) \<longleftrightarrow> (\<exists>f. c \<in> set (body f))" for c
    by simp
  then show ?thesis unfolding body by blast
qed

text \<open>Two diffs against the same base conflict in the fields both changed, to different values.\<close>

lemma detect_conflicts_iff:
  assumes ho: "hash_order ho" and "ed_entity_id ours = ed_entity_id theirs"
    and "distinct (map fd_field (ed_field_diffs ours))" and "distinct (map fd_field (ed_field_diffs theirs))"
  shows "detect_conflicts ho ours theirs base = [] \<longleftrightarrow>
    (\<forall>fd \<in> set (ed_field_diffs ours). \<forall>fd' \<in> set (ed_field_diffs theirs).
       fd_field fd = fd_field fd' \<longrightarrow> fd_after fd = fd_after fd')"
proof -
  have "detect_conflicts ho ours theirs base = [] \<longleftrightarrow> set (detect_conflicts ho ours theirs base) = {}"
    by simp
  also have "\<dots> \<longleftrightarrow> \<not> (\<exists>f x y. obj_get (changes_of ours) f = Some x \<and>
      obj_get (changes_of theirs) f = Some y \<and> x \<noteq> y)"
    unfolding detect_conflicts_set [OF assms(1,2)] by auto
  also have "\<dots> \<longleftrightarrow> (\<forall>fd \<in> set (ed_field_diffs ours). \<forall>fd' \<in> set (ed_field_diffs theirs).
       fd_field fd = fd_field fd' \<longrightarrow> fd_after fd = fd_after fd')"
    unfolding changes_of_get [OF assms(3)] changes_of_get [OF assms(4)] by auto
  finally show ?thesis .
qed

lemma resolve_simps:
  assumes "\<not> is_trivially_resolvable c"
  shows "resolve c Ours = Inr UseOurs" "resolve c Theirs = Inr UseTheirs" "resolve c Manual = Inr Escalate"
    "resolve c Union = Inr (MergedValue (merge_json_union (mc_ours_value c) (mc_theirs_value c)))"
  using assms by (simp_all add: resolve.simps)

text \<open>The strategy a conflict is really resolved with: field maps are followed, and end in a union.\<close>

function effective :: "merge_conflict \<Rightarrow> merge_strategy \<Rightarrow> merge_strategy" where
  "effective c Ours = Ours"
| "effective c Theirs = Theirs"
| "effective c Union = Union"
| "effective c Manual = Manual"
| "effective c (FieldLevel m) =
     (case (case mc_conflicting_fields c of [] \<Rightarrow> None | f # _ \<Rightarrow> map_of m f) of
        Some s \<Rightarrow> effective c s | None \<Rightarrow> Union)"
  by pat_completeness auto

termination
  by (relation "measure (\<lambda>(_, s). size s)")
    (auto dest: size_in_field_map simp del: merge_strategy.size split: list.splits)

lemma effective_leaf: "effective c s \<in> {Ours, Theirs, Union, Manual}"
  by (induction c s rule: effective.induct) (auto split: option.splits list.splits)

lemma resolve_trivial: "is_trivially_resolvable c \<Longrightarrow> resolve c s = Inr (MergedValue (mc_ours_value c))"
  by (simp add: resolve.simps [of c s])

lemma resolve_FieldLevel:
  "\<not> is_trivially_resolvable c \<Longrightarrow> resolve c (FieldLevel m) =
     (case (case mc_conflicting_fields c of [] \<Rightarrow> None | f # _ \<Rightarrow> map_of m f) of
        Some s \<Rightarrow> resolve c s | None \<Rightarrow> resolve c Union)"
  by (simp add: resolve.simps [of c "FieldLevel m"])

lemma resolve_effective: "resolve c s = resolve c (effective c s)"
proof (cases "is_trivially_resolvable c")
  case True
  then show ?thesis by (simp add: resolve_trivial)
next
  case False
  then show ?thesis
  proof (induction c s rule: effective.induct)
    case (5 c m)
    let ?o = "case mc_conflicting_fields c of [] \<Rightarrow> None | f # _ \<Rightarrow> map_of m f"
    show ?case
    proof (cases ?o)
      case (Some s)
      then show ?thesis using 5 resolve_FieldLevel [OF 5(2), of m] by simp
    qed (simp add: resolve_FieldLevel [OF 5(2)])
  qed simp_all
qed

lemma resolve_total: "\<exists>r. resolve c s = Inr r"
  using effective_leaf [of c s] by (subst resolve_effective) (auto simp: resolve.simps)

lemma resolve_escalate_iff:
  "resolve c s = Inr Escalate \<longleftrightarrow> \<not> is_trivially_resolvable c \<and> effective c s = Manual"
  using effective_leaf [of c s] by (subst resolve_effective) (auto simp: resolve.simps)

lemma resolve_batch_eq:
  "resolve_batch cs s = Inr (map (\<lambda>c. (c, case resolve c s of Inr r \<Rightarrow> r)) cs)"
  unfolding resolve_batch_def
proof (rule res_mapM_all_Inr)
  fix c
  obtain r where "resolve c s = Inr r" using resolve_total by blast
  then show "res_bind (resolve c s) (\<lambda>r. Inr (c, r)) = Inr (c, case resolve c s of Inr r \<Rightarrow> r)" by simp
qed

section \<open>Facts about the application of a batch\<close>

definition writes :: "entity_diff \<times> resolved_value \<Rightarrow> entity_type \<Rightarrow> string \<Rightarrow> bool" where
  "writes ch t i \<longleftrightarrow> snd ch \<noteq> UseOurs \<and> ed_entity_type (fst ch) = t \<and> ed_entity_id (fst ch) = i"

lemma apply_value_frame:
  assumes "apply_value J db (ed_entity_type d) d v = Inr db'" and "db_ok db"
  shows "db_ok db'"
    and "(t, i) \<noteq> (ed_entity_type d, ed_entity_id d) \<Longrightarrow> contents db' t i = contents db t i"
proof -
  have "db_ok db' \<and> (\<forall>t i. (t, i) \<noteq> (ed_entity_type d, ed_entity_id d) \<longrightarrow> contents db' t i = contents db t i)"
  proof (cases "ed_diff_kind d = Removed")
    case True
    then have "exec_delete db (ed_entity_type d) (ed_entity_id d) = Inr db'"
      using assms(1) by (simp add: apply_value_def)
    from exec_delete_ok [OF this assms(2)] exec_delete_contents [OF this] show ?thesis by simp
  next
    case False
    then have "upsert_entity J db (ed_entity_type d) (ed_entity_id d) v = Inr db'"
      using assms(1) by (cases "ed_diff_kind d") (simp_all add: apply_value_def)
    then have u: "(case as_object v of
        Some obj \<Rightarrow> exec_replace db (ed_entity_type d) (ed_entity_id d)
          (build_upsert_sql J (ed_entity_id d) obj)
      | None \<Rightarrow> Inr db) = Inr db'" by (simp only: upsert_entity_def)
    show ?thesis
    proof (cases "as_object v")
      case None
      then show ?thesis using assms(2) u by (simp only: option.case) simp
    next
      case (Some obj)
      then have "exec_replace db (ed_entity_type d) (ed_entity_id d)
          (build_upsert_sql J (ed_entity_id d) obj) = Inr db'" using u by (simp only: option.case)
      from exec_replace_ok [OF this assms(2)] exec_replace_contents(1) [OF this assms(2)]
      show ?thesis by blast
    qed
  qed
  then show "db_ok db'"
    and "(t, i) \<noteq> (ed_entity_type d, ed_entity_id d) \<Longrightarrow> contents db' t i = contents db t i" by blast+
qed

lemma batch_step_frame:
  assumes "batch_step J (db, n) ch = Inr (db', n')" and "db_ok db"
  shows "db_ok db'" and "n' = (if snd ch = UseOurs then n else n + 1)" and "snd ch \<noteq> Escalate"
    and "\<not> writes ch t i \<Longrightarrow> contents db' t i = contents db t i"
proof -
  obtain d r where ch: "ch = (d, r)" by force
  have "db_ok db' \<and> n' = (if r = UseOurs then n else n + 1) \<and> r \<noteq> Escalate \<and>
      (\<forall>t i. \<not> writes (d, r) t i \<longrightarrow> contents db' t i = contents db t i)"
  proof (cases r)
    case UseOurs
    then show ?thesis using assms by (simp add: batch_step_def ch)
  next
    case UseTheirs
    then have "apply_value J db (ed_entity_type d) d (reconstruct_from_field_diffs d) = Inr db'" "n' = n + 1"
      using assms(1) by (auto simp: batch_step_def ch res_bind_eq_Inr)
    then show ?thesis using UseTheirs apply_value_frame [OF _ assms(2)] by (auto simp: writes_def)
  next
    case (MergedValue v)
    then have "apply_value J db (ed_entity_type d) d v = Inr db'" "n' = n + 1"
      using assms(1) by (auto simp: batch_step_def ch res_bind_eq_Inr)
    then show ?thesis using MergedValue apply_value_frame [OF _ assms(2)] by (auto simp: writes_def)
  next
    case Escalate
    then show ?thesis using assms(1) by (simp add: batch_step_def ch)
  qed
  then show "db_ok db'" and "n' = (if snd ch = UseOurs then n else n + 1)" and "snd ch \<noteq> Escalate"
    and "\<not> writes ch t i \<Longrightarrow> contents db' t i = contents db t i"
    by (auto simp: ch)
qed

lemma batch_frame:
  assumes "res_foldM (batch_step J) (db, n) chs = Inr (db', n')" and "db_ok db"
  shows "db_ok db' \<and> n' = n + of_nat (length (filter (\<lambda>ch. snd ch \<noteq> UseOurs) chs)) \<and>
    (\<forall>ch \<in> set chs. snd ch \<noteq> Escalate) \<and>
    (\<forall>t i. (\<forall>ch \<in> set chs. \<not> writes ch t i) \<longrightarrow> contents db' t i = contents db t i)"
  using assms
proof (induction chs arbitrary: db n)
  case (Cons ch chs)
  then obtain db1 n1 where step: "batch_step J (db, n) ch = Inr (db1, n1)"
    and rest: "res_foldM (batch_step J) (db1, n1) chs = Inr (db', n')"
    by (auto simp: res_bind_eq_Inr)
  note s = batch_step_frame [OF step Cons.prems(2)]
  from Cons.IH [OF rest s(1)] s(2-4) show ?case by (auto simp: algebra_simps)
qed simp

text \<open>The last change that writes an entity decides what it holds.\<close>

lemma batch_last:
  assumes "res_foldM (batch_step J) (db, n) (pre @ ch # post) = Inr (db', n')" and "db_ok db"
    and "\<forall>c \<in> set post. \<not> writes c t i"
  shows "\<exists>db1 n1 db2 n2. res_foldM (batch_step J) (db, n) pre = Inr (db1, n1) \<and> db_ok db1 \<and>
    batch_step J (db1, n1) ch = Inr (db2, n2) \<and> contents db' t i = contents db2 t i"
proof -
  obtain db1 n1 db2 n2 where
    1: "res_foldM (batch_step J) (db, n) pre = Inr (db1, n1)" and
    2: "batch_step J (db1, n1) ch = Inr (db2, n2)" and
    3: "res_foldM (batch_step J) (db2, n2) post = Inr (db', n')"
    using assms(1) by (auto simp: res_foldM_append res_bind_eq_Inr)
  have "db_ok db1" using batch_frame [OF 1 assms(2)] by simp
  moreover from batch_step_frame [OF 2 this] have "db_ok db2" by simp
  then have "contents db' t i = contents db2 t i" using batch_frame [OF 3] assms(3) by blast
  ultimately show ?thesis using 1 2 by blast
qed

lemma upsert_contents:
  assumes "db_ok db" and "upsert_entity J db t i (JObject obj) = Inr db'" and "db t = Some tb"
    and "c \<in> set (tb_columns tb)" and "c \<noteq> ''id''"
  shows "\<exists>data. contents db' t i = Some data \<and>
    (case map_of obj c of
       Some v \<Rightarrow> (\<exists>w. tb_cell tb c (json_to_sqlite_str J v) = Inr w \<and> obj_get data c = Some w)
     | None \<Rightarrow> (\<exists>w. tb_default tb c = Inr w \<and> obj_get data c = Some w))"
proof -
  let ?b = "build_upsert_sql J i obj"
  have run: "exec_replace db t i ?b = Inr db'" using assms(2) by (simp add: upsert_entity_def)
  from exec_replace_contents(2) [OF run assms(1)] assms(3) obtain data where
    d: "contents db' t i = Some data"
      "obj_get data c = (case stored_cell tb ?b c of Inr v \<Rightarrow> Some v | Inl _ \<Rightarrow> None)"
      "\<not> isl (stored_cell tb ?b c)"
    using assms(4) by auto
  have "map_of ?b c = map_option (json_to_sqlite_str J) (map_of obj c)"
    using assms(5) by (simp add: build_upsert_sql_def map_of_map_key map_of_filter_key)
  with d show ?thesis
    by (cases "map_of obj c") (auto simp: stored_cell_def split: sum.splits)
qed

lemma upsert_stored:
  assumes "upsert_entity J db t i (JObject obj) = Inr db'" and "db_ok db"
  shows "\<exists>data. contents db' t i = Some data"
proof -
  have "exec_replace db t i (build_upsert_sql J i obj) = Inr db'"
    using assms(1) by (simp add: upsert_entity_def)
  from exec_replace_contents(2) [OF this assms(2)] show ?thesis by blast
qed

text \<open>No statement changes the schema of a table.\<close>

definition schema :: "branch_db \<Rightarrow> entity_type \<Rightarrow> table option" where
  "schema db t = map_option (tb_rows_update (\<lambda>_. [])) (db t)"

lemma apply_value_schema: "apply_value J db t d v = Inr db' \<Longrightarrow> schema db' = schema db"
  by (auto simp: apply_value_def upsert_entity_def exec_delete_Inr exec_replace_Inr schema_def fun_eq_iff
      split: diff_kind.splits option.splits)

lemma batch_step_schema: "batch_step J st ch = Inr st' \<Longrightarrow> schema (fst st') = schema (fst st)"
  by (cases st; cases ch; cases "snd ch") (auto simp: batch_step_def res_bind_eq_Inr apply_value_schema)

lemma batch_schema: "res_foldM (batch_step J) st chs = Inr st' \<Longrightarrow> schema (fst st') = schema (fst st)"
  by (rule res_foldM_inv [where I = "\<lambda>s. schema (fst s) = schema (fst st)"])
    (simp, simp, metis batch_step_schema)

lemma schema_table:
  assumes "schema db' = schema db" and "db t = Some tb"
  obtains tb' where "db' t = Some tb'" and "tb_columns tb' = tb_columns tb"
    and "tb_cell tb' = tb_cell tb" and "tb_default tb' = tb_default tb"
proof -
  have "schema db' t = Some (tb\<lparr>tb_rows := []\<rparr>)" using assms by (simp add: schema_def)
  then obtain tb' where t: "db' t = Some tb'" "tb'\<lparr>tb_rows := []\<rparr> = tb\<lparr>tb_rows := []\<rparr>"
    by (auto simp: schema_def)
  from arg_cong [OF t(2), of tb_columns] arg_cong [OF t(2), of tb_cell] arg_cong [OF t(2), of tb_default]
  show ?thesis using that [OF t(1)] by simp
qed

section \<open>Properties\<close>



text \<open>
  the union is idempotent on every value in whose arrays no entity occurs twice, and \<open>null\<close> is
  neutral on both sides.
\<close>

theorem merge_json_union_idempotent:
  assumes "json_ok v" and "distinct_identities v"
  shows "merge_json_union v v = v \<and> merge_json_union JNull v = v \<and> merge_json_union v JNull = v"
  using merge_union_self [OF assms] by (simp add: merge_json_union_def merge_union_null)

theorem merge_json_union_idempotent_witness:
  "merge_json_union (JObject [(''tags'', JArray [JString ''x'', JString ''y''])])
     (JObject [(''tags'', JArray [JString ''x'', JString ''y''])]) =
   JObject [(''tags'', JArray [JString ''x'', JString ''y''])]"
proof -
  have "distinct_identities (JArray [JString ''x'', JString ''y''])"
    by (auto simp: same_identity_def less_Suc_eq)
  then show ?thesis
    using merge_json_union_idempotent [of "JObject [(''tags'', JArray [JString ''x'', JString ''y''])]"]
    by (simp add: obj_ok_def)
qed

text \<open>
  two diffs of the same entity conflict exactly when some field is changed by both, to different
  values; every reported conflict carries the two values and its single field, and each such field
  is reported.
\<close>

theorem detect_conflicts_correct:
  assumes "hash_order ho" and "ed_entity_id ours = ed_entity_id theirs"
    and "distinct (map fd_field (ed_field_diffs ours))" and "distinct (map fd_field (ed_field_diffs theirs))"
  shows "set (detect_conflicts ho ours theirs base) =
      {conflict_on ours base (fd_field fd) (fd_after fd) (fd_after fd') |fd fd'.
         fd \<in> set (ed_field_diffs ours) \<and> fd' \<in> set (ed_field_diffs theirs) \<and>
         fd_field fd = fd_field fd' \<and> fd_after fd \<noteq> fd_after fd'}"
proof -
  have "(\<exists>f x y. c = conflict_on ours base f x y \<and>
        (\<exists>fd \<in> set (ed_field_diffs ours). fd_field fd = f \<and> fd_after fd = x) \<and>
        (\<exists>fd' \<in> set (ed_field_diffs theirs). fd_field fd' = f \<and> fd_after fd' = y) \<and> x \<noteq> y) \<longleftrightarrow>
      (\<exists>fd fd'. c = conflict_on ours base (fd_field fd) (fd_after fd) (fd_after fd') \<and>
        fd \<in> set (ed_field_diffs ours) \<and> fd' \<in> set (ed_field_diffs theirs) \<and>
        fd_field fd = fd_field fd' \<and> fd_after fd \<noteq> fd_after fd')" for c
    by (auto; metis)
  then show ?thesis
    unfolding detect_conflicts_set [OF assms(1,2)] changes_of_get [OF assms(3)] changes_of_get [OF assms(4)]
    by simp
qed

definition one_field :: "string \<Rightarrow> json \<Rightarrow> json \<Rightarrow> entity_diff" where
  "one_field f x y = \<lparr>ed_entity_id = ''1'', ed_entity_type = MemoryRecord, ed_diff_kind = Modified,
     ed_field_diffs = [\<lparr>fd_field = f, fd_before = x, fd_after = y\<rparr>]\<rparr>"

theorem detect_conflicts_correct_witness:
  "detect_conflicts sorted_list_of_set (one_field ''n'' JNull (JBool True))
     (one_field ''n'' JNull (JBool False)) JNull \<noteq> []"
  using detect_conflicts_correct [OF sorted_order.hash_order_axioms,
      of "one_field ''n'' JNull (JBool True)" "one_field ''n'' JNull (JBool False)" JNull]
  by (auto simp: one_field_def)

text \<open>
  \<open>resolve\<close> never fails and follows nested field strategies to an end; a conflict is escalated
  exactly when the two sides differ and the strategy that applies to its field is \<open>Manual\<close> (the
  default of a field map is the union).
\<close>

theorem resolve_correct:
  "(\<exists>r. resolve c s = Inr r) \<and>
   (resolve c s = Inr Escalate \<longleftrightarrow> mc_ours_value c \<noteq> mc_theirs_value c \<and> effective c s = Manual)"
  using resolve_total resolve_escalate_iff by (auto simp: is_trivially_resolvable_def)

text \<open>
  C15: \<open>apply_batch\<close> is atomic: on an error the database is the one before. On success the database
  is still well-formed, no change was escalated, the count is the number of changes other than
  \<open>UseOurs\<close>, and an entity that no such change is about keeps its contents.
\<close>

theorem apply_batch_correct:
  assumes "db_ok db" and "apply_batch J db changes = (db', r)"
  shows "case r of
      Inl e \<Rightarrow> db' = db
    | Inr n \<Rightarrow> db_ok db' \<and> n = of_nat (length (filter (\<lambda>ch. snd ch \<noteq> UseOurs) changes)) \<and>
        (\<forall>ch \<in> set changes. snd ch \<noteq> Escalate) \<and>
        (\<forall>t i. (\<forall>ch \<in> set changes. \<not> writes ch t i) \<longrightarrow> contents db' t i = contents db t i)"
proof (cases "res_foldM (batch_step J) (db, 0) changes")
  case (Inl e)
  then show ?thesis using assms(2) by (auto simp: apply_batch_def)
next
  case (Inr p)
  obtain tx n where p: "p = (tx, n)" by force
  then have "res_foldM (batch_step J) (db, 0) changes = Inr (tx, n)" using Inr by simp
  from batch_frame [OF this assms(1)] show ?thesis
    using assms(2) Inr p by (auto simp: apply_batch_def)
qed

definition plain_printer :: json_printer where
  "plain_printer = \<lparr>jp_number = (\<lambda>_. []), jp_value = (\<lambda>_. [])\<rparr>"

theorem apply_batch_correct_witness:
  "\<exists>db'. apply_batch plain_printer (text_db [(''1'', ''x'')]) [(one_field ''n'' JNull JNull, UseOurs)] = (db', Inr 0) \<and>
     contents db' MemoryRecord ''1'' = contents (text_db [(''1'', ''x'')]) MemoryRecord ''1''"
proof -
  let ?b = "apply_batch plain_printer (text_db [(''1'', ''x'')]) [(one_field ''n'' JNull JNull, UseOurs)]"
  have ok: "db_ok (text_db [(''1'', ''x'')])" by (rule text_db_ok) simp
  have b: "?b = (text_db [(''1'', ''x'')], Inr 0)" by (simp add: apply_batch_def batch_step_def)
  from apply_batch_correct [OF ok b] b show ?thesis by simp
qed

text \<open>
  C30: an upsert replaces the whole row: after a successful application of an object, a column the
  object does not mention holds the column's default, whatever the entity had there before, and a
  mentioned one what was bound to it.
\<close>

theorem upsert_resets_unlisted_columns:
  assumes "db_ok db" and "upsert_entity J db t i (JObject obj) = Inr db'" and "db t = Some tb"
    and "c \<in> set (tb_columns tb)" and "c \<noteq> ''id''"
  shows "\<exists>data. contents db' t i = Some data \<and>
    (case map_of obj c of
       Some v \<Rightarrow> (\<exists>w. tb_cell tb c (json_to_sqlite_str J v) = Inr w \<and> obj_get data c = Some w)
     | None \<Rightarrow> (\<exists>w. tb_default tb c = Inr w \<and> obj_get data c = Some w))"
  using assms by (rule upsert_contents)

theorem upsert_resets_unlisted_columns_witness:
  "\<exists>db' data. upsert_entity plain_printer (text_db [(''1'', ''x'')]) MemoryRecord ''1'' (JObject []) = Inr db' \<and>
     contents db' MemoryRecord ''1'' = Some data \<and> obj_get data ''name'' = Some JNull"
proof -
  let ?db = "text_db [(''1'', ''x'')]"
  have ok: "db_ok ?db" by (rule text_db_ok) simp
  obtain tb where tb: "?db MemoryRecord = Some tb" "tb_columns tb = [''id'', ''name'']"
    "tb_cell tb = (\<lambda>c a. Inr (text_cell a))" "tb_default tb = (\<lambda>c. Inr JNull)"
    by (simp add: text_db_def)
  then obtain db' where run: "upsert_entity plain_printer ?db MemoryRecord ''1'' (JObject []) = Inr db'"
    by (auto simp: upsert_entity_def exec_replace_def build_upsert_sql_def stored_cell_def)
  from upsert_resets_unlisted_columns [OF ok run tb(1), of "''name''"] tb
  show ?thesis using run by auto
qed

end
