(* ===== verification/ThreeWay.thy ===== *)
theory ThreeWay
  imports Merge
begin

text \<open>
  \<open>src/merge/three_way.rs\<close>: the three-way merge of a branch into another over the diffs against
  their base, and its preview. The times the diffs are stamped with and the elapsed time are
  arguments.
\<close>

section \<open>Data\<close>

record merge_preview =
  mp_auto_resolved :: u32
  mp_conflicts :: "merge_conflict list"
  mp_estimated_duration_ms :: u64

definition MS_PER_ENTITY :: u64 where
  "MS_PER_ENTITY = 2"

section \<open>The merge\<close>

text \<open>\<open>merge_field_diffs\<close> and \<open>theirs_entity_to_resolved\<close>.\<close>

definition merge_field_diffs :: "entity_diff \<Rightarrow> entity_diff \<Rightarrow> entity_diff" where
  "merge_field_diffs ours theirs =
     (let ours_fields = set (map fd_field (ed_field_diffs ours));
          combined = ed_field_diffs ours @
            filter (\<lambda>fd. fd_field fd \<notin> ours_fields) (ed_field_diffs theirs)
      in \<lparr>ed_entity_id = ed_entity_id ours, ed_entity_type = ed_entity_type ours,
          ed_diff_kind = Modified, ed_field_diffs = combined\<rparr>)"

definition theirs_entity_to_resolved :: "entity_diff \<Rightarrow> resolved_value" where
  "theirs_entity_to_resolved d =
     (case ed_diff_kind d of
        Removed \<Rightarrow> MergedValue JNull
      | _ \<Rightarrow>
          MergedValue (JObject (fold (\<lambda>fd obj. obj_insert (fd_field fd) (fd_after fd) obj)
            (ed_field_diffs d) (obj_insert ''id'' (JString (ed_entity_id d)) []))))"

text \<open>The changed entities of a diff, and our changes indexed by the id alone, a later one winning.\<close>

definition changed :: "diff_result \<Rightarrow> entity_diff list" where
  "changed r = filter (\<lambda>d. ed_diff_kind d \<noteq> Unchanged) (dr_entity_diffs r)"

definition ours_by_id :: "diff_result \<Rightarrow> (string \<times> entity_diff) list" where
  "ours_by_id ours_diff = obj_of_list (map (\<lambda>d. (ed_entity_id d, d)) (changed ours_diff))"

text \<open>
  One entity of theirs. The state is the list of changes to apply and the list of conflicts that no
  strategy resolved.
\<close>

definition collect_resolved ::
    "entity_diff \<Rightarrow> (entity_diff \<times> resolved_value) list \<times> merge_conflict list \<Rightarrow>
     merge_conflict \<times> resolved_value \<Rightarrow> (entity_diff \<times> resolved_value) list \<times> merge_conflict list" where
  "collect_resolved theirs_entity acc cr =
     (case (acc, cr) of ((auto_changes, unresolved), (conflict, resolution)) \<Rightarrow>
        (case resolution of
           Escalate \<Rightarrow> (auto_changes, unresolved @ [conflict])
         | other \<Rightarrow> (auto_changes @ [(theirs_entity, other)], unresolved)))"

definition merge_entity ::
    "(string set \<Rightarrow> string list) \<Rightarrow> merge_strategy \<Rightarrow> (string \<times> entity_diff) list \<Rightarrow>
     (entity_diff \<times> resolved_value) list \<times> merge_conflict list \<Rightarrow> entity_diff \<Rightarrow>
     ((entity_diff \<times> resolved_value) list \<times> merge_conflict list) branch_result" where
  "merge_entity ho strategy index acc theirs_entity =
     (case obj_get index (ed_entity_id theirs_entity) of
        Some ours_entity \<Rightarrow>
          (let field_conflicts = detect_conflicts ho ours_entity theirs_entity (JObject [])
           in if field_conflicts = []
              then Inr (fst acc @ [(merge_field_diffs ours_entity theirs_entity, UseOurs)], snd acc)
              else res_bind (resolve_batch field_conflicts strategy) (\<lambda>resolved.
                Inr (foldl (collect_resolved theirs_entity) acc resolved)))
      | None \<Rightarrow>
          Inr (fst acc @ [(theirs_entity, theirs_entity_to_resolved theirs_entity)], snd acc))"

definition merge_plan ::
    "(string set \<Rightarrow> string list) \<Rightarrow> merge_strategy \<Rightarrow> diff_result \<Rightarrow> diff_result \<Rightarrow>
     ((entity_diff \<times> resolved_value) list \<times> merge_conflict list) branch_result" where
  "merge_plan ho strategy ours_diff theirs_diff =
     res_foldM (merge_entity ho strategy (ours_by_id ours_diff)) ([], []) (changed theirs_diff)"

definition merge ::
    "(string set \<Rightarrow> string list) \<Rightarrow> json_printer \<Rightarrow> datetime \<times> datetime \<Rightarrow> u64 \<Rightarrow> file_system \<Rightarrow>
     branch \<Rightarrow> branch \<Rightarrow> branch \<Rightarrow> merge_strategy \<Rightarrow> entity_type list option \<Rightarrow>
     (file_system \<times> merge_result branch_result) option" where
  "merge ho J nows elapsed fs base ours theirs strategy entity_types =
     (case diff ho (fst nows) fs base ours entity_types of
        None \<Rightarrow> None
      | Some (Inl e) \<Rightarrow> Some (fs, Inl e)
      | Some (Inr ours_diff) \<Rightarrow>
     (case diff ho (snd nows) fs base theirs entity_types of
        None \<Rightarrow> None
      | Some (Inl e) \<Rightarrow> Some (fs, Inl e)
      | Some (Inr theirs_diff) \<Rightarrow> Some
     (case merge_plan ho strategy ours_diff theirs_diff of
        Inl e \<Rightarrow> (fs, Inl e)
      | Inr (auto_changes, unresolved) \<Rightarrow>
          if unresolved \<noteq> []
          then (fs, Inr
            \<lparr>mr_source_branch_id = br_id theirs, mr_target_branch_id = br_id ours,
             mr_base_branch_id = br_id base, mr_applied = 0, mr_skipped = 0,
             mr_conflicts = unresolved, mr_duration_ms = elapsed, mr_success = False\<rparr>)
          else
     (case open_pool fs (br_db_path ours) of
        Inl e \<Rightarrow> (fs, Inl e)
      | Inr pool \<Rightarrow>
     (case apply_batch J pool auto_changes of
        (pool, Inl e) \<Rightarrow> (fs(br_db_path ours \<mapsto> pool), Inl e)
      | (pool, Inr applied) \<Rightarrow> (fs(br_db_path ours \<mapsto> pool), Inr
            \<lparr>mr_source_branch_id = br_id theirs, mr_target_branch_id = br_id ours,
             mr_base_branch_id = br_id base, mr_applied = applied, mr_skipped = 0,
             mr_conflicts = [], mr_duration_ms = elapsed, mr_success = True\<rparr>))))))"

section \<open>The preview\<close>

definition preview_entity ::
    "(string set \<Rightarrow> string list) \<Rightarrow> (string \<times> entity_diff) list \<Rightarrow>
     u32 \<times> merge_conflict list \<Rightarrow> entity_diff \<Rightarrow> u32 \<times> merge_conflict list" where
  "preview_entity ho index acc theirs_entity =
     (case obj_get index (ed_entity_id theirs_entity) of
        Some ours_entity \<Rightarrow>
          (let field_conflicts = detect_conflicts ho ours_entity theirs_entity (JObject [])
           in if field_conflicts = [] then (fst acc + 1, snd acc)
              else (fst acc, snd acc @ field_conflicts))
      | None \<Rightarrow> (fst acc + 1, snd acc))"

definition preview ::
    "(string set \<Rightarrow> string list) \<Rightarrow> datetime \<times> datetime \<Rightarrow> file_system \<Rightarrow> branch \<Rightarrow> branch \<Rightarrow> branch \<Rightarrow>
     entity_type list option \<Rightarrow> merge_preview branch_result option" where
  "preview ho nows fs base ours theirs entity_types =
     (case diff ho (fst nows) fs base ours entity_types of
        None \<Rightarrow> None
      | Some (Inl e) \<Rightarrow> Some (Inl e)
      | Some (Inr ours_diff) \<Rightarrow>
     (case diff ho (snd nows) fs base theirs entity_types of
        None \<Rightarrow> None
      | Some (Inl e) \<Rightarrow> Some (Inl e)
      | Some (Inr theirs_diff) \<Rightarrow>
          (let (auto_resolved, conflicts) =
                 foldl (preview_entity ho (ours_by_id ours_diff)) (0, []) (changed theirs_diff);
               estimated = (ucast auto_resolved + of_nat (length conflicts)) * MS_PER_ENTITY
           in Some (Inr \<lparr>mp_auto_resolved = auto_resolved, mp_conflicts = conflicts,
                         mp_estimated_duration_ms = estimated\<rparr>))))"

section \<open>What the plan holds\<close>

text \<open>
  The conflicts of one entity of theirs, and the resolution of a conflict. The plan is then the
  concatenation, over the entities of theirs, of the changes and of the conflicts left over.
\<close>

definition entity_conflicts ::
    "(string set \<Rightarrow> string list) \<Rightarrow> (string \<times> entity_diff) list \<Rightarrow> entity_diff \<Rightarrow> merge_conflict list" where
  "entity_conflicts ho index d =
     (case obj_get index (ed_entity_id d) of
        Some ours_entity \<Rightarrow> detect_conflicts ho ours_entity d (JObject [])
      | None \<Rightarrow> [])"

definition resolution :: "merge_strategy \<Rightarrow> merge_conflict \<Rightarrow> resolved_value" where
  "resolution s c = (case resolve c s of Inr r \<Rightarrow> r)"

definition entity_changes ::
    "(string set \<Rightarrow> string list) \<Rightarrow> merge_strategy \<Rightarrow> (string \<times> entity_diff) list \<Rightarrow> entity_diff \<Rightarrow>
     (entity_diff \<times> resolved_value) list" where
  "entity_changes ho s index d =
     (case obj_get index (ed_entity_id d) of
        None \<Rightarrow> [(d, theirs_entity_to_resolved d)]
      | Some ours_entity \<Rightarrow>
          if entity_conflicts ho index d = [] then [(merge_field_diffs ours_entity d, UseOurs)]
          else map (\<lambda>c. (d, resolution s c))
                 (filter (\<lambda>c. resolution s c \<noteq> Escalate) (entity_conflicts ho index d)))"

lemma collect_resolved_eq:
  "foldl (collect_resolved d) acc (map (\<lambda>c. (c, f c)) cs) =
     (fst acc @ map (\<lambda>c. (d, f c)) (filter (\<lambda>c. f c \<noteq> Escalate) cs),
      snd acc @ filter (\<lambda>c. f c = Escalate) cs)"
proof (induction cs arbitrary: acc)
  case (Cons c cs)
  have "collect_resolved d acc (c, f c) =
      (if f c = Escalate then (fst acc, snd acc @ [c]) else (fst acc @ [(d, f c)], snd acc))"
    by (cases acc; cases "f c") (simp_all add: collect_resolved_def)
  with Cons.IH show ?case by simp
qed simp

lemma merge_entity_eq:
  "merge_entity ho s index acc d =
     Inr (fst acc @ entity_changes ho s index d,
          snd acc @ filter (\<lambda>c. resolution s c = Escalate) (entity_conflicts ho index d))"
  by (cases "obj_get index (ed_entity_id d)")
    (simp_all add: merge_entity_def entity_changes_def entity_conflicts_def resolve_batch_eq
       resolution_def [symmetric] collect_resolved_eq Let_def)

lemma merge_fold_eq:
  "res_foldM (merge_entity ho s index) acc ds =
     Inr (fst acc @ concat (map (entity_changes ho s index) ds),
          snd acc @ filter (\<lambda>c. resolution s c = Escalate) (concat (map (entity_conflicts ho index) ds)))"
  by (induction ds arbitrary: acc) (simp_all add: merge_entity_eq)

lemma preview_fold_eq:
  "foldl (preview_entity ho index) acc ds =
     (fst acc + of_nat (length (filter (\<lambda>d. entity_conflicts ho index d = []) ds)),
      snd acc @ concat (map (entity_conflicts ho index) ds))"
proof (induction ds arbitrary: acc)
  case (Cons d ds)
  have "preview_entity ho index acc d =
      (if entity_conflicts ho index d = [] then (fst acc + 1, snd acc)
       else (fst acc, snd acc @ entity_conflicts ho index d))"
    by (simp add: preview_entity_def entity_conflicts_def Let_def split: option.split)
  with Cons.IH show ?case by (simp add: add.assoc)
qed simp

lemma ours_by_id_get:
  assumes "obj_get (ours_by_id r) i = Some d"
  shows "d \<in> set (changed r) \<and> ed_entity_id d = i"
  using assms by (auto simp: ours_by_id_def obj_get_of_list dest!: map_of_SomeD)

lemma ours_by_id_None:
  "obj_get (ours_by_id r) i = None \<longleftrightarrow> (\<forall>d \<in> set (changed r). ed_entity_id d \<noteq> i)"
  by (auto simp: ours_by_id_def obj_get_of_list map_of_eq_None_iff image_iff)

section \<open>The changes of a diff\<close>

text \<open>An entity of which one database holds something the other does not.\<close>

definition differs :: "branch_db \<Rightarrow> branch_db \<Rightarrow> entity_type \<Rightarrow> string \<Rightarrow> bool" where
  "differs db_a db_b t i \<longleftrightarrow>
     (case (contents db_a t i, contents db_b t i) of
        (None, None) \<Rightarrow> False
      | (Some a, Some b) \<Rightarrow> \<exists>f. or_null a f \<noteq> or_null b f
      | _ \<Rightarrow> True)"

definition compared_types :: "entity_type list option \<Rightarrow> entity_type list" where
  "compared_types types = (case types of Some ts \<Rightarrow> ts | None \<Rightarrow> all_entity_types)"

definition changes_between ::
    "(string set \<Rightarrow> string list) \<Rightarrow> branch_db \<Rightarrow> branch_db \<Rightarrow> entity_type list \<Rightarrow> entity_diff list" where
  "changes_between ho db_a db_b ts =
     filter (\<lambda>d. ed_diff_kind d \<noteq> Unchanged) (concat (map (type_diffs ho db_a db_b) ts))"

lemma differs_visible:
  "differs db_a db_b t i \<Longrightarrow> contents db_a t i \<noteq> None \<or> contents db_b t i \<noteq> None"
  by (auto simp: differs_def split: option.splits)

lemma describes_differs:
  "describes db_a db_b d \<Longrightarrow>
   ed_diff_kind d \<noteq> Unchanged \<longleftrightarrow> differs db_a db_b (ed_entity_type d) (ed_entity_id d)"
  by (auto simp: describes_def differs_def split: option.splits)

lemma changes_between_set:
  assumes "hash_order ho" and "db_ok db_a" and "db_ok db_b"
  shows "set (changes_between ho db_a db_b ts) =
    {diff_entity ho i t db_a db_b |t i. t \<in> set ts \<and> differs db_a db_b t i}"
proof -
  have k: "ed_diff_kind (diff_entity ho i t db_a db_b) \<noteq> Unchanged \<longleftrightarrow> differs db_a db_b t i" for t i
    using describes_differs [OF diff_entity_describes [OF assms, of i t]] by simp
  have "set (changes_between ho db_a db_b ts) =
      {diff_entity ho i t db_a db_b |t i. t \<in> set ts \<and> i \<in> set (visited_ids ho db_a db_b t) \<and>
        ed_diff_kind (diff_entity ho i t db_a db_b) \<noteq> Unchanged}"
    by (auto simp: changes_between_def type_diffs_def)
  also have "\<dots> = {diff_entity ho i t db_a db_b |t i. t \<in> set ts \<and> differs db_a db_b t i}"
  proof (rule Collect_cong)
    fix d
    have "t \<in> set ts \<and> i \<in> set (visited_ids ho db_a db_b t) \<and>
        ed_diff_kind (diff_entity ho i t db_a db_b) \<noteq> Unchanged \<longleftrightarrow> t \<in> set ts \<and> differs db_a db_b t i" for t i
      unfolding k type_diffs_ids(2) [OF assms] mem_Collect_eq using differs_visible [of db_a db_b t i] by blast
    then show "(\<exists>t i. d = diff_entity ho i t db_a db_b \<and> t \<in> set ts \<and> i \<in> set (visited_ids ho db_a db_b t) \<and>
        ed_diff_kind (diff_entity ho i t db_a db_b) \<noteq> Unchanged) \<longleftrightarrow>
      (\<exists>t i. d = diff_entity ho i t db_a db_b \<and> t \<in> set ts \<and> differs db_a db_b t i)" by simp
  qed
  finally show ?thesis .
qed

lemma changes_between_distinct:
  assumes "hash_order ho" and "db_ok db_a" and "db_ok db_b" and "distinct ts"
  shows "distinct (map (\<lambda>d. (ed_entity_type d, ed_entity_id d)) (changes_between ho db_a db_b ts))"
proof -
  let ?p = "\<lambda>d. (ed_entity_type d, ed_entity_id d)"
  have "map ?p (concat (map (type_diffs ho db_a db_b) ts)) =
      concat (map (\<lambda>t. map (Pair t) (visited_ids ho db_a db_b t)) ts)"
    by (simp add: map_concat comp_def type_diffs_ids(1) [OF assms(1-3)])
  then have "distinct (map ?p (concat (map (type_diffs ho db_a db_b) ts)))"
    using concat_pairs_distinct [OF assms(4) visited_ids_set(2) [OF assms(1)]] by (simp only:)
  then show ?thesis unfolding changes_between_def by (rule distinct_map_filter)
qed

text \<open>The runs of \<open>merge\<close> and \<open>preview\<close> on three existing databases.\<close>

definition id_index :: "entity_diff list \<Rightarrow> (string \<times> entity_diff) list" where
  "id_index ds = obj_of_list (map (\<lambda>d. (ed_entity_id d, d)) ds)"

definition merge_outcome ::
    "json_printer \<Rightarrow> u64 \<Rightarrow> file_system \<Rightarrow> branch \<Rightarrow> branch \<Rightarrow> branch \<Rightarrow> branch_db \<Rightarrow>
     (entity_diff \<times> resolved_value) list \<Rightarrow> merge_conflict list \<Rightarrow> file_system \<times> merge_result branch_result" where
  "merge_outcome J elapsed fs base ours theirs db_o changes left =
     (if left \<noteq> []
      then (fs, Inr
        \<lparr>mr_source_branch_id = br_id theirs, mr_target_branch_id = br_id ours,
         mr_base_branch_id = br_id base, mr_applied = 0, mr_skipped = 0,
         mr_conflicts = left, mr_duration_ms = elapsed, mr_success = False\<rparr>)
      else (case apply_batch J db_o changes of
        (db, r) \<Rightarrow> (fs(br_db_path ours \<mapsto> db), map_sum id (\<lambda>applied.
          \<lparr>mr_source_branch_id = br_id theirs, mr_target_branch_id = br_id ours,
           mr_base_branch_id = br_id base, mr_applied = applied, mr_skipped = 0,
           mr_conflicts = [], mr_duration_ms = elapsed, mr_success = True\<rparr>) r)))"

lemma merge_run:
  fixes types :: "entity_type list option"
  assumes ho: "hash_order ho"
    and "fs (br_db_path base) = Some db_b" and "fs (br_db_path ours) = Some db_o"
    and "fs (br_db_path theirs) = Some db_t"
  defines "ours_changes \<equiv> changes_between ho db_b db_o (compared_types types)"
    and "theirs_changes \<equiv> changes_between ho db_b db_t (compared_types types)"
  defines "conflicts \<equiv> concat (map (entity_conflicts ho (id_index ours_changes)) theirs_changes)"
  shows "merge ho J nows elapsed fs base ours theirs s types =
      Some (merge_outcome J elapsed fs base ours theirs db_o
        (concat (map (entity_changes ho s (id_index ours_changes)) theirs_changes))
        (filter (\<lambda>c. resolution s c = Escalate) conflicts))" (is ?A)
    and "\<exists>p. preview ho nows fs base ours theirs types = Some (Inr p) \<and> mp_conflicts p = conflicts \<and>
      mp_auto_resolved p =
        of_nat (length (filter (\<lambda>d. entity_conflicts ho (id_index ours_changes) d = []) theirs_changes)) \<and>
      mp_estimated_duration_ms p = (ucast (mp_auto_resolved p) + of_nat (length conflicts)) * 2" (is ?B)
proof -
  from diff_eq [OF ho assms(2,3), of "fst nows" types] obtain od where
    od: "diff ho (fst nows) fs base ours types = Some (Inr od)"
      "dr_entity_diffs od = concat (map (type_diffs ho db_b db_o) (compared_types types))"
    unfolding compared_types_def by blast
  from diff_eq [OF ho assms(2,4), of "snd nows" types] obtain td where
    td: "diff ho (snd nows) fs base theirs types = Some (Inr td)"
      "dr_entity_diffs td = concat (map (type_diffs ho db_b db_t) (compared_types types))"
    unfolding compared_types_def by blast
  have c: "ours_by_id od = id_index ours_changes" "changed td = theirs_changes"
    by (simp_all add: ours_by_id_def changed_def id_index_def od(2) td(2) ours_changes_def
        theirs_changes_def changes_between_def)
  have plan: "merge_plan ho s od td = Inr
      (concat (map (entity_changes ho s (id_index ours_changes)) theirs_changes),
       filter (\<lambda>c. resolution s c = Escalate) conflicts)"
    by (simp add: merge_plan_def c merge_fold_eq conflicts_def)
  show ?A
    unfolding merge_def od(1) td(1) option.case sum.case plan prod.case merge_outcome_def open_pool_def
      assms(3) ok_or_simps
    by (auto split: prod.split sum.split)
  show ?B
    unfolding preview_def od(1) td(1) option.case sum.case c preview_fold_eq conflicts_def
    by (simp add: MS_PER_ENTITY_def Let_def)
qed

section \<open>What a merge writes\<close>

lemma entity_changes_writes:
  assumes "ch \<in> set (entity_changes ho s index d)" and "writes ch t i"
  shows "t = ed_entity_type d \<and> i = ed_entity_id d"
  using assms by (auto simp: entity_changes_def writes_def split: option.splits if_splits)

lemma plan_writes:
  assumes "ch \<in> set (concat (map (entity_changes ho s index) ds))" and "writes ch t i"
  shows "\<exists>d \<in> set ds. ed_entity_type d = t \<and> ed_entity_id d = i"
  using assms entity_changes_writes by fastforce

lemma merge_outcome_cases:
  assumes "merge_outcome J elapsed fs base ours theirs db_o changes left = (fs', r)"
    and "fs (br_db_path ours) = Some db_o"
  obtains (conflicts) m where "fs' = fs" "r = Inr m" "\<not> mr_success m" "mr_conflicts m = left" "left \<noteq> []"
      "mr_applied m = 0"
  | (failed) e where "fs' = fs" "r = Inl e" "left = []"
  | (applied) db n m where "left = []" "res_foldM (batch_step J) (db_o, 0) changes = Inr (db, n)"
      "fs' = fs(br_db_path ours \<mapsto> db)" "r = Inr m" "mr_success m" "mr_applied m = n" "mr_conflicts m = []"
proof (cases "left = []")
  case False
  then show ?thesis using assms(1) conflicts by (auto simp: merge_outcome_def)
next
  case left: True
  show ?thesis
  proof (cases "res_foldM (batch_step J) (db_o, 0) changes")
    case (Inl e)
    moreover have "fs(br_db_path ours \<mapsto> db_o) = fs" using assms(2) by auto
    ultimately show ?thesis using assms(1) left failed by (auto simp: merge_outcome_def apply_batch_def)
  next
    case (Inr p)
    then show ?thesis using assms(1) left applied
      by (cases p) (auto simp: merge_outcome_def apply_batch_def)
  qed
qed

text \<open>The index holds our change of an entity whose id no other changed entity of ours has.\<close>

lemma id_index_get:
  assumes "obj_get (id_index ds) i = Some d"
  shows "d \<in> set ds \<and> ed_entity_id d = i"
  using assms by (auto simp: id_index_def obj_get_of_list dest!: map_of_SomeD)

lemma id_index_None: "obj_get (id_index ds) i = None \<longleftrightarrow> (\<forall>d \<in> set ds. ed_entity_id d \<noteq> i)"
  by (auto simp: id_index_def obj_get_of_list map_of_eq_None_iff image_iff)

lemma index_changes:
  assumes "hash_order ho" and "db_ok db_a" and "db_ok db_b"
  shows "obj_get (id_index (changes_between ho db_a db_b ts)) i = None \<longleftrightarrow>
      (\<forall>t \<in> set ts. \<not> differs db_a db_b t i)"
    and "obj_get (id_index (changes_between ho db_a db_b ts)) i = Some d \<Longrightarrow>
      \<exists>t \<in> set ts. differs db_a db_b t i \<and> d = diff_entity ho i t db_a db_b"
proof -
  show "obj_get (id_index (changes_between ho db_a db_b ts)) i = None \<longleftrightarrow>
      (\<forall>t \<in> set ts. \<not> differs db_a db_b t i)"
    unfolding id_index_None changes_between_set [OF assms]
    using diff_entity_id(1) [of ho i _ db_a db_b] by fastforce
  assume "obj_get (id_index (changes_between ho db_a db_b ts)) i = Some d"
  from id_index_get [OF this] show "\<exists>t \<in> set ts. differs db_a db_b t i \<and> d = diff_entity ho i t db_a db_b"
    unfolding changes_between_set [OF assms] by auto
qed

lemma detected_conflicts_nontrivial:
  assumes "hash_order ho" and "c \<in> set (entity_conflicts ho (id_index ds) d)"
  shows "\<not> is_trivially_resolvable c"
proof -
  obtain e where e: "obj_get (id_index ds) (ed_entity_id d) = Some e"
    "c \<in> set (detect_conflicts ho e d (JObject []))"
    using assms(2) by (cases "obj_get (id_index ds) (ed_entity_id d)") (auto simp: entity_conflicts_def)
  from id_index_get [OF e(1)] have "ed_entity_id e = ed_entity_id d" by simp
  from e(2) show ?thesis
    unfolding detect_conflicts_set [OF assms(1) \<open>ed_entity_id e = ed_entity_id d\<close>] by (auto simp: conflict_on_def is_trivially_resolvable_def)
qed

lemma resolution_escalate:
  "\<not> is_trivially_resolvable c \<Longrightarrow> resolution s c = Escalate \<longleftrightarrow> effective c s = Manual"
  using resolve_escalate_iff [of c s] resolve_total [of c s] by (auto simp: resolution_def)

lemma resolution_ours: "\<not> is_trivially_resolvable c \<Longrightarrow> resolution Ours c = UseOurs"
  by (simp add: resolution_def resolve_simps)

lemma changes_keys:
  assumes "hash_order ho" and "db_ok db_a" and "db_ok db_b" and "d \<in> set (changes_between ho db_a db_b ts)"
  shows "ed_entity_type d \<in> set ts" and "differs db_a db_b (ed_entity_type d) (ed_entity_id d)"
    and "d = diff_entity ho (ed_entity_id d) (ed_entity_type d) db_a db_b"
  using assms(4) unfolding changes_between_set [OF assms(1-3)] by auto

text \<open>The files, the database that is left, and what no change of theirs is about.\<close>

definition merge_frame ::
    "file_system \<Rightarrow> branch \<Rightarrow> branch_db \<Rightarrow> branch_db \<Rightarrow> branch_db \<Rightarrow> entity_type list \<Rightarrow>
     file_system \<Rightarrow> merge_result branch_result \<Rightarrow> bool" where
  "merge_frame fs ours db_b db_o db_t ts fs' r \<longleftrightarrow>
     (if \<exists>m. r = Inr m \<and> mr_success m
      then \<exists>db. fs' = fs(br_db_path ours \<mapsto> db) \<and> db_ok db \<and> schema db = schema db_o \<and>
        (\<forall>t i. (t \<notin> set ts \<or> \<not> differs db_b db_t t i) \<longrightarrow> contents db t i = contents db_o t i)
      else fs' = fs)"

text \<open>
  C16: a merge reads three databases and writes at most ours. Unless it reports success, no file
  changes at all; after a success our database is well-formed, has its schema, and every entity that
  theirs did not change against the base holds what ours held, whatever the strategy.
\<close>

theorem merge_changes_only_theirs:
  assumes "hash_order ho" and "db_ok db_b" and "db_ok db_o" and "db_ok db_t"
    and "fs (br_db_path base) = Some db_b" and "fs (br_db_path ours) = Some db_o"
    and "fs (br_db_path theirs) = Some db_t"
  shows "\<exists>fs' r. merge ho J nows elapsed fs base ours theirs s types = Some (fs', r) \<and>
    merge_frame fs ours db_b db_o db_t (compared_types types) fs' r"
proof -
  let ?ts = "compared_types types"
  let ?td = "changes_between ho db_b db_t ?ts"
  let ?idx = "id_index (changes_between ho db_b db_o ?ts)"
  let ?chs = "concat (map (entity_changes ho s ?idx) ?td)"
  let ?left = "filter (\<lambda>c. resolution s c = Escalate) (concat (map (entity_conflicts ho ?idx) ?td))"
  note run = merge_run(1) [OF assms(1,5-7), of J nows elapsed s types]
  obtain fs' r where out: "merge_outcome J elapsed fs base ours theirs db_o ?chs ?left = (fs', r)" by force
  from out assms(6) have "merge_frame fs ours db_b db_o db_t ?ts fs' r"
  proof (cases rule: merge_outcome_cases)
    case (applied db n m)
    note f = batch_frame [OF applied(2) assms(3)]
    have "contents db t i = contents db_o t i" if "t \<notin> set ?ts \<or> \<not> differs db_b db_t t i" for t i
    proof -
      have "\<not> writes ch t i" if "ch \<in> set ?chs" for ch
        using plan_writes [OF that, of t i] changes_keys [OF assms(1,2,4)]
          \<open>t \<notin> set ?ts \<or> \<not> differs db_b db_t t i\<close> by blast
      then show ?thesis using f by blast
    qed
    with applied f batch_schema [OF applied(2)] show ?thesis unfolding merge_frame_def by auto
  qed (auto simp: merge_frame_def)
  then show ?thesis using run out by simp
qed


section \<open>Entities both or one of the sides changed\<close>

text \<open>A successful merge, taken apart: the plan was applied as one batch.\<close>

lemma merge_success:
  assumes "hash_order ho" and "db_ok db_b" and "db_ok db_o" and "db_ok db_t"
    and "fs (br_db_path base) = Some db_b" and "fs (br_db_path ours) = Some db_o"
    and "fs (br_db_path theirs) = Some db_t"
    and "merge ho J nows elapsed fs base ours theirs s types = Some (fs', Inr m)" and "mr_success m"
  obtains db n where "fs' = fs(br_db_path ours \<mapsto> db)"
    and "res_foldM (batch_step J) (db_o, 0)
      (concat (map (entity_changes ho s (id_index (changes_between ho db_b db_o (compared_types types))))
        (changes_between ho db_b db_t (compared_types types)))) = Inr (db, n)"
proof -
  let ?td = "changes_between ho db_b db_t (compared_types types)"
  let ?idx = "id_index (changes_between ho db_b db_o (compared_types types))"
  let ?left = "filter (\<lambda>c. resolution s c = Escalate) (concat (map (entity_conflicts ho ?idx) ?td))"
  have "merge_outcome J elapsed fs base ours theirs db_o (concat (map (entity_changes ho s ?idx) ?td)) ?left =
      (fs', Inr m)"
    using merge_run(1) [OF assms(1,5-7), of J nows elapsed s types] assms(8) by simp
  then show ?thesis using assms(6)
    by (cases rule: merge_outcome_cases) (use assms(9) that in auto)
qed

lemma detected_none:
  assumes ho: "hash_order ho" and "db_ok db_b" and "db_ok db_o" and "db_ok db_t"
    and o: "contents db_b t i = Some old" "contents db_o t i = Some a" "contents db_t t i = Some b"
    and disjoint: "\<forall>f. or_null a f = or_null old f \<or> or_null b f = or_null old f \<or> or_null a f = or_null b f"
  shows "detect_conflicts ho (diff_entity ho i t db_b db_o) (diff_entity ho i t db_b db_t) v = []"
proof -
  let ?a = "diff_entity ho i t db_b db_o" and ?b = "diff_entity ho i t db_b db_t"
  have d: "describes db_b db_o ?a" "describes db_b db_t ?b"
    using diff_entity_describes [OF ho] assms(2-4) by blast+
  have "ed_entity_id ?a = ed_entity_id ?b" by simp
  note iff = detect_conflicts_iff [OF ho this]
  have dj: "or_null old f \<noteq> or_null a f \<Longrightarrow> or_null old f \<noteq> or_null b f \<Longrightarrow> or_null a f = or_null b f" for f
    using disjoint by metis
  from d have s: "distinct (map fd_field (ed_field_diffs ?a))" "distinct (map fd_field (ed_field_diffs ?b))"
    "set (ed_field_diffs ?a) = {\<lparr>fd_field = f, fd_before = or_null old f, fd_after = or_null a f\<rparr> |f. or_null old f \<noteq> or_null a f}"
    "set (ed_field_diffs ?b) = {\<lparr>fd_field = f, fd_before = or_null old f, fd_after = or_null b f\<rparr> |f. or_null old f \<noteq> or_null b f}"
    unfolding describes_def diff_entity_id o by simp_all
  show ?thesis unfolding iff [OF s(1,2)] s(3,4) using dj by auto
qed

lemma entity_changes_ours:
  assumes "hash_order ho" and "ch \<in> set (entity_changes ho Ours (id_index ds) d)"
    and "obj_get (id_index ds) (ed_entity_id d) = Some e"
  shows "snd ch = UseOurs"
proof (cases "entity_conflicts ho (id_index ds) d = []")
  case False
  then obtain c where c: "c \<in> set (entity_conflicts ho (id_index ds) d)" "ch = (d, resolution Ours c)"
    using assms(2,3) by (auto simp: entity_changes_def)
  then show ?thesis using resolution_ours [OF detected_conflicts_nontrivial [OF assms(1) c(1)]] by simp
qed (use assms in \<open>simp add: entity_changes_def\<close>)

text \<open>
  C18: what both sides changed stays exactly as ours has it when the strategy is \<open>Ours\<close>, and also,
  under every strategy, when the two sides changed different fields or agree on those they both
  changed: then the fields only theirs changed are lost, although the change is merged first. (The id
  must not occur in another changed table of ours, as our changes are indexed by the id alone.)
\<close>

theorem merge_keeps_ours:
  assumes "hash_order ho" and "db_ok db_b" and "db_ok db_o" and "db_ok db_t"
    and "fs (br_db_path base) = Some db_b" and "fs (br_db_path ours) = Some db_o"
    and "fs (br_db_path theirs) = Some db_t"
    and "merge ho J nows elapsed fs base ours theirs s types = Some (fs', Inr m)" and "mr_success m"
    and "\<forall>u \<in> set (compared_types types). differs db_b db_o u i \<longrightarrow> u = t"
    and "contents db_b t i = Some old" and "contents db_o t i = Some a" and "contents db_t t i = Some b"
    and "t \<in> set (compared_types types)" and "\<exists>f. or_null a f \<noteq> or_null old f"
    and "s = Ours \<or> (\<forall>f. or_null a f = or_null old f \<or> or_null b f = or_null old f \<or> or_null a f = or_null b f)"
  shows "\<exists>db. fs' (br_db_path ours) = Some db \<and> contents db t i = Some a"
proof -
  let ?ts = "compared_types types"
  let ?td = "changes_between ho db_b db_t ?ts"
  let ?idx = "id_index (changes_between ho db_b db_o ?ts)"
  obtain db n where run: "fs' = fs(br_db_path ours \<mapsto> db)"
    "res_foldM (batch_step J) (db_o, 0) (concat (map (entity_changes ho s ?idx) ?td)) = Inr (db, n)"
    by (rule merge_success [OF assms(1-9)])
  have "differs db_b db_o t i" using assms(11,12,15) by (simp add: differs_def) metis
  then have "obj_get ?idx i \<noteq> None" using index_changes(1) [OF assms(1-3)] assms(14) by blast
  then obtain e where e: "obj_get ?idx i = Some e" by blast
  from index_changes(2) [OF assms(1-3) this] assms(10)
  have idx: "obj_get ?idx i = Some (diff_entity ho i t db_b db_o)" unfolding e by blast
  have "\<not> writes ch t i" if ch: "ch \<in> set (concat (map (entity_changes ho s ?idx) ?td))" for ch
  proof
    assume w: "writes ch t i"
    obtain d where d: "d \<in> set ?td" "ch \<in> set (entity_changes ho s ?idx d)" using ch by auto
    then have k: "ed_entity_type d = t" "ed_entity_id d = i" using entity_changes_writes w by blast+
    have d': "d = diff_entity ho i t db_b db_t"
      using changes_keys(3) [OF assms(1,2,4) d(1)] k by simp
    from assms(16) show False
    proof
      assume "s = Ours"
      then have "snd ch = UseOurs"
        using entity_changes_ours [OF assms(1), of ch _ d] d(2) idx k(2) by simp
      then show False using w by (simp add: writes_def)
    next
      assume "\<forall>f. or_null a f = or_null old f \<or> or_null b f = or_null old f \<or> or_null a f = or_null b f"
      from detected_none [OF assms(1-4) assms(11-13) this] have "entity_conflicts ho ?idx d = []"
        using idx k d' by (simp add: entity_conflicts_def)
      then show False using d(2) w idx k by (simp add: entity_changes_def writes_def)
    qed
  qed
  then have "contents db t i = contents db_o t i"
    using batch_frame [OF run(2) assms(3)] by blast
  then show ?thesis using run(1) assms(12) by simp
qed

text \<open>What the row of an entity only theirs changed becomes.\<close>

definition taken_row ::
    "json_printer \<Rightarrow> branch_db \<Rightarrow> branch_db \<Rightarrow> branch_db \<Rightarrow> branch_db \<Rightarrow> entity_type \<Rightarrow> string \<Rightarrow> bool" where
  "taken_row J db_b db_o db_t db t i \<longleftrightarrow>
     (case contents db_t t i of
        None \<Rightarrow> contents db t i = None
      | Some new \<Rightarrow> \<exists>tb data. db_o t = Some tb \<and> contents db t i = Some data \<and>
          (\<forall>c \<in> set (tb_columns tb) - {''id''}. \<exists>w. obj_get data c = Some w \<and>
             (if \<exists>old. contents db_b t i = Some old \<and> or_null old c \<noteq> or_null new c
              then tb_cell tb c (json_to_sqlite_str J (or_null new c)) = Inr w
              else tb_default tb c = Inr w)))"

lemma find_field:
  assumes "distinct (map fd_field fds)"
  shows "find (\<lambda>fd. fd_field fd = f) fds = Some fd \<longleftrightarrow> fd \<in> set fds \<and> fd_field fd = f"
  using assms by (induction fds) (auto simp: image_iff)

lemma theirs_object:
  assumes "describes db_b db_t d" and "ed_diff_kind d \<noteq> Removed" and "ed_diff_kind d \<noteq> Unchanged"
    and "contents db_t (ed_entity_type d) (ed_entity_id d) = Some new"
  shows "\<exists>obj. theirs_entity_to_resolved d = MergedValue (JObject obj) \<and>
    (\<forall>c. c \<noteq> ''id'' \<longrightarrow> map_of obj c =
      (if \<exists>old. contents db_b (ed_entity_type d) (ed_entity_id d) = Some old \<and> or_null old c \<noteq> or_null new c
       then Some (or_null new c) else None))"
proof -
  let ?m = "[(''id'', JString (ed_entity_id d))]"
  let ?obj = "patch (ed_field_diffs d) ?m"
  have r: "theirs_entity_to_resolved d = MergedValue (JObject ?obj)"
    using assms(2) by (cases "ed_diff_kind d") (simp_all add: theirs_entity_to_resolved_def patch_def)
  have m: "obj_ok ?m" by (simp add: obj_ok_def)
  have dist: "distinct (map fd_field (ed_field_diffs d))"
    using assms(1) by (auto simp: describes_def split: option.splits)
  have get: "obj_get ?obj c = map_option fd_after (find (\<lambda>fd. fd_field fd = c) (ed_field_diffs d))"
    if "c \<noteq> ''id''" for c
    using that patch_get [OF m dist, of c] by (simp add: obj_get_def split: option.split)
  have "map_of ?obj c =
      (if \<exists>old. contents db_b (ed_entity_type d) (ed_entity_id d) = Some old \<and> or_null old c \<noteq> or_null new c
       then Some (or_null new c) else None)" if c: "c \<noteq> ''id''" for c
  proof (cases "contents db_b (ed_entity_type d) (ed_entity_id d)")
    case None
    then have "ed_field_diffs d = []" using assms(1,4) by (simp add: describes_def)
    then show ?thesis using get [OF c] None by (simp add: obj_get_def)
  next
    case (Some old)
    then have fds: "set (ed_field_diffs d) =
        {\<lparr>fd_field = f, fd_before = or_null old f, fd_after = or_null new f\<rparr> |f. or_null old f \<noteq> or_null new f}"
      using assms(1,4) by (simp add: describes_def)
    show ?thesis
    proof (cases "or_null old c \<noteq> or_null new c")
      case True
      let ?fd = "\<lparr>fd_field = c, fd_before = or_null old c, fd_after = or_null new c\<rparr>"
      have "find (\<lambda>fd. fd_field fd = c) (ed_field_diffs d) = Some ?fd"
        unfolding find_field [OF dist] fds using True by auto
      then show ?thesis using get [OF c] True Some by (simp add: obj_get_def)
    next
      case False
      then have "find (\<lambda>fd. fd_field fd = c) (ed_field_diffs d) = None"
        unfolding find_None_iff fds by auto
      then show ?thesis using get [OF c] False Some by (simp add: obj_get_def)
    qed
  qed
  then show ?thesis using r by blast
qed

lemma apply_theirs:
  assumes "db_ok db" and "schema db = schema db_o" and "describes db_b db_t d"
    and "differs db_b db_t (ed_entity_type d) (ed_entity_id d)"
    and "batch_step J (db, n) (d, theirs_entity_to_resolved d) = Inr (db', n')"
  shows "taken_row J db_b db_o db_t db' (ed_entity_type d) (ed_entity_id d)"
proof -
  let ?t = "ed_entity_type d" and ?i = "ed_entity_id d"
  have changed: "ed_diff_kind d \<noteq> Unchanged" using describes_differs [OF assms(3)] assms(4) by blast
  show ?thesis
  proof (cases "contents db_t ?t ?i")
    case None
    then have "ed_diff_kind d = Removed"
      using assms(3) changed by (auto simp: describes_def split: option.splits)
    then have "exec_delete db ?t ?i = Inr db'"
      using assms(5) by (auto simp: theirs_entity_to_resolved_def batch_step_def apply_value_def res_bind_eq_Inr)
    from exec_delete_contents [OF this] None show ?thesis by (simp add: taken_row_def)
  next
    case (Some new)
    then have nr: "ed_diff_kind d \<noteq> Removed"
      using assms(3) by (auto simp: describes_def split: option.splits if_splits)
    from theirs_object [OF assms(3) nr changed Some] obtain obj where
      obj: "theirs_entity_to_resolved d = MergedValue (JObject obj)"
      "\<And>c. c \<noteq> ''id'' \<Longrightarrow> map_of obj c =
        (if \<exists>old. contents db_b ?t ?i = Some old \<and> or_null old c \<noteq> or_null new c
         then Some (or_null new c) else None)" by blast
    have up: "upsert_entity J db ?t ?i (JObject obj) = Inr db'"
      using assms(5) nr by (cases "ed_diff_kind d") (auto simp: obj(1) batch_step_def apply_value_def res_bind_eq_Inr)
    then obtain tb where tb: "db ?t = Some tb" by (auto simp: upsert_entity_def exec_replace_Inr)
    obtain tb' where tb': "db_o ?t = Some tb'" "tb_columns tb' = tb_columns tb" "tb_cell tb' = tb_cell tb"
      "tb_default tb' = tb_default tb"
      by (rule schema_table [OF assms(2) [symmetric] tb])
    have "\<exists>tb data. db ?t = Some tb \<and> contents db' ?t ?i = Some data" using tb upsert_stored [OF up assms(1)] by blast
    then obtain data where data: "contents db' ?t ?i = Some data" by blast
    have "\<exists>w. obj_get data c = Some w \<and>
        (if \<exists>old. contents db_b ?t ?i = Some old \<and> or_null old c \<noteq> or_null new c
         then tb_cell tb' c (json_to_sqlite_str J (or_null new c)) = Inr w
         else tb_default tb' c = Inr w)" if c: "c \<in> set (tb_columns tb') - {''id''}" for c
      using upsert_contents [OF assms(1) up tb, of c] obj(2) [of c] data c tb' by (auto split: if_splits)
    then show ?thesis unfolding taken_row_def Some option.case using tb'(1) data by blast
  qed
qed

text \<open>
  C17: an entity that only theirs changed is taken over: a removed one is gone afterwards; of a modified
  one the columns theirs changed get theirs' values, but every other column gets its default; and of
  one theirs added every column but the id gets its default, as the diff of an added entity lists no
  fields. (Again the id must not occur in a changed entity of ours, in whichever table.)
\<close>

theorem merge_takes_theirs:
  assumes "hash_order ho" and "db_ok db_b" and "db_ok db_o" and "db_ok db_t"
    and "fs (br_db_path base) = Some db_b" and "fs (br_db_path ours) = Some db_o"
    and "fs (br_db_path theirs) = Some db_t"
    and "merge ho J nows elapsed fs base ours theirs s types = Some (fs', Inr m)" and "mr_success m"
    and "distinct (compared_types types)" and "t \<in> set (compared_types types)"
    and "differs db_b db_t t i" and "\<forall>u \<in> set (compared_types types). \<not> differs db_b db_o u i"
  shows "\<exists>db. fs' (br_db_path ours) = Some db \<and> taken_row J db_b db_o db_t db t i"
proof -
  let ?ts = "compared_types types"
  let ?td = "changes_between ho db_b db_t ?ts"
  let ?idx = "id_index (changes_between ho db_b db_o ?ts)"
  let ?d = "diff_entity ho i t db_b db_t"
  obtain db n where run: "fs' = fs(br_db_path ours \<mapsto> db)"
    "res_foldM (batch_step J) (db_o, 0) (concat (map (entity_changes ho s ?idx) ?td)) = Inr (db, n)"
    by (rule merge_success [OF assms(1-9)])
  have idx: "obj_get ?idx i = None" using index_changes(1) [OF assms(1-3)] assms(13) by blast
  have "?d \<in> set ?td" unfolding changes_between_set [OF assms(1,2,4)] using assms(11,12) by blast
  then obtain pre post where td: "?td = pre @ ?d # post" by (meson split_list)
  have "distinct (map (\<lambda>d. (ed_entity_type d, ed_entity_id d)) (pre @ ?d # post))"
    using changes_between_distinct [OF assms(1,2,4,10)] td by simp
  then have "(t, i) \<notin> (\<lambda>d. (ed_entity_type d, ed_entity_id d)) ` set post" by simp
  then have post: "\<forall>c \<in> set (concat (map (entity_changes ho s ?idx) post)). \<not> writes c t i"
    using plan_writes by force
  have "entity_changes ho s ?idx ?d = [(?d, theirs_entity_to_resolved ?d)]"
    using idx by (simp add: entity_changes_def)
  then have "res_foldM (batch_step J) (db_o, 0) (concat (map (entity_changes ho s ?idx) pre) @
      (?d, theirs_entity_to_resolved ?d) # concat (map (entity_changes ho s ?idx) post)) = Inr (db, n)"
    using run(2) unfolding td by simp
  from batch_last [OF this assms(3) post] obtain db1 n1 db2 n2 where
    1: "res_foldM (batch_step J) (db_o, 0) (concat (map (entity_changes ho s ?idx) pre)) = Inr (db1, n1)"
      "db_ok db1"
    and 2: "batch_step J (db1, n1) (?d, theirs_entity_to_resolved ?d) = Inr (db2, n2)"
    and 3: "contents db t i = contents db2 t i" by blast
  have "schema db1 = schema db_o" using batch_schema [OF 1(1)] by simp
  from apply_theirs [OF 1(2) this diff_entity_describes [OF assms(1,2,4)] _ 2] assms(12)
  have "taken_row J db_b db_o db_t db2 t i" by simp
  then have "taken_row J db_b db_o db_t db t i" unfolding taken_row_def 3 .
  then show ?thesis using run(1) by simp
qed

section \<open>Concrete merges\<close>

text \<open>Three files of one text table each: the base, ours and theirs.\<close>

definition three_files :: "(string \<times> string) list \<Rightarrow> (string \<times> string) list \<Rightarrow> (string \<times> string) list \<Rightarrow> file_system" where
  "three_files b o' t = [[''a''] \<mapsto> text_db b, [''b''] \<mapsto> text_db o', [''c''] \<mapsto> text_db t]"

lemma three_files_sel [simp]:
  "three_files b o' t [''a''] = Some (text_db b)" "three_files b o' t [''b''] = Some (text_db o')"
  "three_files b o' t [''c''] = Some (text_db t)"
  by (simp_all add: three_files_def)

abbreviation merge_example :: "(string \<times> string) list \<Rightarrow> (string \<times> string) list \<Rightarrow> (string \<times> string) list \<Rightarrow>
    merge_strategy \<Rightarrow> (file_system \<times> merge_result branch_result) option" where
  "merge_example b o' t s \<equiv> merge sorted_list_of_set plain_printer (0, 0) 0 (three_files b o' t)
     (branch_at 1 [''a'']) (branch_at 2 [''b'']) (branch_at 3 [''c'']) s (Some [MemoryRecord])"

text \<open>A batch of nothing but \<open>UseOurs\<close> succeeds.\<close>

lemma batch_use_ours:
  "(\<And>ch. ch \<in> set chs \<Longrightarrow> snd ch = UseOurs) \<Longrightarrow> res_foldM (batch_step J) st chs = Inr st"
proof (induction chs)
  case (Cons ch chs)
  have "batch_step J st ch = Inr st" using Cons.prems [of ch] by (cases st; cases ch) (simp add: batch_step_def)
  with Cons show ?case by simp
qed simp

theorem merge_changes_only_theirs_witness:
  "\<exists>fs' r. merge_example [(''1'', ''x'')] [(''1'', ''y'')] [(''1'', ''z'')] Manual = Some (fs', r) \<and>
     fs' [''a''] = Some (text_db [(''1'', ''x'')]) \<and> fs' [''c''] = Some (text_db [(''1'', ''z'')])"
proof -
  let ?fs = "three_files [(''1'', ''x'')] [(''1'', ''y'')] [(''1'', ''z'')]"
  have ok: "db_ok (text_db [(''1'', n)])" for n by (rule text_db_ok) simp
  have fs: "?fs (br_db_path (branch_at 1 [''a''])) = Some (text_db [(''1'', ''x'')])"
    "?fs (br_db_path (branch_at 2 [''b''])) = Some (text_db [(''1'', ''y'')])"
    "?fs (br_db_path (branch_at 3 [''c''])) = Some (text_db [(''1'', ''z'')])" by simp_all
  obtain fs' r where m: "merge_example [(''1'', ''x'')] [(''1'', ''y'')] [(''1'', ''z'')] Manual = Some (fs', r)"
    and f: "merge_frame ?fs (branch_at 2 [''b'']) (text_db [(''1'', ''x'')]) (text_db [(''1'', ''y'')])
      (text_db [(''1'', ''z'')]) (compared_types (Some [MemoryRecord])) fs' r"
    using merge_changes_only_theirs [OF sorted_order.hash_order_axioms ok ok ok fs] by blast
  from f have "fs' [''a''] = ?fs [''a''] \<and> fs' [''c''] = ?fs [''c'']"
    unfolding merge_frame_def by (auto split: if_splits)
  then show ?thesis using m by simp
qed


lemma example_differs:
  "differs (text_db [(''1'', x)]) (text_db [(''1'', y)]) t i \<longleftrightarrow> x \<noteq> y \<and> t = MemoryRecord \<and> i = ''1''"
proof -
  have "or_null [(''id'', JString ''1''), (''name'', JString x)] f \<noteq>
      or_null [(''id'', JString ''1''), (''name'', JString y)] f \<longleftrightarrow> x \<noteq> y \<and> f = ''name''" for f
    by (auto simp: or_null_def obj_get_def)
  then show ?thesis by (auto simp: differs_def text_db_contents)
qed

lemma example_ours:
  "\<exists>m. merge_example [(''1'', ''x'')] [(''1'', ''y'')] [(''1'', ''z'')] Ours =
     Some ((three_files [(''1'', ''x'')] [(''1'', ''y'')] [(''1'', ''z'')])([''b''] \<mapsto> text_db [(''1'', ''y'')]), Inr m) \<and>
     mr_success m"
proof -
  let ?fs = "three_files [(''1'', ''x'')] [(''1'', ''y'')] [(''1'', ''z'')]"
  let ?ho = "sorted_list_of_set :: string set \<Rightarrow> string list"
  let ?oc = "changes_between ?ho (text_db [(''1'', ''x'')]) (text_db [(''1'', ''y'')]) [MemoryRecord]"
  let ?td = "changes_between ?ho (text_db [(''1'', ''x'')]) (text_db [(''1'', ''z'')]) [MemoryRecord]"
  let ?chs = "concat (map (entity_changes ?ho Ours (id_index ?oc)) ?td)"
  let ?cs = "concat (map (entity_conflicts ?ho (id_index ?oc)) ?td)"
  note ho = sorted_order.hash_order_axioms
  have ok: "db_ok (text_db [(''1'', n)])" for n by (rule text_db_ok) simp
  have fs: "?fs (br_db_path (branch_at 1 [''a''])) = Some (text_db [(''1'', ''x'')])"
    "?fs (br_db_path (branch_at 2 [''b''])) = Some (text_db [(''1'', ''y'')])"
    "?fs (br_db_path (branch_at 3 [''c''])) = Some (text_db [(''1'', ''z'')])" by simp_all
  have "resolution Ours c \<noteq> Escalate" if "c \<in> set ?cs" for c
    using that detected_conflicts_nontrivial [OF ho] resolution_ours by fastforce
  then have left: "filter (\<lambda>c. resolution Ours c = Escalate) ?cs = []" by (simp add: filter_empty_conv)
  have "snd ch = UseOurs" if ch: "ch \<in> set ?chs" for ch
  proof -
    obtain d where d: "d \<in> set ?td" "ch \<in> set (entity_changes ?ho Ours (id_index ?oc) d)" using ch by auto
    have "ed_entity_id d = ''1''" using changes_keys(2) [OF ho ok ok d(1)] by (simp add: example_differs)
    then have "obj_get (id_index ?oc) (ed_entity_id d) \<noteq> None"
      unfolding index_changes(1) [OF ho ok ok] by (simp add: example_differs)
    then obtain e where "obj_get (id_index ?oc) (ed_entity_id d) = Some e" by blast
    from entity_changes_ours [OF ho d(2) this] show ?thesis .
  qed
  from batch_use_ours [OF this]
  have "apply_batch plain_printer (text_db [(''1'', ''y'')]) ?chs = (text_db [(''1'', ''y'')], Inr 0)"
    by (simp only: apply_batch_def sum.case prod.case)
  then show ?thesis
    using merge_run(1) [OF ho fs, of plain_printer "(0, 0)" 0 Ours "Some [MemoryRecord]"] left
    by (simp add: compared_types_def merge_outcome_def)
qed

theorem merge_keeps_ours_witness:
  "\<exists>fs' r db. merge_example [(''1'', ''x'')] [(''1'', ''y'')] [(''1'', ''z'')] Ours = Some (fs', r) \<and>
     fs' [''b''] = Some db \<and>
     contents db MemoryRecord ''1'' = Some [(''id'', JString ''1''), (''name'', JString ''y'')]"
proof -
  let ?fs = "three_files [(''1'', ''x'')] [(''1'', ''y'')] [(''1'', ''z'')]"
  have ok: "db_ok (text_db [(''1'', n)])" for n by (rule text_db_ok) simp
  have fs: "?fs (br_db_path (branch_at 1 [''a''])) = Some (text_db [(''1'', ''x'')])"
    "?fs (br_db_path (branch_at 2 [''b''])) = Some (text_db [(''1'', ''y'')])"
    "?fs (br_db_path (branch_at 3 [''c''])) = Some (text_db [(''1'', ''z'')])" by simp_all
  have one: "\<forall>u \<in> set (compared_types (Some [MemoryRecord])).
      differs (text_db [(''1'', ''x'')]) (text_db [(''1'', ''y'')]) u ''1'' \<longrightarrow> u = MemoryRecord"
    by (simp add: compared_types_def)
  have c: "contents (text_db [(''1'', n)]) MemoryRecord ''1'' =
      Some [(''id'', JString ''1''), (''name'', JString n)]" for n by (simp add: text_db_contents)
  have f: "\<exists>f. or_null [(''id'', JString ''1''), (''name'', JString ''y'')] f \<noteq>
      or_null [(''id'', JString ''1''), (''name'', JString ''x'')] f"
    by (rule exI [of _ "''name''"]) (simp add: or_null_def obj_get_def)
  have mem: "MemoryRecord \<in> set (compared_types (Some [MemoryRecord]))" by (simp add: compared_types_def)
  obtain m where m: "merge_example [(''1'', ''x'')] [(''1'', ''y'')] [(''1'', ''z'')] Ours =
     Some (?fs([''b''] \<mapsto> text_db [(''1'', ''y'')]), Inr m)" "mr_success m" using example_ours by blast
  from merge_keeps_ours [OF sorted_order.hash_order_axioms ok ok ok fs m one c c c mem f disjI1 [OF refl]]
  have "contents (text_db [(''1'', ''y'')]) MemoryRecord ''1'' =
      Some [(''id'', JString ''1''), (''name'', JString ''y'')]" by simp
  with m(1) show ?thesis by auto
qed

text \<open>Theirs adds an entity: the merged row has the id and no name.\<close>

lemma example_added:
  "\<exists>fs' m. merge_example [] [] [(''1'', ''z'')] Manual = Some (fs', Inr m) \<and> mr_success m"
proof -
  let ?fs = "three_files [] [] [(''1'', ''z'')]"
  let ?ho = "sorted_list_of_set :: string set \<Rightarrow> string list"
  let ?oc = "changes_between ?ho (text_db []) (text_db []) [MemoryRecord]"
  let ?td = "changes_between ?ho (text_db []) (text_db [(''1'', ''z'')]) [MemoryRecord]"
  let ?d = "diff_entity ?ho ''1'' MemoryRecord (text_db []) (text_db [(''1'', ''z'')])"
  note ho = sorted_order.hash_order_axioms
  have ok: "db_ok (text_db [(''1'', ''z'')])" "db_ok (text_db [])" by (rule text_db_ok, simp)+
  have fs: "?fs (br_db_path (branch_at 1 [''a''])) = Some (text_db [])"
    "?fs (br_db_path (branch_at 2 [''b''])) = Some (text_db [])"
    "?fs (br_db_path (branch_at 3 [''c''])) = Some (text_db [(''1'', ''z'')])" by simp_all
  have idx: "obj_get (id_index ?oc) i = None" for i
    unfolding index_changes(1) [OF ho ok(2,2)] by (simp add: differs_def text_db_contents)
  have d: "d = ?d" if "d \<in> set ?td" for d
    using changes_keys [OF ho ok(2,1) that]
    by (auto simp: differs_def text_db_contents split: if_splits)
  have kd: "ed_diff_kind ?d = Added" "ed_field_diffs ?d = []"
    using diff_entity_describes [OF ho ok(2,1), of "''1''" MemoryRecord]
    by (simp_all add: describes_def text_db_contents)
  have chs: "concat (map (entity_changes ?ho Manual (id_index ?oc)) ?td) =
      map (\<lambda>_. (?d, MergedValue (JObject [(''id'', JString ''1'')]))) ?td"
  proof -
    have one: "entity_changes ?ho Manual (id_index ?oc) ?d = [(?d, MergedValue (JObject [(''id'', JString ''1'')]))]"
      by (simp add: entity_changes_def theirs_entity_to_resolved_def kd idx)
    have "map (entity_changes ?ho Manual (id_index ?oc)) ?td =
        map (\<lambda>_. [(?d, MergedValue (JObject [(''id'', JString ''1'')]))]) ?td"
    proof (rule map_cong [OF refl])
      fix x assume "x \<in> set ?td"
      from d [OF this] one show "entity_changes ?ho Manual (id_index ?oc) x =
          [(?d, MergedValue (JObject [(''id'', JString ''1'')]))]" by (simp only:)
    qed
    then show ?thesis by (simp only: concat_map_singleton)
  qed
  have left: "concat (map (entity_conflicts ?ho (id_index ?oc)) ?td) = []"
    by (simp add: entity_conflicts_def idx)
  have step: "\<exists>db'. batch_step plain_printer (db, n) (?d, MergedValue (JObject [(''id'', JString ''1'')])) =
      Inr (db', n + 1) \<and> schema db' = schema (text_db [])" if s: "schema db = schema (text_db [])" for db n
  proof -
    obtain tb where tb: "text_db [] MemoryRecord = Some tb" "tb_columns tb = [''id'', ''name'']"
      "tb_cell tb = (\<lambda>c a. Inr (text_cell a))" "tb_default tb = (\<lambda>c. Inr JNull)" by (simp add: text_db_def)
    obtain tb' where "db MemoryRecord = Some tb'" "tb_columns tb' = [''id'', ''name'']"
      "tb_cell tb' = (\<lambda>c a. Inr (text_cell a))" "tb_default tb' = (\<lambda>c. Inr JNull)"
      using schema_table [OF s tb(1)] tb by metis
    then obtain db' where u: "upsert_entity plain_printer db MemoryRecord ''1'' (JObject [(''id'', JString ''1'')]) = Inr db'"
      by (auto simp: upsert_entity_def exec_replace_def build_upsert_sql_def stored_cell_def)
    then have a: "apply_value plain_printer db MemoryRecord ?d (JObject [(''id'', JString ''1'')]) = Inr db'"
      by (simp add: apply_value_def kd)
    then show ?thesis using apply_value_schema [OF a] s by (auto simp: batch_step_def)
  qed
  have "\<exists>st'. res_foldM (batch_step plain_printer) (db, n)
      (map (\<lambda>_. (?d, MergedValue (JObject [(''id'', JString ''1'')]))) ds) = Inr st'"
    if "schema db = schema (text_db [])" for db n and ds :: "entity_diff list"
    using that
  proof (induction ds arbitrary: db n)
    case (Cons e ds)
    from step [OF Cons.prems] obtain db' where "batch_step plain_printer (db, n)
        (?d, MergedValue (JObject [(''id'', JString ''1'')])) = Inr (db', n + 1)"
      "schema db' = schema (text_db [])" by blast
    with Cons.IH show ?case by simp
  qed simp
  from this [OF refl, of 0 ?td] obtain st where "res_foldM (batch_step plain_printer) (text_db [], 0)
      (map (\<lambda>_. (?d, MergedValue (JObject [(''id'', JString ''1'')]))) ?td) = Inr st" by blast
  then have "apply_batch plain_printer (text_db []) (map (\<lambda>_. (?d, MergedValue (JObject [(''id'', JString ''1'')]))) ?td) =
      (fst st, Inr (snd st))" by (cases st) (simp add: apply_batch_def)
  then show ?thesis
    using merge_run(1) [OF ho fs, of plain_printer "(0, 0)" 0 Manual "Some [MemoryRecord]"] left chs
    by (simp add: compared_types_def merge_outcome_def)
qed

theorem merge_takes_theirs_witness:
  "\<exists>fs' m db data. merge_example [] [] [(''1'', ''z'')] Manual = Some (fs', Inr m) \<and> mr_success m \<and>
     fs' [''b''] = Some db \<and> contents db MemoryRecord ''1'' = Some data \<and> obj_get data ''name'' = Some JNull"
proof -
  let ?fs = "three_files [] [] [(''1'', ''z'')]"
  have ok: "db_ok (text_db [(''1'', ''z'')])" "db_ok (text_db [])" by (rule text_db_ok, simp)+
  have fs: "?fs (br_db_path (branch_at 1 [''a''])) = Some (text_db [])"
    "?fs (br_db_path (branch_at 2 [''b''])) = Some (text_db [])"
    "?fs (br_db_path (branch_at 3 [''c''])) = Some (text_db [(''1'', ''z'')])" by simp_all
  obtain fs' m where m: "merge_example [] [] [(''1'', ''z'')] Manual = Some (fs', Inr m)" "mr_success m"
    using example_added by blast
  have t: "distinct (compared_types (Some [MemoryRecord]))" "MemoryRecord \<in> set (compared_types (Some [MemoryRecord]))"
    by (simp_all add: compared_types_def)
  have dt: "differs (text_db []) (text_db [(''1'', ''z'')]) MemoryRecord ''1''"
    "\<forall>u \<in> set (compared_types (Some [MemoryRecord])). \<not> differs (text_db []) (text_db []) u ''1''"
    by (simp_all add: differs_def text_db_contents)
  from merge_takes_theirs [OF sorted_order.hash_order_axioms ok(2,2,1) fs m t dt] obtain db where
    db: "fs' [''b''] = Some db"
      "taken_row plain_printer (text_db []) (text_db []) (text_db [(''1'', ''z'')]) db MemoryRecord ''1''"
    by auto
  then obtain data where data: "contents db MemoryRecord ''1'' = Some data" "obj_get data ''name'' = Some JNull"
    unfolding taken_row_def text_db_contents text_db_def by auto
  with m db(1) show ?thesis by blast
qed

end
