(* ===== verification/Codecs.thy ===== *)
theory Codecs
  imports Types
begin

text \<open>
  The text codecs the crate takes from \<open>serde_json\<close> and from the path type: an interface with the
  round-trip laws the registry relies on, and a concrete codec with these laws.
\<close>

record text_codec =
  json_str :: "json \<Rightarrow> string"
  json_parse :: "string \<Rightarrow> json option"
  ids_str :: "string list \<Rightarrow> string"
  ids_parse :: "string \<Rightarrow> string list option"
  path_str :: "path \<Rightarrow> string"
  path_of :: "string \<Rightarrow> path"

text \<open>
  Printing and parsing back, for JSON values without floating-point numbers, vectors of strings, and
  Unicode paths.
\<close>

locale text_codec_laws =
  fixes K :: text_codec
  assumes json_roundtrip: "printable v \<Longrightarrow> json_parse K (json_str K v) = Some v"
    and ids_roundtrip: "ids_parse K (ids_str K ids) = Some ids"
    and path_roundtrip: "path_of K (path_str K p) = p"

section \<open>A compact codec\<close>

text \<open>
  A prefix notation: a letter for the constructor, lengths and numbers in unary. It is not JSON text;
  it is the instance with which the witnesses show that the laws can hold.
\<close>

definition tally :: "nat \<Rightarrow> string" where
  "tally n = replicate n (CHR ''1'') @ ''.''"

definition untally :: "string \<Rightarrow> nat \<times> string" where
  "untally s = (length (takeWhile (\<lambda>c. c = CHR ''1'') s), tl (dropWhile (\<lambda>c. c = CHR ''1'') s))"

lemma untally_tally [simp]: "untally (tally n @ r) = (n, r)"
  by (induction n) (simp_all add: tally_def untally_def)

lemma length_tally [simp]: "length (tally n) = Suc n"
  by (simp add: tally_def)

fun pack_number :: "number \<Rightarrow> string" where
  "pack_number (PosInt n) = CHR ''p'' # tally (unat n)"
| "pack_number (NegInt n) = CHR ''m'' # tally (unat n)"
| "pack_number (Float r) = ''n''"

fun pack :: "json \<Rightarrow> string" where
  "pack JNull = ''n''"
| "pack (JBool b) = (if b then ''t'' else ''f'')"
| "pack (JNumber n) = pack_number n"
| "pack (JString s) = CHR ''s'' # tally (length s) @ s"
| "pack (JArray xs) = CHR ''a'' # tally (length xs) @ concat (map pack xs)"
| "pack (JObject m) =
     CHR ''o'' # tally (length m) @ concat (map (\<lambda>(k, v). tally (length k) @ k @ pack v) m)"

fun unpack :: "nat \<Rightarrow> string \<Rightarrow> json \<times> string"
  and unpack_items :: "nat \<Rightarrow> nat \<Rightarrow> string \<Rightarrow> json list \<times> string"
  and unpack_fields :: "nat \<Rightarrow> nat \<Rightarrow> string \<Rightarrow> (string \<times> json) list \<times> string" where
  "unpack (Suc k) (c # s) =
     (if c = CHR ''t'' then (JBool True, s)
      else if c = CHR ''f'' then (JBool False, s)
      else if c = CHR ''p'' then (case untally s of (n, s) \<Rightarrow> (JNumber (PosInt (of_nat n)), s))
      else if c = CHR ''m'' then (case untally s of (n, s) \<Rightarrow> (JNumber (NegInt (of_nat n)), s))
      else if c = CHR ''s'' then (case untally s of (n, s) \<Rightarrow> (JString (take n s), drop n s))
      else if c = CHR ''a'' then
        (case untally s of (n, s) \<Rightarrow> (case unpack_items k n s of (xs, s) \<Rightarrow> (JArray xs, s)))
      else if c = CHR ''o'' then
        (case untally s of (n, s) \<Rightarrow> (case unpack_fields k n s of (m, s) \<Rightarrow> (JObject m, s)))
      else (JNull, s))"
| "unpack k s = (JNull, s)"
| "unpack_items (Suc k) (Suc n) s =
     (case unpack k s of (x, s) \<Rightarrow> (case unpack_items k n s of (xs, s) \<Rightarrow> (x # xs, s)))"
| "unpack_items k n s = ([], s)"
| "unpack_fields (Suc k) (Suc n) s =
     (case untally s of (l, s) \<Rightarrow>
       (case unpack k (drop l s) of (v, s') \<Rightarrow>
         (case unpack_fields k n s' of (m, s') \<Rightarrow> ((take l s, v) # m, s'))))"
| "unpack_fields k n s = ([], s)"

lemma pack_not_empty: "0 < length (pack v)"
proof (cases v)
  case (JNumber n)
  then show ?thesis by (cases n) simp_all
qed simp_all

lemma unpack_items_pack:
  assumes "\<And>v k r. v \<in> set xs \<Longrightarrow> length (pack v) \<le> k \<Longrightarrow> unpack k (pack v @ r) = (v, r)"
    and "length (concat (map pack xs)) < k"
  shows "unpack_items k (length xs) (concat (map pack xs) @ r) = (xs, r)"
  using assms
proof (induction xs arbitrary: k)
  case (Cons x xs)
  obtain k' where k: "k = Suc k'" using Cons.prems(2) by (cases k) auto
  have "unpack k' (pack x @ concat (map pack xs) @ r) = (x, concat (map pack xs) @ r)"
    using Cons.prems k by simp
  moreover have "unpack_items k' (length xs) (concat (map pack xs) @ r) = (xs, r)"
    using Cons.prems k pack_not_empty [of x] by (intro Cons.IH) (auto simp del: length_greater_0_conv)
  ultimately show ?case by (simp add: k)
qed simp

lemma unpack_fields_pack:
  assumes "\<And>f v k r. (f, v) \<in> set m \<Longrightarrow> length (pack v) \<le> k \<Longrightarrow> unpack k (pack v @ r) = (v, r)"
    and "length (concat (map (\<lambda>(f, v). tally (length f) @ f @ pack v) m)) < k"
  shows "unpack_fields k (length m) (concat (map (\<lambda>(f, v). tally (length f) @ f @ pack v) m) @ r) = (m, r)"
  using assms
proof (induction m arbitrary: k)
  case (Cons e m)
  obtain f v where e: "e = (f, v)" by force
  obtain k' where k: "k = Suc k'" using Cons.prems(2) by (cases k) auto
  let ?c = "concat (map (\<lambda>(f, v). tally (length f) @ f @ pack v) m)"
  have "unpack k' (pack v @ ?c @ r) = (v, ?c @ r)"
    by (rule Cons.prems(1) [of f]) (use Cons.prems(2) k e in simp_all)
  moreover have "unpack_fields k' (length m) (?c @ r) = (m, r)"
    by (rule Cons.IH) (use Cons.prems k e in auto)
  ultimately show ?case by (simp add: k e)
qed simp

lemma unpack_pack: "printable v \<Longrightarrow> length (pack v) \<le> k \<Longrightarrow> unpack k (pack v @ r) = (v, r)"
proof (induction v arbitrary: k r)
  case (JNumber n)
  then show ?case by (cases n; cases k) auto
next
  case (JArray xs)
  then obtain k' where k: "k = Suc k'" by (cases k) auto
  have "unpack_items k' (length xs) (concat (map pack xs) @ r) = (xs, r)"
    using JArray k by (intro unpack_items_pack) auto
  then show ?case by (simp add: k)
next
  case (JObject m)
  then obtain k' where k: "k = Suc k'" by (cases k) auto
  have "unpack_fields k' (length m) (concat (map (\<lambda>(f, v). tally (length f) @ f @ pack v) m) @ r) = (m, r)"
    using JObject k by (intro unpack_fields_pack) (auto simp: snds.simps)
  then show ?case by (simp add: k)
next
  case (JBool b)
  then show ?case by (cases k; cases b) auto
qed (case_tac [!] k, auto)

definition strings_of :: "json \<Rightarrow> string list" where
  "strings_of v = (case v of JArray xs \<Rightarrow> map (\<lambda>x. case x of JString s \<Rightarrow> s | _ \<Rightarrow> []) xs | _ \<Rightarrow> [])"

definition compact_codec :: text_codec where
  "compact_codec =
     \<lparr>json_str = pack, json_parse = (\<lambda>s. Some (fst (unpack (length s) s))),
      ids_str = (\<lambda>ids. pack (JArray (map JString ids))),
      ids_parse = (\<lambda>s. Some (strings_of (fst (unpack (length s) s)))),
      path_str = (\<lambda>p. pack (JArray (map JString p))),
      path_of = (\<lambda>s. strings_of (fst (unpack (length s) s)))\<rparr>"

lemma unpack_all: "printable v \<Longrightarrow> unpack (length (pack v)) (pack v) = (v, [])"
  using unpack_pack [of v "length (pack v)" "[]"] by simp

lemma strings_of_pack: "strings_of (fst (unpack (length (pack (JArray (map JString ids))))
    (pack (JArray (map JString ids))))) = ids"
proof -
  have "printable (JArray (map JString ids))" by auto
  from unpack_all [OF this] show ?thesis by (simp add: strings_of_def comp_def)
qed

interpretation compact: text_codec_laws compact_codec
  by unfold_locales (simp_all only: compact_codec_def text_codec.simps unpack_all strings_of_pack fst_conv)

end
