(* ===== verification/Store.thy ===== *)
theory Store
  imports Codecs "HOL-Library.Multiset"
begin

text \<open>
  \<open>src/branch/store.rs\<close> over the tables of \<open>migrations/\<close>: the branch registry. A row holds the texts
  and integers the code binds; every read decodes them again. The state is explicit: an operation
  returns the registry it leaves with its result, and each statement commits on its own.

  Arguments of the model: the string codecs of \<open>uuid\<close> and \<open>chrono\<close> (\<open>Types\<close>), those of \<open>serde_json\<close>
  and of paths (\<open>Codecs\<close>), and the order in which SQLite delivers rows that the statement does not fix.
\<close>

section \<open>Rows\<close>

record branch_row =
  rw_id :: string
  rw_name :: string
  rw_slug :: string
  rw_workspace_id :: string
  rw_parent_id :: "string option"
  rw_status :: string
  rw_db_path :: string
  rw_snapshot_path :: string
  rw_forked_from_cursor :: "string option"
  rw_description :: "string option"
  rw_metadata :: string
  rw_created_at :: string
  rw_updated_at :: string

record metrics_row =
  mw_branch_id :: string
  mw_op_count :: int
  mw_memory_record_count :: int
  mw_session_count :: int
  mw_tool_output_count :: int
  mw_bytes_on_disk :: int
  mw_divergence_score :: real
  mw_created_entity_count :: int
  mw_updated_entity_count :: int
  mw_deleted_entity_count :: int
  mw_last_activity_at :: "string option"
  mw_refreshed_at :: string

record commit_row =
  cw_id :: string
  cw_branch_id :: string
  cw_entity_type :: "string option"
  cw_entity_ids :: string
  cw_op_kind :: string
  cw_committed_at :: string
  cw_message :: "string option"

record registry =
  rg_branches :: "branch_row list"
  rg_metrics :: "metrics_row list"
  rg_commits :: "commit_row list"

section \<open>Row orders\<close>

text \<open>
  \<open>so_scan\<close> is the order of a query without \<open>ORDER BY\<close>, \<open>so_created\<close> that of \<open>ORDER BY created_at ASC\<close>
  and \<open>so_committed\<close> that of \<open>ORDER BY committed_at DESC\<close> (texts compare bytewise); rows that compare
  equal come in any order.
\<close>

record sql_order =
  so_scan :: "branch_row list \<Rightarrow> branch_row list"
  so_created :: "branch_row list \<Rightarrow> branch_row list"
  so_committed :: "commit_row list \<Rightarrow> commit_row list"

locale sql_order_laws =
  fixes Q :: sql_order
  assumes mset_scan: "mset (so_scan Q rows) = mset rows"
    and mset_created: "mset (so_created Q rows) = mset rows"
    and sorted_created: "sorted (map rw_created_at (so_created Q rows))"
    and mset_committed: "mset (so_committed Q cs) = mset cs"
    and sorted_committed: "sorted (rev (map cw_committed_at (so_committed Q cs)))"
begin

lemma set_orders [simp]:
  "set (so_scan Q rows) = set rows" "set (so_created Q rows) = set rows"
  "set (so_committed Q cs) = set cs"
  using mset_scan mset_created mset_committed by (metis mset_eq_setD)+

lemma length_created [simp]: "length (so_created Q rows) = length rows"
  using mset_created by (metis size_mset)

end

definition table_order :: sql_order where
  "table_order = \<lparr>so_scan = (\<lambda>rows. rows), so_created = sort_key rw_created_at,
     so_committed = (\<lambda>cs. rev (sort_key cw_committed_at cs))\<rparr>"

interpretation table_order: sql_order_laws table_order
  by unfold_locales (simp_all add: table_order_def rev_map)

section \<open>Encoding\<close>

definition branch_row_of :: "codec \<Rightarrow> text_codec \<Rightarrow> branch \<Rightarrow> branch_row" where
  "branch_row_of C K b =
     \<lparr>rw_id = uuid_str C (br_id b), rw_name = br_name b, rw_slug = br_slug b,
      rw_workspace_id = uuid_str C (br_workspace_id b),
      rw_parent_id = map_option (uuid_str C) (br_parent_id b),
      rw_status = to_storage C (br_status b),
      rw_db_path = path_str K (br_db_path b), rw_snapshot_path = path_str K (br_snapshot_path b),
      rw_forked_from_cursor = br_forked_from_cursor b, rw_description = br_description b,
      rw_metadata = json_str K (br_metadata b),
      rw_created_at = dt_rfc3339 C (br_created_at b), rw_updated_at = dt_rfc3339 C (br_updated_at b)\<rparr>"

definition metrics_row_of :: "codec \<Rightarrow> datetime \<Rightarrow> uuid \<Rightarrow> branch_metrics \<Rightarrow> metrics_row" where
  "metrics_row_of C now id' m =
     \<lparr>mw_branch_id = uuid_str C id', mw_op_count = sint (op_count m),
      mw_memory_record_count = memory_record_count m, mw_session_count = session_count m,
      mw_tool_output_count = tool_output_count m, mw_bytes_on_disk = sint (bytes_on_disk m),
      mw_divergence_score = divergence_score m, mw_created_entity_count = sint (created_entity_count m),
      mw_updated_entity_count = sint (updated_entity_count m),
      mw_deleted_entity_count = sint (deleted_entity_count m),
      mw_last_activity_at = map_option (dt_rfc3339 C) (last_activity_at m),
      mw_refreshed_at = dt_rfc3339 C now\<rparr>"

definition commit_row_of :: "codec \<Rightarrow> text_codec \<Rightarrow> commit_log_entry \<Rightarrow> commit_row" where
  "commit_row_of C K entry =
     \<lparr>cw_id = uuid_str C (cl_id entry), cw_branch_id = uuid_str C (cl_branch_id entry),
      cw_entity_type = map_option as_str (cl_entity_type entry),
      cw_entity_ids = ids_str K (cl_entity_ids entry), cw_op_kind = cl_op_kind entry,
      cw_committed_at = dt_rfc3339 C (cl_committed_at entry), cw_message = cl_message entry\<rparr>"

section \<open>Decoding\<close>

definition parse_uuid :: "codec \<Rightarrow> string \<Rightarrow> uuid branch_result" where
  "parse_uuid C value = ok_or (Serialization ''invalid uuid'') (uuid_parse C value)"

definition parse_datetime :: "codec \<Rightarrow> string \<Rightarrow> datetime branch_result" where
  "parse_datetime C value = ok_or (Serialization ''invalid datetime'') (dt_parse C value)"

text \<open>\<open>map(f).transpose()?\<close> on an optional column.\<close>

definition opt_transpose :: "('a \<Rightarrow> 'b branch_result) \<Rightarrow> 'a option \<Rightarrow> 'b option branch_result" where
  "opt_transpose f v = (case v of None \<Rightarrow> Inr None | Some x \<Rightarrow> res_bind (f x) (\<lambda>y. Inr (Some y)))"

text \<open>A row joined with its metrics row, if any (\<open>LEFT JOIN\<close>: otherwise all metrics are \<open>NULL\<close>).\<close>

definition metrics_from_row :: "codec \<Rightarrow> metrics_row option \<Rightarrow> branch_metrics branch_result" where
  "metrics_from_row C m =
     (case m of
        None \<Rightarrow> Inr default_metrics
      | Some row \<Rightarrow>
          res_bind (opt_transpose (parse_datetime C) (mw_last_activity_at row)) (\<lambda>last_activity.
            Inr \<lparr>op_count = word_of_int (mw_op_count row),
                 memory_record_count = mw_memory_record_count row, session_count = mw_session_count row,
                 tool_output_count = mw_tool_output_count row,
                 bytes_on_disk = word_of_int (mw_bytes_on_disk row),
                 divergence_score = mw_divergence_score row,
                 created_entity_count = word_of_int (mw_created_entity_count row),
                 updated_entity_count = word_of_int (mw_updated_entity_count row),
                 deleted_entity_count = word_of_int (mw_deleted_entity_count row),
                 last_activity_at = last_activity\<rparr>))"

definition branch_from_row ::
    "codec \<Rightarrow> text_codec \<Rightarrow> branch_row \<Rightarrow> metrics_row option \<Rightarrow> branch branch_result" where
  "branch_from_row C K row m =
     res_bind (parse_uuid C (rw_id row)) (\<lambda>id'.
     res_bind (parse_uuid C (rw_workspace_id row)) (\<lambda>workspace_id.
     res_bind (opt_transpose (parse_uuid C) (rw_parent_id row)) (\<lambda>parent_id.
     res_bind (ok_or (Serialization (''invalid branch status: '' @ rw_status row))
       (from_storage C (rw_status row))) (\<lambda>status.
     res_bind (ok_or (Serialization ''invalid json'') (json_parse K (rw_metadata row))) (\<lambda>metadata.
     res_bind (parse_datetime C (rw_created_at row)) (\<lambda>created_at.
     res_bind (parse_datetime C (rw_updated_at row)) (\<lambda>updated_at.
     res_bind (metrics_from_row C m) (\<lambda>metrics.
       Inr \<lparr>br_id = id', br_name = rw_name row, br_slug = rw_slug row, br_parent_id = parent_id,
            br_status = status, br_db_path = path_of K (rw_db_path row),
            br_snapshot_path = path_of K (rw_snapshot_path row), br_workspace_id = workspace_id,
            br_created_at = created_at, br_updated_at = updated_at,
            br_forked_from_cursor = rw_forked_from_cursor row, br_description = rw_description row,
            br_metadata = metadata, br_metrics = metrics\<rparr>))))))))"

definition commit_log_from_row :: "codec \<Rightarrow> text_codec \<Rightarrow> commit_row \<Rightarrow> commit_log_entry branch_result" where
  "commit_log_from_row C K row =
     res_bind (parse_uuid C (cw_id row)) (\<lambda>id'.
     res_bind (parse_uuid C (cw_branch_id row)) (\<lambda>branch_id.
     res_bind (ok_or (Serialization ''invalid json'') (ids_parse K (cw_entity_ids row))) (\<lambda>entity_ids.
     res_bind (parse_datetime C (cw_committed_at row)) (\<lambda>committed_at.
       Inr \<lparr>cl_id = id', cl_branch_id = branch_id,
            cl_entity_type = Option.bind (cw_entity_type row) parse_entity_type,
            cl_entity_ids = entity_ids, cl_op_kind = cw_op_kind row,
            cl_committed_at = committed_at, cl_message = cw_message row\<rparr>))))"

section \<open>Operations\<close>

definition foreign_key_failed :: branch_error where
  "foreign_key_failed = Database ''FOREIGN KEY constraint failed''"

definition unique_failed :: branch_error where
  "unique_failed = Database ''UNIQUE constraint failed''"

text \<open>\<open>map_unique_name_error\<close>, on the two constraint errors of an insert.\<close>

definition map_unique_name_error :: "string \<Rightarrow> branch_error \<Rightarrow> branch_error" where
  "map_unique_name_error name e = (if e = unique_failed then BranchAlreadyExists name else e)"

text \<open>The \<open>INSERT\<close> into \<open>branches\<close>: the primary key and \<open>UNIQUE(workspace_id, slug)\<close>.\<close>

definition exec_insert_branch :: "branch_row \<Rightarrow> registry \<Rightarrow> registry branch_result" where
  "exec_insert_branch row R =
     (if \<exists>r \<in> set (rg_branches R). rw_id r = rw_id row \<or>
           (rw_workspace_id r = rw_workspace_id row \<and> rw_slug r = rw_slug row)
      then Inl unique_failed
      else Inr (R\<lparr>rg_branches := rg_branches R @ [row]\<rparr>))"

text \<open>The upsert into \<open>branch_metrics\<close>; a new row must reference a branch.\<close>

definition store_update_metrics ::
    "codec \<Rightarrow> datetime \<Rightarrow> registry \<Rightarrow> uuid \<Rightarrow> branch_metrics \<Rightarrow> registry \<times> unit branch_result" where
  "store_update_metrics C now R id' metrics =
     (let row = metrics_row_of C now id' metrics
      in if \<exists>m \<in> set (rg_metrics R). mw_branch_id m = mw_branch_id row
         then (R\<lparr>rg_metrics := map (\<lambda>m. if mw_branch_id m = mw_branch_id row then row else m)
                                  (rg_metrics R)\<rparr>, Inr ())
         else if \<exists>r \<in> set (rg_branches R). rw_id r = mw_branch_id row
         then (R\<lparr>rg_metrics := rg_metrics R @ [row]\<rparr>, Inr ())
         else (R, Inl foreign_key_failed))"

definition store_insert ::
    "codec \<Rightarrow> text_codec \<Rightarrow> datetime \<Rightarrow> registry \<Rightarrow> branch \<Rightarrow> registry \<times> unit branch_result" where
  "store_insert C K now R b =
     (case exec_insert_branch (branch_row_of C K b) R of
        Inl e \<Rightarrow> (R, Inl (map_unique_name_error (br_name b) e))
      | Inr R \<Rightarrow> store_update_metrics C now R (br_id b) (br_metrics b))"

definition metrics_row_for :: "registry \<Rightarrow> branch_row \<Rightarrow> metrics_row option" where
  "metrics_row_for R row = find (\<lambda>m. mw_branch_id m = rw_id row) (rg_metrics R)"

definition read_row :: "codec \<Rightarrow> text_codec \<Rightarrow> registry \<Rightarrow> branch_row \<Rightarrow> branch branch_result" where
  "read_row C K R row = branch_from_row C K row (metrics_row_for R row)"

definition fetch_branch ::
    "codec \<Rightarrow> text_codec \<Rightarrow> sql_order \<Rightarrow> registry \<Rightarrow> (branch_row \<Rightarrow> bool) \<Rightarrow> branch_error \<Rightarrow> branch branch_result" where
  "fetch_branch C K Q R P missing =
     res_bind (opt_transpose (read_row C K R) (find P (so_scan Q (rg_branches R)))) (ok_or missing)"

definition store_get ::
    "codec \<Rightarrow> text_codec \<Rightarrow> sql_order \<Rightarrow> registry \<Rightarrow> uuid \<Rightarrow> uuid \<Rightarrow> branch branch_result" where
  "store_get C K Q R workspace_id id' =
     fetch_branch C K Q R (\<lambda>b. rw_workspace_id b = uuid_str C workspace_id \<and> rw_id b = uuid_str C id')
       (BranchNotFound id')"

definition store_get_by_slug ::
    "codec \<Rightarrow> text_codec \<Rightarrow> sql_order \<Rightarrow> registry \<Rightarrow> uuid \<Rightarrow> string \<Rightarrow> branch branch_result" where
  "store_get_by_slug C K Q R workspace_id slug =
     fetch_branch C K Q R (\<lambda>b. rw_workspace_id b = uuid_str C workspace_id \<and> rw_slug b = slug)
       (BranchAlreadyExists slug)"

definition store_get_by_name ::
    "codec \<Rightarrow> text_codec \<Rightarrow> sql_order \<Rightarrow> registry \<Rightarrow> uuid \<Rightarrow> string \<Rightarrow> branch branch_result" where
  "store_get_by_name C K Q R workspace_id name =
     fetch_branch C K Q R (\<lambda>b. rw_workspace_id b = uuid_str C workspace_id \<and> rw_name b = name)
       (BranchAlreadyExists name)"

definition store_list ::
    "codec \<Rightarrow> text_codec \<Rightarrow> sql_order \<Rightarrow> registry \<Rightarrow> uuid \<Rightarrow> branch_status option \<Rightarrow> branch list branch_result" where
  "store_list C K Q R workspace_id status =
     res_bind (res_mapM (read_row C K R)
       (so_created Q (filter (\<lambda>b. rw_workspace_id b = uuid_str C workspace_id) (rg_branches R)))) (\<lambda>branches.
     Inr (case status of
            Some expected \<Rightarrow> filter (\<lambda>b. kind (br_status b) = kind expected) branches
          | None \<Rightarrow> branches))"

definition store_update_status ::
    "codec \<Rightarrow> datetime \<Rightarrow> registry \<Rightarrow> uuid \<Rightarrow> branch_status \<Rightarrow> registry \<times> unit branch_result" where
  "store_update_status C now R id' status =
     (let hits = (\<lambda>r. rw_id r = uuid_str C id');
          rows_affected = length (filter hits (rg_branches R));
          R' = R\<lparr>rg_branches := map (\<lambda>r. if hits r
                   then r\<lparr>rw_status := to_storage C status, rw_updated_at := dt_rfc3339 C now\<rparr> else r)
                 (rg_branches R)\<rparr>
      in if rows_affected = 0 then (R', Inl (BranchNotFound id')) else (R', Inr ()))"

definition store_delete :: "codec \<Rightarrow> registry \<Rightarrow> uuid \<Rightarrow> registry \<times> unit branch_result" where
  "store_delete C R id' =
     (let key = uuid_str C id';
          R1 = R\<lparr>rg_metrics := filter (\<lambda>m. mw_branch_id m \<noteq> key) (rg_metrics R)\<rparr>;
          rows_affected = length (filter (\<lambda>r. rw_id r = key) (rg_branches R1))
      in if rows_affected \<noteq> 0 \<and> (\<exists>c \<in> set (rg_commits R1). cw_branch_id c = key)
         then (R1, Inl foreign_key_failed)
         else
           let R2 = R1\<lparr>rg_branches := filter (\<lambda>r. rw_id r \<noteq> key) (rg_branches R1)\<rparr>
           in if rows_affected = 0 then (R2, Inl (BranchNotFound id')) else (R2, Inr ()))"

definition store_count :: "codec \<Rightarrow> registry \<Rightarrow> uuid \<Rightarrow> u64" where
  "store_count C R workspace_id =
     of_nat (length (filter (\<lambda>b. rw_workspace_id b = uuid_str C workspace_id) (rg_branches R)))"

definition store_count_active :: "codec \<Rightarrow> registry \<Rightarrow> uuid \<Rightarrow> u64" where
  "store_count_active C R workspace_id =
     of_nat (length (filter (\<lambda>b. rw_workspace_id b = uuid_str C workspace_id \<and>
       (rw_status b = ''active'' \<or> rw_status b = ''dormant'')) (rg_branches R)))"

definition insert_commit_log ::
    "codec \<Rightarrow> text_codec \<Rightarrow> registry \<Rightarrow> commit_log_entry \<Rightarrow> registry \<times> unit branch_result" where
  "insert_commit_log C K R entry =
     (let row = commit_row_of C K entry
      in if \<exists>c \<in> set (rg_commits R). cw_id c = cw_id row then (R, Inl unique_failed)
         else if \<not> (\<exists>r \<in> set (rg_branches R). rw_id r = cw_branch_id row) then (R, Inl foreign_key_failed)
         else (R\<lparr>rg_commits := rg_commits R @ [row]\<rparr>, Inr ()))"

definition list_commits ::
    "codec \<Rightarrow> text_codec \<Rightarrow> sql_order \<Rightarrow> registry \<Rightarrow> uuid \<Rightarrow> u32 \<Rightarrow> commit_log_entry list branch_result" where
  "list_commits C K Q R branch_id limit =
     res_mapM (commit_log_from_row C K)
       (take (unat limit) (so_committed Q (filter (\<lambda>c. cw_branch_id c = uuid_str C branch_id) (rg_commits R))))"

definition count_commits :: "codec \<Rightarrow> registry \<Rightarrow> uuid \<Rightarrow> u64" where
  "count_commits C R branch_id =
     of_nat (length (filter (\<lambda>c. cw_branch_id c = uuid_str C branch_id) (rg_commits R)))"

section \<open>The registry as a map\<close>

text \<open>
  What the rows stand for: a finite map from branch ids to branches. \<open>registry_ok\<close> is the invariant
  of the tables: keys, the unique pairs, the references, and rows that some value was bound to.
\<close>

definition branches_of :: "codec \<Rightarrow> text_codec \<Rightarrow> registry \<Rightarrow> uuid \<Rightarrow> branch option" where
  "branches_of C K R id' =
     (case find (\<lambda>r. rw_id r = uuid_str C id') (rg_branches R) of
        None \<Rightarrow> None
      | Some r \<Rightarrow> (case read_row C K R r of Inr b \<Rightarrow> Some b | Inl _ \<Rightarrow> None))"

definition registry_ok :: "codec \<Rightarrow> text_codec \<Rightarrow> registry \<Rightarrow> bool" where
  "registry_ok C K R \<longleftrightarrow>
     distinct (map rw_id (rg_branches R)) \<and>
     distinct (map (\<lambda>r. (rw_workspace_id r, rw_slug r)) (rg_branches R)) \<and>
     distinct (map mw_branch_id (rg_metrics R)) \<and> distinct (map cw_id (rg_commits R)) \<and>
     mw_branch_id ` set (rg_metrics R) \<subseteq> rw_id ` set (rg_branches R) \<and>
     cw_branch_id ` set (rg_commits R) \<subseteq> rw_id ` set (rg_branches R) \<and>
     (\<forall>r \<in> set (rg_branches R). \<exists>b. printable (br_metadata b) \<and> r = branch_row_of C K b) \<and>
     (\<forall>m \<in> set (rg_metrics R). \<exists>now id' v. m = metrics_row_of C now id' v) \<and>
     (\<forall>c \<in> set (rg_commits R). \<exists>e. c = commit_row_of C K e)"

definition empty_registry :: registry where
  "empty_registry = \<lparr>rg_branches = [], rg_metrics = [], rg_commits = []\<rparr>"

definition metrics_in :: "codec \<Rightarrow> registry \<Rightarrow> uuid \<Rightarrow> branch_metrics" where
  "metrics_in C R id' =
     (case metrics_from_row C (find (\<lambda>m. mw_branch_id m = uuid_str C id') (rg_metrics R)) of
        Inr m \<Rightarrow> m | Inl _ \<Rightarrow> default_metrics)"

locale store_env = codec_laws C + text_codec_laws K + sql_order_laws Q
  for C :: codec and K :: text_codec and Q :: sql_order

interpretation sample: store_env decimal_codec compact_codec table_order ..

lemma find_map_key: "find (\<lambda>y. k y = c) (map f xs) = map_option f (find (\<lambda>x. k (f x) = c) xs)"
  by (induction xs) auto

lemma find_unique:
  assumes "distinct (map k xs)" and "x \<in> set xs" and "k x = c"
  shows "find (\<lambda>y. k y = c) xs = Some x"
  using assms by (induction xs) auto

lemma find_perm:
  assumes "distinct (map k xs)" and "mset ys = mset xs"
  shows "find (\<lambda>y. k y = c) ys = find (\<lambda>y. k y = c) xs"
proof -
  have d: "distinct (map k ys)" using assms by (metis mset_eq_imp_distinct_iff mset_map)
  have s: "set ys = set xs" using assms(2) by (rule mset_eq_setD)
  show ?thesis
  proof (cases "find (\<lambda>y. k y = c) xs")
    case None
    then have "find (\<lambda>y. k y = c) ys = None" using s by (simp add: find_None_iff)
    then show ?thesis using None by simp
  next
    case (Some x)
    then have "x \<in> set ys" "k x = c" using s by (auto simp: find_Some_iff)
    then show ?thesis using find_unique [OF d] Some by simp
  qed
qed

context store_env begin

lemma uuid_str_inj [simp]: "uuid_str C u = uuid_str C v \<longleftrightarrow> u = v"
  using uuid_roundtrip by (metis option.inject)

lemma opt_uuid: "opt_transpose (parse_uuid C) (map_option (uuid_str C) p) = Inr p"
  by (cases p) (simp_all add: opt_transpose_def parse_uuid_def uuid_roundtrip)

lemma opt_datetime: "opt_transpose (parse_datetime C) (map_option (dt_rfc3339 C) t) = Inr t"
  by (cases t) (simp_all add: opt_transpose_def parse_datetime_def rfc3339_roundtrip)

lemma metrics_roundtrip: "metrics_from_row C (Some (metrics_row_of C now id' m)) = Inr m"
  by (simp add: metrics_from_row_def metrics_row_of_def opt_datetime)

lemma branch_roundtrip:
  "printable (br_metadata b) \<Longrightarrow>
   branch_from_row C K (branch_row_of C K b) m = res_bind (metrics_from_row C m) (\<lambda>v. Inr (b\<lparr>br_metrics := v\<rparr>))"
  by (cases b, cases "metrics_from_row C m")
    (simp_all add: branch_from_row_def branch_row_of_def parse_uuid_def parse_datetime_def uuid_roundtrip
      rfc3339_roundtrip opt_uuid storage_roundtrip json_roundtrip path_roundtrip)

lemma commit_roundtrip: "commit_log_from_row C K (commit_row_of C K e) = Inr e"
proof -
  have "Option.bind (map_option as_str t) parse_entity_type = t" for t
    by (cases t; (cases "the t")?) (auto simp: parse_entity_type_def)
  then show ?thesis
    by (simp add: commit_log_from_row_def commit_row_of_def parse_uuid_def parse_datetime_def
        uuid_roundtrip rfc3339_roundtrip ids_roundtrip)
qed

lemma metrics_in_row:
  assumes "registry_ok C K R"
  shows "metrics_from_row C (find (\<lambda>m. mw_branch_id m = uuid_str C id') (rg_metrics R)) = Inr (metrics_in C R id')"
proof (cases "find (\<lambda>m. mw_branch_id m = uuid_str C id') (rg_metrics R)")
  case None
  then show ?thesis by (simp add: metrics_in_def metrics_from_row_def)
next
  case (Some m)
  then have "m \<in> set (rg_metrics R)" by (auto simp: find_Some_iff)
  then obtain now i v where "m = metrics_row_of C now i v" using assms unfolding registry_ok_def by blast
  then show ?thesis using Some metrics_roundtrip by (simp add: metrics_in_def)
qed

lemma read_row_of:
  assumes "registry_ok C K R" and "printable (br_metadata b)"
  shows "read_row C K R (branch_row_of C K b) = Inr (b\<lparr>br_metrics := metrics_in C R (br_id b)\<rparr>)"
proof -
  have "rw_id (branch_row_of C K b) = uuid_str C (br_id b)" by (simp add: branch_row_of_def)
  then show ?thesis
    using metrics_in_row [OF assms(1), of "br_id b"]
    by (simp add: read_row_def metrics_row_for_def branch_roundtrip [OF assms(2)])
qed

text \<open>The rows are those of a list of branches, and the map is a lookup in that list.\<close>

lemma registry_list:
  assumes "registry_ok C K R"
  obtains bs where "rg_branches R = map (branch_row_of C K) bs"
    and "\<forall>b \<in> set bs. printable (br_metadata b)" and "distinct (map br_id bs)"
    and "\<forall>id'. branches_of C K R id' =
      map_option (\<lambda>b. b\<lparr>br_metrics := metrics_in C R id'\<rparr>) (find (\<lambda>b. br_id b = id') bs)"
proof -
  have "\<exists>bs. rg_branches R = map (branch_row_of C K) bs \<and> (\<forall>b \<in> set bs. printable (br_metadata b))"
    using assms unfolding registry_ok_def
  proof (induction "rg_branches R" arbitrary: R)
    case Nil
    then show ?case by simp
  next
    case (Cons r rs)
    have "\<forall>r \<in> set (r # rs). \<exists>b. printable (br_metadata b) \<and> r = branch_row_of C K b"
      using Cons.hyps(2) Cons.prems by simp
    then have "\<exists>f. \<forall>r \<in> set (r # rs). printable (br_metadata (f r)) \<and> r = branch_row_of C K (f r)"
      by (rule bchoice)
    then obtain f where f: "\<forall>r \<in> set (r # rs). printable (br_metadata (f r)) \<and> r = branch_row_of C K (f r)" ..
    then have "r # rs = map (branch_row_of C K) (map f (r # rs))" by (auto intro!: map_idI [symmetric])
    then show ?case using f Cons.hyps(2) by (intro exI [of _ "map f (r # rs)"]) auto
  qed
  then obtain bs where bs: "rg_branches R = map (branch_row_of C K) bs"
    "\<forall>b \<in> set bs. printable (br_metadata b)" by blast
  have k: "rw_id (branch_row_of C K b) = uuid_str C (br_id b)" for b by (simp add: branch_row_of_def)
  have "distinct (map (uuid_str C) (map br_id bs))"
    using assms unfolding registry_ok_def bs(1) by (simp add: comp_def k)
  then have d: "distinct (map br_id bs)" by (simp only: distinct_map)
  have look: "branches_of C K R id' =
      map_option (\<lambda>b. b\<lparr>br_metrics := metrics_in C R id'\<rparr>) (find (\<lambda>b. br_id b = id') bs)" for id'
  proof -
    have f: "find (\<lambda>r. rw_id r = uuid_str C id') (rg_branches R) =
        map_option (branch_row_of C K) (find (\<lambda>b. br_id b = id') bs)"
      unfolding bs(1) find_map_key by (simp add: k)
    show ?thesis
    proof (cases "find (\<lambda>b. br_id b = id') bs")
      case None
      then show ?thesis unfolding branches_of_def f by simp
    next
      case (Some b)
      then have "printable (br_metadata b)" "br_id b = id'" using bs(2) by (auto simp: find_Some_iff)
      then show ?thesis unfolding branches_of_def f Some by (simp add: read_row_of [OF assms])
    qed
  qed
  show ?thesis by (rule that [OF bs d]) (use look in blast)
qed

end

section \<open>What the reads return\<close>

lemma branch_row_of_metrics [simp]: "branch_row_of C K (b\<lparr>br_metrics := m\<rparr>) = branch_row_of C K b"
  by (simp add: branch_row_of_def)

lemma branch_row_of_sel [simp]:
  "rw_id (branch_row_of C K b) = uuid_str C (br_id b)" "rw_name (branch_row_of C K b) = br_name b"
  "rw_slug (branch_row_of C K b) = br_slug b"
  "rw_workspace_id (branch_row_of C K b) = uuid_str C (br_workspace_id b)"
  "rw_status (branch_row_of C K b) = to_storage C (br_status b)"
  "rw_created_at (branch_row_of C K b) = dt_rfc3339 C (br_created_at b)"
  by (simp_all add: branch_row_of_def)

context store_env begin

lemma branches_of_iff:
  assumes "registry_ok C K R"
  shows "branches_of C K R id' = Some b \<longleftrightarrow>
    branch_row_of C K b \<in> set (rg_branches R) \<and> br_id b = id' \<and> printable (br_metadata b) \<and>
    br_metrics b = metrics_in C R id'"
proof -
  obtain bs where bs: "rg_branches R = map (branch_row_of C K) bs" "\<forall>b \<in> set bs. printable (br_metadata b)"
    "distinct (map br_id bs)"
    and look: "\<forall>id'. branches_of C K R id' =
      map_option (\<lambda>b. b\<lparr>br_metrics := metrics_in C R id'\<rparr>) (find (\<lambda>b. br_id b = id') bs)"
    by (rule registry_list [OF assms])
  note bs = bs look [rule_format]
  show ?thesis
  proof
    assume "branches_of C K R id' = Some b"
    then obtain b0 where b0: "find (\<lambda>b. br_id b = id') bs = Some b0" "b = b0\<lparr>br_metrics := metrics_in C R id'\<rparr>"
      unfolding bs(4) by auto
    then have "b0 \<in> set bs" "br_id b0 = id'" by (auto simp: find_Some_iff)
    then show "branch_row_of C K b \<in> set (rg_branches R) \<and> br_id b = id' \<and> printable (br_metadata b) \<and>
        br_metrics b = metrics_in C R id'" using bs(1,2) b0(2) by simp
  next
    assume b: "branch_row_of C K b \<in> set (rg_branches R) \<and> br_id b = id' \<and> printable (br_metadata b) \<and>
        br_metrics b = metrics_in C R id'"
    then obtain b0 where b0: "b0 \<in> set bs" "branch_row_of C K b = branch_row_of C K b0" using bs(1) by auto
    have "branch_from_row C K (branch_row_of C K b) None = branch_from_row C K (branch_row_of C K b0) None"
      using b0(2) by simp
    then have eq: "b\<lparr>br_metrics := default_metrics\<rparr> = b0\<lparr>br_metrics := default_metrics\<rparr>"
      using b b0(1) bs(2) by (simp add: branch_roundtrip metrics_from_row_def)
    from arg_cong [OF eq, of br_id] have "br_id b = br_id b0" by simp
    then have "br_id b0 = id'" using b by simp
    then have "branches_of C K R id' = Some (b0\<lparr>br_metrics := metrics_in C R id'\<rparr>)"
      unfolding bs(4) using find_unique [OF bs(3) b0(1)] by simp
    moreover from arg_cong [OF eq, of "br_metrics_update (\<lambda>_. metrics_in C R id')"]
    have "b\<lparr>br_metrics := metrics_in C R id'\<rparr> = b0\<lparr>br_metrics := metrics_in C R id'\<rparr>" by simp
    moreover have "b\<lparr>br_metrics := br_metrics b\<rparr> = b" by simp
    then have "b\<lparr>br_metrics := metrics_in C R id'\<rparr> = b" using b by (simp only:)
    ultimately show "branches_of C K R id' = Some b" by simp
  qed
qed

lemma branches_of_id: "registry_ok C K R \<Longrightarrow> branches_of C K R id' = Some b \<Longrightarrow> br_id b = id'"
  using branches_of_iff by blast

lemma rows_of:
  assumes "registry_ok C K R"
  shows "r \<in> set (rg_branches R) \<longleftrightarrow>
    (\<exists>b. branches_of C K R (br_id b) = Some b \<and> r = branch_row_of C K b)"
proof
  assume r: "r \<in> set (rg_branches R)"
  then obtain b where b: "printable (br_metadata b)" "r = branch_row_of C K b"
    using assms unfolding registry_ok_def by blast
  let ?b = "b\<lparr>br_metrics := metrics_in C R (br_id b)\<rparr>"
  have "branches_of C K R (br_id ?b) = Some ?b" unfolding branches_of_iff [OF assms] using r b by simp
  moreover have "r = branch_row_of C K ?b" using b(2) by simp
  ultimately show "\<exists>b. branches_of C K R (br_id b) = Some b \<and> r = branch_row_of C K b" by blast
qed (use branches_of_iff [OF assms] in blast)

lemma read_stored:
  assumes "registry_ok C K R" and "branches_of C K R id' = Some b"
  shows "read_row C K R (branch_row_of C K b) = Inr b"
proof -
  have b: "printable (br_metadata b)" "br_metrics b = metrics_in C R (br_id b)"
    using assms(2) unfolding branches_of_iff [OF assms(1)] by auto
  have "b\<lparr>br_metrics := metrics_in C R (br_id b)\<rparr> = b" unfolding b(2) [symmetric] by simp
  then show ?thesis using read_row_of [OF assms(1) b(1)] by simp
qed

text \<open>A fetch returns some stored branch whose row satisfies the condition, if there is one.\<close>

lemma fetch_spec:
  assumes "registry_ok C K R"
  shows "case fetch_branch C K Q R P missing of
      Inr b \<Rightarrow> branches_of C K R (br_id b) = Some b \<and> P (branch_row_of C K b)
    | Inl e \<Rightarrow> e = missing \<and> (\<forall>b. branches_of C K R (br_id b) = Some b \<longrightarrow> \<not> P (branch_row_of C K b))"
proof (cases "find P (so_scan Q (rg_branches R))")
  case None
  then have "\<forall>r \<in> set (rg_branches R). \<not> P r" by (simp add: find_None_iff)
  then have "\<forall>b. branches_of C K R (br_id b) = Some b \<longrightarrow> \<not> P (branch_row_of C K b)"
    using rows_of [OF assms] by blast
  then show ?thesis using None by (simp add: fetch_branch_def opt_transpose_def)
next
  case (Some r)
  then have "P r" "r \<in> set (so_scan Q (rg_branches R))" unfolding find_Some_iff by (metis, metis nth_mem)
  then obtain b where b: "branches_of C K R (br_id b) = Some b" "r = branch_row_of C K b"
    using rows_of [OF assms] by auto
  then show ?thesis using Some \<open>P r\<close> read_stored [OF assms b(1)]
    by (simp add: fetch_branch_def opt_transpose_def)
qed

lemma get_eq:
  assumes "registry_ok C K R"
  shows "store_get C K Q R ws id' =
    (case branches_of C K R id' of
       Some b \<Rightarrow> if br_workspace_id b = ws then Inr b else Inl (BranchNotFound id')
     | None \<Rightarrow> Inl (BranchNotFound id'))"
proof -
  note f = fetch_spec [OF assms, of "BranchNotFound id'" "\<lambda>b. rw_workspace_id b = uuid_str C ws \<and> rw_id b = uuid_str C id'",
      folded store_get_def]
  show ?thesis
  proof (cases "store_get C K Q R ws id'")
    case (Inl e)
    then have "e = BranchNotFound id'"
      "\<forall>b. branches_of C K R (br_id b) = Some b \<longrightarrow> \<not> (br_workspace_id b = ws \<and> br_id b = id')"
      using f by simp_all
    then show ?thesis using Inl branches_of_id [OF assms, of id'] by (auto split: option.split)
  next
    case (Inr b)
    then show ?thesis using f by auto
  qed
qed

lemma unique_slug:
  assumes "registry_ok C K R" and "branches_of C K R (br_id b) = Some b" and "branches_of C K R (br_id c) = Some c"
    and "br_workspace_id b = br_workspace_id c" and "br_slug b = br_slug c"
  shows "b = c"
proof -
  have inj: "inj_on (\<lambda>r. (rw_workspace_id r, rw_slug r)) (set (rg_branches R))"
    using assms(1) by (simp add: registry_ok_def distinct_map)
  have rows: "branch_row_of C K b \<in> set (rg_branches R)" "branch_row_of C K c \<in> set (rg_branches R)"
    using assms(2,3) branches_of_iff [OF assms(1)] by blast+
  have "branch_row_of C K b = branch_row_of C K c"
    by (rule inj_onD [OF inj _ rows]) (use assms(4,5) in simp)
  from arg_cong [OF this, of rw_id] have "br_id b = br_id c" by simp
  from trans [OF sym [OF assms(2) [unfolded this]] assms(3)] show ?thesis by (rule option.inject [THEN iffD1])
qed

lemma slug_eq:
  assumes "registry_ok C K R"
  shows "store_get_by_slug C K Q R ws s = Inr b \<longleftrightarrow>
      branches_of C K R (br_id b) = Some b \<and> br_workspace_id b = ws \<and> br_slug b = s"
    and "store_get_by_slug C K Q R ws s = Inl e \<Longrightarrow> e = BranchAlreadyExists s"
proof -
  note slug = fetch_spec [OF assms, of "BranchAlreadyExists s"
      "\<lambda>b. rw_workspace_id b = uuid_str C ws \<and> rw_slug b = s", folded store_get_by_slug_def]
  show "store_get_by_slug C K Q R ws s = Inr b \<longleftrightarrow>
      branches_of C K R (br_id b) = Some b \<and> br_workspace_id b = ws \<and> br_slug b = s"
  proof (cases "store_get_by_slug C K Q R ws s")
    case (Inl x)
    then show ?thesis using slug by auto
  next
    case (Inr c)
    then have c: "branches_of C K R (br_id c) = Some c" "br_workspace_id c = ws" "br_slug c = s"
      using slug by auto
    have "c = b" if b: "branches_of C K R (br_id b) = Some b \<and> br_workspace_id b = ws \<and> br_slug b = s"
      by (rule unique_slug [OF assms c(1) conjunct1 [OF b]]) (use b c in simp_all)
    then show ?thesis unfolding Inr sum.inject using c by blast
  qed
  show "store_get_by_slug C K Q R ws s = Inl e \<Longrightarrow> e = BranchAlreadyExists s" using slug by simp
qed

end

section \<open>What the writes do\<close>

lemma option_ext: "(\<And>v. x = Some v \<longleftrightarrow> y = Some v) \<Longrightarrow> x = y"
  by (metis not_None_eq)

lemma find_append: "find P (xs @ ys) = (case find P xs of Some x \<Rightarrow> Some x | None \<Rightarrow> find P ys)"
  by (induction xs) auto

lemma find_without: "find (\<lambda>x. k x = c) (filter (\<lambda>x. k x \<noteq> d) xs) = (if c = d then None else find (\<lambda>x. k x = c) xs)"
  by (induction xs) auto

text \<open>Replacing the row with a given key.\<close>

lemma map_replace:
  assumes "distinct (map k xs)" and "x \<in> set xs" and "k x = k y"
  shows "map k (map (\<lambda>z. if k z = k y then y else z) xs) = map k xs"
    and "find (\<lambda>z. k z = c) (map (\<lambda>z. if k z = k y then y else z) xs) =
      (if c = k y then Some y else find (\<lambda>z. k z = c) xs)"
proof -
  show "map k (map (\<lambda>z. if k z = k y then y else z) xs) = map k xs" by simp
  have other: "c \<noteq> k y \<Longrightarrow> find (\<lambda>z. k z = c) (map (\<lambda>z. if k z = k y then y else z) zs) = find (\<lambda>z. k z = c) zs"
    for zs by (induction zs) auto
  have same: "x \<in> set zs \<Longrightarrow> find (\<lambda>z. k z = k y) (map (\<lambda>z. if k z = k y then y else z) zs) = Some y"
    for zs using assms(3) by (induction zs) auto
  show "find (\<lambda>z. k z = c) (map (\<lambda>z. if k z = k y then y else z) xs) =
      (if c = k y then Some y else find (\<lambda>z. k z = c) xs)"
    using other same [OF assms(2)] by simp
qed

text \<open>A branch that is stored under the id or under the workspace and slug of \<open>b\<close>.\<close>

definition clashes :: "codec \<Rightarrow> text_codec \<Rightarrow> registry \<Rightarrow> branch \<Rightarrow> bool" where
  "clashes C K R b \<longleftrightarrow>
     (\<exists>i c. branches_of C K R i = Some c \<and>
        (br_id c = br_id b \<or> (br_workspace_id c = br_workspace_id b \<and> br_slug c = br_slug b)))"

lemma registry_ok_metrics:
  assumes "registry_ok C K R" and "distinct (map mw_branch_id ms)"
    and "mw_branch_id ` set ms \<subseteq> rw_id ` set (rg_branches R)"
    and "\<forall>m \<in> set ms. \<exists>now id' v. m = metrics_row_of C now id' v"
  shows "registry_ok C K (R\<lparr>rg_metrics := ms\<rparr>)"
  using assms by (simp add: registry_ok_def)

lemma registry_ok_branches:
  assumes "registry_ok C K R" and "map rw_id rows = map rw_id (rg_branches R)"
    and "map (\<lambda>r. (rw_workspace_id r, rw_slug r)) rows = map (\<lambda>r. (rw_workspace_id r, rw_slug r)) (rg_branches R)"
    and "\<forall>r \<in> set rows. \<exists>b. printable (br_metadata b) \<and> r = branch_row_of C K b"
  shows "registry_ok C K (R\<lparr>rg_branches := rows\<rparr>)"
proof -
  have "rw_id ` set rows = rw_id ` set (rg_branches R)" using arg_cong [OF assms(2), of set] by (simp only: set_map)
  then show ?thesis using assms by (simp add: registry_ok_def)
qed

context store_env begin

lemma no_metrics:
  assumes "registry_ok C K R" and "branches_of C K R id' = None"
  shows "\<forall>m \<in> set (rg_metrics R). mw_branch_id m \<noteq> uuid_str C id'"
    and "\<forall>r \<in> set (rg_branches R). rw_id r \<noteq> uuid_str C id'"
    and "\<forall>c \<in> set (rg_commits R). cw_branch_id c \<noteq> uuid_str C id'"
proof -
  show rows: "\<forall>r \<in> set (rg_branches R). rw_id r \<noteq> uuid_str C id'"
  proof
    fix r assume "r \<in> set (rg_branches R)"
    then obtain b where b: "branches_of C K R (br_id b) = Some b" "r = branch_row_of C K b"
      using rows_of [OF assms(1)] by blast
    then have "br_id b \<noteq> id'" using assms(2) by auto
    then show "rw_id r \<noteq> uuid_str C id'" using b(2) by simp
  qed
  then have n: "uuid_str C id' \<notin> rw_id ` set (rg_branches R)" by auto
  have "mw_branch_id ` set (rg_metrics R) \<subseteq> rw_id ` set (rg_branches R)"
    "cw_branch_id ` set (rg_commits R) \<subseteq> rw_id ` set (rg_branches R)"
    using assms(1) by (simp_all add: registry_ok_def)
  with n have "uuid_str C id' \<notin> mw_branch_id ` set (rg_metrics R)" "uuid_str C id' \<notin> cw_branch_id ` set (rg_commits R)"
    by blast+
  then show "\<forall>m \<in> set (rg_metrics R). mw_branch_id m \<noteq> uuid_str C id'"
    and "\<forall>c \<in> set (rg_commits R). cw_branch_id c \<noteq> uuid_str C id'" by (metis imageI)+
qed

lemma some_row:
  assumes "registry_ok C K R" and "branches_of C K R id' = Some b"
  shows "branch_row_of C K b \<in> set (rg_branches R)" and "br_id b = id'"
  using assms(2) unfolding branches_of_iff [OF assms(1)] by blast+

lemma metrics_update_eq:
  assumes "registry_ok C K R"
  shows "case branches_of C K R id' of
      None \<Rightarrow> store_update_metrics C now R id' m = (R, Inl foreign_key_failed)
    | Some b \<Rightarrow> \<exists>R'. store_update_metrics C now R id' m = (R', Inr ()) \<and> registry_ok C K R' \<and>
        rg_branches R' = rg_branches R \<and> rg_commits R' = rg_commits R \<and>
        (\<forall>i. metrics_in C R' i = (if i = id' then m else metrics_in C R i))"
proof (cases "branches_of C K R id'")
  case None
  note n = no_metrics [OF assms None]
  have "mw_branch_id (metrics_row_of C now id' m) = uuid_str C id'" by (simp add: metrics_row_of_def)
  then show ?thesis using None n(1,2) by (simp add: store_update_metrics_def Let_def)
next
  case (Some b)
  let ?row = "metrics_row_of C now id' m"
  have k: "mw_branch_id ?row = uuid_str C id'" by (simp add: metrics_row_of_def)
  have key: "uuid_str C id' \<in> rw_id ` set (rg_branches R)"
    using some_row [OF assms Some] by (metis branch_row_of_sel(1) imageI)
  then have row: "\<exists>r \<in> set (rg_branches R). rw_id r = uuid_str C id'" by auto
  have old: "mw_branch_id ` set (rg_metrics R) \<subseteq> rw_id ` set (rg_branches R)"
    "distinct (map mw_branch_id (rg_metrics R))"
    "\<forall>m \<in> set (rg_metrics R). \<exists>now id' v. m = metrics_row_of C now id' v"
    using assms by (simp_all add: registry_ok_def)
  show ?thesis
  proof (cases "\<exists>x \<in> set (rg_metrics R). mw_branch_id x = uuid_str C id'")
    case True
    then obtain x where x: "x \<in> set (rg_metrics R)" "mw_branch_id x = mw_branch_id ?row" using k by auto
    let ?R = "R\<lparr>rg_metrics := map (\<lambda>m. if mw_branch_id m = mw_branch_id ?row then ?row else m) (rg_metrics R)\<rparr>"
    have d: "distinct (map mw_branch_id (rg_metrics R))" using assms by (simp add: registry_ok_def)
    note rep = map_replace [OF d x]
    have "store_update_metrics C now R id' m = (?R, Inr ())"
      using True k by (simp add: store_update_metrics_def Let_def)
    moreover have "registry_ok C K ?R"
    proof (rule registry_ok_metrics [OF assms])
      show "distinct (map mw_branch_id (map (\<lambda>m. if mw_branch_id m = mw_branch_id ?row then ?row else m) (rg_metrics R)))"
        unfolding rep(1) by (rule old(2))
      have "mw_branch_id ` set (map (\<lambda>m. if mw_branch_id m = mw_branch_id ?row then ?row else m) (rg_metrics R)) =
          mw_branch_id ` set (rg_metrics R)" using arg_cong [OF rep(1), of set] by (simp only: set_map)
      then show "mw_branch_id ` set (map (\<lambda>m. if mw_branch_id m = mw_branch_id ?row then ?row else m) (rg_metrics R))
          \<subseteq> rw_id ` set (rg_branches R)" using old(1) by (simp only:)
    qed (use old(3) in auto)
    moreover have "metrics_in C ?R i = (if i = id' then m else metrics_in C R i)" for i
      using rep(2) [of "uuid_str C i"] metrics_roundtrip by (simp add: metrics_in_def k)
    ultimately show ?thesis using Some by auto
  next
    case False
    let ?R = "R\<lparr>rg_metrics := rg_metrics R @ [?row]\<rparr>"
    have "store_update_metrics C now R id' m = (?R, Inr ())"
      using False row k by (simp add: store_update_metrics_def Let_def)
    moreover have "registry_ok C K ?R"
    proof (rule registry_ok_metrics [OF assms])
      have "uuid_str C id' \<notin> mw_branch_id ` set (rg_metrics R)" using False by auto
      then show "distinct (map mw_branch_id (rg_metrics R @ [?row]))" using old(2) k by simp
    qed (use old key k in auto)
    moreover have "metrics_in C ?R i = (if i = id' then m else metrics_in C R i)" for i
    proof (cases "i = id'")
      case True
      have "find (\<lambda>x. mw_branch_id x = uuid_str C id') (rg_metrics R) = None"
        using False by (simp add: find_None_iff)
      then show ?thesis using True k metrics_roundtrip by (simp add: metrics_in_def find_append)
    next
      case False
      then show ?thesis using k by (simp add: metrics_in_def find_append split: option.split)
    qed
    ultimately show ?thesis using Some by auto
  qed
qed

end

context store_env begin

lemma clashes_rows:
  assumes "registry_ok C K R"
  shows "clashes C K R b \<longleftrightarrow> (\<exists>r \<in> set (rg_branches R). rw_id r = uuid_str C (br_id b) \<or>
    (rw_workspace_id r = uuid_str C (br_workspace_id b) \<and> rw_slug r = br_slug b))"
proof
  assume "clashes C K R b"
  then obtain i c where c: "branches_of C K R i = Some c"
    "br_id c = br_id b \<or> (br_workspace_id c = br_workspace_id b \<and> br_slug c = br_slug b)"
    unfolding clashes_def by blast
  then show "\<exists>r \<in> set (rg_branches R). rw_id r = uuid_str C (br_id b) \<or>
      (rw_workspace_id r = uuid_str C (br_workspace_id b) \<and> rw_slug r = br_slug b)"
    using some_row(1) [OF assms c(1)] by (intro bexI [of _ "branch_row_of C K c"]) simp_all
next
  assume "\<exists>r \<in> set (rg_branches R). rw_id r = uuid_str C (br_id b) \<or>
      (rw_workspace_id r = uuid_str C (br_workspace_id b) \<and> rw_slug r = br_slug b)"
  then obtain r where r: "r \<in> set (rg_branches R)" "rw_id r = uuid_str C (br_id b) \<or>
      (rw_workspace_id r = uuid_str C (br_workspace_id b) \<and> rw_slug r = br_slug b)" by blast
  then obtain c where "branches_of C K R (br_id c) = Some c" "r = branch_row_of C K c"
    unfolding rows_of [OF assms] by blast
  then show "clashes C K R b" using r(2) unfolding clashes_def by auto
qed

text \<open>A changed list of rows with the same metrics.\<close>

lemma branches_of_eqI:
  assumes "registry_ok C K R'"
    and "\<And>i b. f i = Some b \<longleftrightarrow> branch_row_of C K b \<in> set (rg_branches R') \<and> br_id b = i \<and>
      printable (br_metadata b) \<and> br_metrics b = metrics_in C R' i"
  shows "branches_of C K R' = f"
  by (rule ext, rule option_ext) (simp only: branches_of_iff [OF assms(1)] assms(2))

lemma insert_row:
  assumes "registry_ok C K R" and "printable (br_metadata b)" and "\<not> clashes C K R b"
  shows "exec_insert_branch (branch_row_of C K b) R = Inr (R\<lparr>rg_branches := rg_branches R @ [branch_row_of C K b]\<rparr>)"
    and "registry_ok C K (R\<lparr>rg_branches := rg_branches R @ [branch_row_of C K b]\<rparr>)"
proof -
  have n: "\<forall>r \<in> set (rg_branches R). rw_id r \<noteq> uuid_str C (br_id b) \<and>
      \<not> (rw_workspace_id r = uuid_str C (br_workspace_id b) \<and> rw_slug r = br_slug b)"
    using assms(3) unfolding clashes_rows [OF assms(1)] by blast
  then show "exec_insert_branch (branch_row_of C K b) R = Inr (R\<lparr>rg_branches := rg_branches R @ [branch_row_of C K b]\<rparr>)"
    by (auto simp: exec_insert_branch_def)
  have i: "uuid_str C (br_id b) \<notin> set (map rw_id (rg_branches R))" using n by auto
  have s: "(uuid_str C (br_workspace_id b), br_slug b) \<notin> set (map (\<lambda>r. (rw_workspace_id r, rw_slug r)) (rg_branches R))"
    using n by auto
  show "registry_ok C K (R\<lparr>rg_branches := rg_branches R @ [branch_row_of C K b]\<rparr>)"
    unfolding registry_ok_def
    using assms(1,2) [unfolded registry_ok_def] i s by auto
qed

lemma insert_spec:
  assumes "registry_ok C K R" and "printable (br_metadata b)"
  shows "clashes C K R b \<Longrightarrow> store_insert C K now R b = (R, Inl (BranchAlreadyExists (br_name b)))"
    and "\<not> clashes C K R b \<Longrightarrow> \<exists>R'. store_insert C K now R b = (R', Inr ()) \<and> registry_ok C K R' \<and>
      branches_of C K R' = (branches_of C K R)(br_id b \<mapsto> b) \<and> rg_commits R' = rg_commits R"
proof -
  assume "clashes C K R b"
  then show "store_insert C K now R b = (R, Inl (BranchAlreadyExists (br_name b)))"
    unfolding clashes_rows [OF assms(1)]
    by (auto simp: store_insert_def exec_insert_branch_def map_unique_name_error_def)
next
  assume n: "\<not> clashes C K R b"
  let ?R = "R\<lparr>rg_branches := rg_branches R @ [branch_row_of C K b]\<rparr>"
  note ins = insert_row [OF assms n]
  let ?b = "b\<lparr>br_metrics := metrics_in C ?R (br_id b)\<rparr>"
  have "branches_of C K ?R (br_id b) = Some ?b"
    unfolding branches_of_iff [OF ins(2)] using assms(2) by simp
  then obtain R' where R': "store_update_metrics C now ?R (br_id b) (br_metrics b) = (R', Inr ())"
    "registry_ok C K R'" "rg_branches R' = rg_branches ?R" "rg_commits R' = rg_commits R"
    "\<And>i. metrics_in C R' i = (if i = br_id b then br_metrics b else metrics_in C ?R i)"
    using metrics_update_eq [OF ins(2), where id' = "br_id b" and now = now and m = "br_metrics b"] by auto
  have none: "branches_of C K R (br_id b) = None"
    using n some_row(2) [OF assms(1), of "br_id b"] unfolding clashes_def by fastforce
  have M: "metrics_in C R' i = metrics_in C R i" if "i \<noteq> br_id b" for i
    using that R'(5) [of i] by (simp add: metrics_in_def)
  have "branches_of C K R' = (branches_of C K R)(br_id b \<mapsto> b)"
  proof (rule branches_of_eqI [OF R'(2)])
    fix i c
    show "((branches_of C K R)(br_id b \<mapsto> b)) i = Some c \<longleftrightarrow>
      branch_row_of C K c \<in> set (rg_branches R') \<and> br_id c = i \<and> printable (br_metadata c) \<and>
      br_metrics c = metrics_in C R' i"
    proof (cases "i = br_id b")
      case True
      have "branch_row_of C K c \<in> set (rg_branches R') \<and> br_id c = i \<longleftrightarrow>
          branch_row_of C K c = branch_row_of C K b \<and> br_id c = i"
        using no_metrics(2) [OF assms(1) none] True unfolding R'(3) by auto
      moreover have "c = b" if "branch_row_of C K c = branch_row_of C K b" "printable (br_metadata c)"
        "br_metrics c = br_metrics b"
      proof -
        have "branch_from_row C K (branch_row_of C K c) None = branch_from_row C K (branch_row_of C K b) None"
          using that(1) by simp
        then have "c\<lparr>br_metrics := default_metrics\<rparr> = b\<lparr>br_metrics := default_metrics\<rparr>"
          using that(2) assms(2) by (simp add: branch_roundtrip metrics_from_row_def)
        from arg_cong [OF this, of "br_metrics_update (\<lambda>_. br_metrics b)"]
        have "c\<lparr>br_metrics := br_metrics c\<rparr> = b\<lparr>br_metrics := br_metrics b\<rparr>" using that(3) by simp
        then show ?thesis by simp
      qed
      ultimately show ?thesis using True R'(5) [of i] assms(2) by auto
    next
      case False
      moreover have "branch_row_of C K c \<noteq> branch_row_of C K b" if "br_id c = i"
        using that False by (metis branch_row_of_sel(1) uuid_str_inj)
      ultimately show ?thesis unfolding M [OF False] R'(3)
        using branches_of_iff [OF assms(1), of i c] by auto
    qed
  qed
  then show "\<exists>R'. store_insert C K now R b = (R', Inr ()) \<and> registry_ok C K R' \<and>
      branches_of C K R' = (branches_of C K R)(br_id b \<mapsto> b) \<and> rg_commits R' = rg_commits R"
    using R' ins(1) by (simp add: store_insert_def)
qed

lemma metrics_spec:
  assumes "registry_ok C K R" and "store_update_metrics C now R id' m = (R', r)"
  shows "registry_ok C K R' \<and> rg_commits R' = rg_commits R \<and>
    branches_of C K R' = (branches_of C K R)(id' := map_option (br_metrics_update (\<lambda>_. m)) (branches_of C K R id')) \<and>
    r = (if branches_of C K R id' = None then Inl foreign_key_failed else Inr ())"
proof (cases "branches_of C K R id'")
  case None
  then have "R' = R" "r = Inl foreign_key_failed"
    using metrics_update_eq [OF assms(1), where id' = id' and now = now and m = m] assms(2) by simp_all
  then show ?thesis using None assms(1) by auto
next
  case (Some b)
  then have R': "r = Inr ()" "registry_ok C K R'" "rg_branches R' = rg_branches R" "rg_commits R' = rg_commits R"
    "\<And>i. metrics_in C R' i = (if i = id' then m else metrics_in C R i)"
    using metrics_update_eq [OF assms(1), where id' = id' and now = now and m = m] assms(2) by auto
  have b: "branch_row_of C K b \<in> set (rg_branches R)" "br_id b = id'" "printable (br_metadata b)"
    using Some unfolding branches_of_iff [OF assms(1)] by blast+
  have "branches_of C K R' id' = Some (b\<lparr>br_metrics := m\<rparr>)"
    unfolding branches_of_iff [OF R'(2)] R'(3) using b R'(5) by simp
  moreover have "branches_of C K R' i = branches_of C K R i" if "i \<noteq> id'" for i
  proof (rule option_ext)
    fix c show "branches_of C K R' i = Some c \<longleftrightarrow> branches_of C K R i = Some c"
      unfolding branches_of_iff [OF R'(2)] branches_of_iff [OF assms(1)] R'(3) using that R'(5) by simp
  qed
  ultimately show ?thesis using R' Some by auto
qed

end

context store_env begin

lemma row_of_eq:
  assumes "branch_row_of C K c = branch_row_of C K b" and "printable (br_metadata c)" and "printable (br_metadata b)"
  shows "c\<lparr>br_metrics := m\<rparr> = b\<lparr>br_metrics := m\<rparr>"
proof -
  have "branch_from_row C K (branch_row_of C K c) None = branch_from_row C K (branch_row_of C K b) None"
    using assms(1) by simp
  then have "c\<lparr>br_metrics := default_metrics\<rparr> = b\<lparr>br_metrics := default_metrics\<rparr>"
    using assms(2,3) by (simp add: branch_roundtrip metrics_from_row_def)
  from arg_cong [OF this, of "br_metrics_update (\<lambda>_. m)"] show ?thesis by simp
qed

lemma row_hit:
  assumes "registry_ok C K R" and "branches_of C K R id' = Some b"
  shows "filter (\<lambda>row. rw_id row = uuid_str C id') (rg_branches R) \<noteq> []"
proof -
  have "branch_row_of C K b \<in> set (filter (\<lambda>row. rw_id row = uuid_str C id') (rg_branches R))"
    using some_row [OF assms] by simp
  then show ?thesis by (metis empty_iff list.set(1))
qed

lemma status_spec:
  assumes "registry_ok C K R" and "store_update_status C now R id' s = (R', r)"
  shows "registry_ok C K R' \<and> rg_commits R' = rg_commits R \<and>
    branches_of C K R' = (branches_of C K R)(id' :=
      map_option (\<lambda>b. b\<lparr>br_status := s, br_updated_at := now\<rparr>) (branches_of C K R id')) \<and>
    r = (if branches_of C K R id' = None then Inl (BranchNotFound id') else Inr ())"
proof -
  let ?f = "\<lambda>row. if rw_id row = uuid_str C id'
    then row\<lparr>rw_status := to_storage C s, rw_updated_at := dt_rfc3339 C now\<rparr> else row"
  let ?R = "R\<lparr>rg_branches := map ?f (rg_branches R)\<rparr>"
  let ?g = "\<lambda>b. if br_id b = id' then b\<lparr>br_status := s, br_updated_at := now\<rparr> else b"
  have f: "?f (branch_row_of C K b) = branch_row_of C K (?g b)" for b by (simp add: branch_row_of_def)
  have keep: "rw_id (?f row) = rw_id row" "rw_workspace_id (?f row) = rw_workspace_id row"
    "rw_slug (?f row) = rw_slug row" for row by simp_all
  have "length (filter (\<lambda>row. rw_id row = uuid_str C id') (rg_branches R)) = 0 \<longleftrightarrow> branches_of C K R id' = None"
  proof (cases "branches_of C K R id'")
    case None
    then show ?thesis using no_metrics(2) [OF assms(1) None] by (simp add: filter_empty_conv)
  next
    case (Some b)
    then show ?thesis using row_hit [OF assms(1) Some] by simp
  qed
  then have R': "R' = ?R" "r = (if branches_of C K R id' = None then Inl (BranchNotFound id') else Inr ())"
    using assms(2) by (auto simp: store_update_status_def Let_def split: if_splits)
  have ids: "map rw_id (map ?f (rg_branches R)) = map rw_id (rg_branches R)"
    "map (\<lambda>r. (rw_workspace_id r, rw_slug r)) (map ?f (rg_branches R)) = map (\<lambda>r. (rw_workspace_id r, rw_slug r)) (rg_branches R)"
    by simp_all
  have rows: "\<forall>row \<in> set (map ?f (rg_branches R)). \<exists>b. printable (br_metadata b) \<and> row = branch_row_of C K b"
  proof
    fix row assume "row \<in> set (map ?f (rg_branches R))"
    then obtain r0 where r0: "r0 \<in> set (rg_branches R)" "row = ?f r0" unfolding set_map by blast
    then obtain b where b: "printable (br_metadata b)" "r0 = branch_row_of C K b"
      using assms(1) unfolding registry_ok_def by blast
    have "printable (br_metadata (?g b))" using b(1) by simp
    moreover have "row = branch_row_of C K (?g b)" unfolding r0(2) b(2) by (rule f)
    ultimately show "\<exists>b. printable (br_metadata b) \<and> row = branch_row_of C K b" by blast
  qed
  have ok: "registry_ok C K ?R" by (rule registry_ok_branches [OF assms(1) ids rows])
  have m: "metrics_in C ?R i = metrics_in C R i" for i by (simp add: metrics_in_def)
  have "branches_of C K ?R = (branches_of C K R)(id' :=
      map_option (\<lambda>b. b\<lparr>br_status := s, br_updated_at := now\<rparr>) (branches_of C K R id'))"
  proof (rule ext)
    fix i show "branches_of C K ?R i = ((branches_of C K R)(id' :=
      map_option (\<lambda>b. b\<lparr>br_status := s, br_updated_at := now\<rparr>) (branches_of C K R id'))) i"
    proof (cases "branches_of C K R i")
      case None
      have "branches_of C K ?R i = None"
      proof (rule ccontr)
        assume "branches_of C K ?R i \<noteq> None"
        then obtain c where c: "branches_of C K ?R i = Some c" by blast
        from some_row [OF ok this] obtain r0 where "r0 \<in> set (rg_branches R)" "branch_row_of C K c = ?f r0" "br_id c = i"
          by auto
        then have "rw_id r0 = uuid_str C i" using keep(1) [of r0] by (metis branch_row_of_sel(1))
        then show False using no_metrics(2) [OF assms(1) None] \<open>r0 \<in> set (rg_branches R)\<close> by blast
      qed
      then show ?thesis using None by auto
    next
      case (Some b)
      have b: "branch_row_of C K b \<in> set (rg_branches R)" "br_id b = i" "printable (br_metadata b)"
        "br_metrics b = metrics_in C R i"
        using Some unfolding branches_of_iff [OF assms(1)] by blast+
      have "?f (branch_row_of C K b) \<in> set (map ?f (rg_branches R))" using b(1) unfolding set_map by (rule imageI)
      then have "branch_row_of C K (?g b) \<in> set (rg_branches ?R)" unfolding f by simp
      then have "branches_of C K ?R i = Some (?g b)" unfolding branches_of_iff [OF ok] m using b by simp
      then show ?thesis using Some b(2) by (cases "i = id'") simp_all
    qed
  qed
  then show ?thesis using R' ok by simp
qed

lemma delete_spec:
  assumes "registry_ok C K R" and "store_delete C R id' = (R', r)"
  shows "registry_ok C K R' \<and> rg_commits R' = rg_commits R \<and>
    (case branches_of C K R id' of
       None \<Rightarrow> r = Inl (BranchNotFound id') \<and> branches_of C K R' = branches_of C K R
     | Some b \<Rightarrow>
         if \<exists>c \<in> set (rg_commits R). cw_branch_id c = uuid_str C id'
         then r = Inl foreign_key_failed \<and>
           branches_of C K R' = (branches_of C K R)(id' \<mapsto> b\<lparr>br_metrics := default_metrics\<rparr>)
         else r = Inr () \<and> branches_of C K R' = (branches_of C K R)(id' := None))"
proof -
  let ?key = "uuid_str C id'"
  let ?R1 = "R\<lparr>rg_metrics := filter (\<lambda>m. mw_branch_id m \<noteq> ?key) (rg_metrics R)\<rparr>"
  let ?R2 = "?R1\<lparr>rg_branches := filter (\<lambda>r. rw_id r \<noteq> ?key) (rg_branches R)\<rparr>"
  have ok1: "registry_ok C K ?R1"
    by (rule registry_ok_metrics [OF assms(1)])
      (use assms(1) in \<open>auto simp: registry_ok_def distinct_map_filter\<close>)
  have m1: "metrics_in C ?R1 i = (if i = id' then default_metrics else metrics_in C R i)" for i
    by (simp add: metrics_in_def find_without metrics_from_row_def)
  have b1: "branches_of C K ?R1 = (branches_of C K R)(id' := map_option (br_metrics_update (\<lambda>_. default_metrics))
      (branches_of C K R id'))"
  proof (rule ext)
    fix i show "branches_of C K ?R1 i = ((branches_of C K R)(id' :=
        map_option (br_metrics_update (\<lambda>_. default_metrics)) (branches_of C K R id'))) i"
    proof (cases "i = id'")
      case False
      have "branches_of C K ?R1 i = branches_of C K R i"
        by (rule option_ext)
          (simp add: branches_of_iff [OF ok1] branches_of_iff [OF assms(1)] m1 False)
      then show ?thesis using False by simp
    next
      case True
      show ?thesis
      proof (cases "branches_of C K R id'")
        case None
        then have "branches_of C K ?R1 id' = None"
          using no_metrics(2) [OF assms(1) None] some_row [OF ok1, of id'] by (cases "branches_of C K ?R1 id'") fastforce+
        then show ?thesis using True None by simp
      next
        case (Some b)
        then have "branches_of C K ?R1 id' = Some (b\<lparr>br_metrics := default_metrics\<rparr>)"
          unfolding branches_of_iff [OF ok1] branches_of_iff [OF assms(1)] m1 by simp
        then show ?thesis using True Some by simp
      qed
    qed
  qed
  show ?thesis
  proof (cases "branches_of C K R id'")
    case None
    note n = no_metrics [OF assms(1) None]
    have "?R1 = R" "?R2 = R" using n by (simp_all add: filter_id_conv)
    moreover have "filter (\<lambda>r. rw_id r = ?key) (rg_branches R) = []" using n(2) by (simp add: filter_empty_conv)
    ultimately have "R' = R" "r = Inl (BranchNotFound id')"
      using assms(2) n by (simp_all add: store_delete_def Let_def)
    then show ?thesis using None assms(1) by simp
  next
    case (Some b)
    note hit = row_hit [OF assms(1) Some]
    show ?thesis
    proof (cases "\<exists>c \<in> set (rg_commits R). cw_branch_id c = ?key")
      case True
      then have "R' = ?R1" "r = Inl foreign_key_failed"
        using assms(2) hit by (simp_all add: store_delete_def Let_def)
      then show ?thesis using Some True ok1 b1 by simp
    next
      case False
      then have R': "R' = ?R2" "r = Inr ()"
        using assms(2) hit by (simp_all add: store_delete_def Let_def)
      have ref: "rw_id ` {r \<in> set (rg_branches R). rw_id r \<noteq> ?key} = rw_id ` set (rg_branches R) - {?key}"
        by auto
      have "cw_branch_id ` set (rg_commits R) \<subseteq> rw_id ` set (rg_branches R)"
        "mw_branch_id ` set (rg_metrics R) \<subseteq> rw_id ` set (rg_branches R)"
        using assms(1) by (simp_all add: registry_ok_def)
      then have "cw_branch_id ` set (rg_commits R) \<subseteq> rw_id ` set (rg_branches R) - {?key}"
        "mw_branch_id ` set (filter (\<lambda>m. mw_branch_id m \<noteq> ?key) (rg_metrics R)) \<subseteq> rw_id ` set (rg_branches R) - {?key}"
        using False by auto
      then have ok2: "registry_ok C K ?R2"
        using assms(1) unfolding registry_ok_def
        by (simp add: distinct_map_filter ref)
      have m2: "metrics_in C ?R2 i = metrics_in C ?R1 i" for i by (simp add: metrics_in_def)
      have "branches_of C K ?R2 i = ((branches_of C K R)(id' := None)) i" for i
      proof (rule option_ext)
        fix c
        have "branches_of C K ?R2 i = Some c \<longleftrightarrow> i \<noteq> id' \<and> branches_of C K ?R1 i = Some c"
          unfolding branches_of_iff [OF ok2] branches_of_iff [OF ok1] m2 by auto
        then show "branches_of C K ?R2 i = Some c \<longleftrightarrow> ((branches_of C K R)(id' := None)) i = Some c"
          unfolding b1 by auto
      qed
      then have "branches_of C K ?R2 = (branches_of C K R)(id' := None)" by (rule ext)
      then show ?thesis using Some False ok2 R' by simp
    qed
  qed
qed

end

section \<open>Listings and counts\<close>

definition decoded :: "codec \<Rightarrow> text_codec \<Rightarrow> registry \<Rightarrow> branch_row \<Rightarrow> branch" where
  "decoded C K R row = (case read_row C K R row of Inr b \<Rightarrow> b)"

lemma read_row_commits [simp]: "read_row C K (R\<lparr>rg_commits := cs\<rparr>) = read_row C K R"
  by (simp add: read_row_def metrics_row_for_def fun_eq_iff)

context store_env begin

lemma decoded_row:
  assumes "registry_ok C K R" and "row \<in> set (rg_branches R)"
  shows "read_row C K R row = Inr (decoded C K R row)" and "branch_row_of C K (decoded C K R row) = row"
    and "branches_of C K R (br_id (decoded C K R row)) = Some (decoded C K R row)"
proof -
  obtain b where b: "branches_of C K R (br_id b) = Some b" "row = branch_row_of C K b"
    using assms(2) unfolding rows_of [OF assms(1)] by blast
  then have "decoded C K R row = b" using read_stored [OF assms(1) b(1)] by (simp add: decoded_def)
  then show "read_row C K R row = Inr (decoded C K R row)" "branch_row_of C K (decoded C K R row) = row"
    "branches_of C K R (br_id (decoded C K R row)) = Some (decoded C K R row)"
    using b read_stored [OF assms(1) b(1)] by simp_all
qed

lemma decoded_columns:
  assumes "registry_ok C K R" and "row \<in> set (rg_branches R)"
  shows "uuid_str C (br_id (decoded C K R row)) = rw_id row"
    and "dt_rfc3339 C (br_created_at (decoded C K R row)) = rw_created_at row"
  using arg_cong [OF decoded_row(2) [OF assms], of rw_id]
    arg_cong [OF decoded_row(2) [OF assms], of rw_created_at] by simp_all

text \<open>Decoding any selection of the rows gives exactly the stored branches that belong to it.\<close>

lemma decoded_selection:
  assumes "registry_ok C K R" and "mset rows = mset (filter P (rg_branches R))"
  shows "res_mapM (read_row C K R) rows = Inr (map (decoded C K R) rows)"
    and "set (map (decoded C K R) rows) = {b. branches_of C K R (br_id b) = Some b \<and> P (branch_row_of C K b)}"
    and "distinct (map br_id (map (decoded C K R) rows))"
    and "map (\<lambda>b. dt_rfc3339 C (br_created_at b)) (map (decoded C K R) rows) = map rw_created_at rows"
proof -
  have s: "set rows = {r \<in> set (rg_branches R). P r}" using mset_eq_setD [OF assms(2)] by simp
  note dec = decoded_row [OF assms(1)]
  show "res_mapM (read_row C K R) rows = Inr (map (decoded C K R) rows)"
    by (rule res_mapM_all_Inr) (use dec(1) s in blast)
  show "set (map (decoded C K R) rows) = {b. branches_of C K R (br_id b) = Some b \<and> P (branch_row_of C K b)}" (is "_ = ?S")
  proof
    show "set (map (decoded C K R) rows) \<subseteq> ?S"
      using dec(2,3) s by auto
    show "?S \<subseteq> set (map (decoded C K R) rows)"
    proof
      fix b assume "b \<in> ?S"
      then have b: "branches_of C K R (br_id b) = Some b" "P (branch_row_of C K b)" by simp_all
      then have "branch_row_of C K b \<in> set rows" using s some_row(1) [OF assms(1) b(1)] by simp
      moreover have "decoded C K R (branch_row_of C K b) = b"
        using read_stored [OF assms(1) b(1)] by (simp add: decoded_def)
      ultimately show "b \<in> set (map (decoded C K R) rows)" by force
    qed
  qed
  have "distinct (map rw_id (filter P (rg_branches R)))"
    using assms(1) by (simp add: registry_ok_def distinct_map_filter)
  then have d: "distinct (map rw_id rows)"
    using assms(2) by (metis mset_eq_imp_distinct_iff mset_map)
  have "map rw_id rows = map (uuid_str C) (map br_id (map (decoded C K R) rows))"
    using decoded_columns(1) [OF assms(1)] s by simp
  then show "distinct (map br_id (map (decoded C K R) rows))" using d by (metis distinct_map)
  show "map (\<lambda>b. dt_rfc3339 C (br_created_at b)) (map (decoded C K R) rows) = map rw_created_at rows"
    using decoded_columns(2) [OF assms(1)] s by simp
qed

lemma list_spec:
  assumes "registry_ok C K R"
  shows "\<exists>bs. store_list C K Q R ws status = Inr bs \<and>
    set bs = {b. branches_of C K R (br_id b) = Some b \<and> br_workspace_id b = ws \<and>
      (\<forall>s. status = Some s \<longrightarrow> kind (br_status b) = kind s)} \<and>
    distinct (map br_id bs) \<and> sorted (map (\<lambda>b. dt_rfc3339 C (br_created_at b)) bs)"
proof -
  let ?P = "\<lambda>r. rw_workspace_id r = uuid_str C ws"
  let ?rows = "so_created Q (filter ?P (rg_branches R))"
  let ?all = "map (decoded C K R) ?rows"
  note sel = decoded_selection [OF assms mset_created [of "filter ?P (rg_branches R)"]]
  have srt: "sorted (map (\<lambda>b. dt_rfc3339 C (br_created_at b)) ?all)"
    unfolding sel(4) by (rule sorted_created)
  show ?thesis
  proof (cases status)
    case None
    then show ?thesis using sel srt by (simp add: store_list_def)
  next
    case (Some s)
    let ?bs = "filter (\<lambda>b. kind (br_status b) = kind s) ?all"
    have "store_list C K Q R ws status = Inr ?bs" unfolding store_list_def sel(1) using Some by simp
    moreover have "distinct (map br_id ?bs)" using sel(3) by (rule distinct_map_filter)
    moreover have "sorted (map (\<lambda>b. dt_rfc3339 C (br_created_at b)) ?bs)" using srt by (rule sorted_filter)
    moreover have "set ?bs = {b. branches_of C K R (br_id b) = Some b \<and> br_workspace_id b = ws \<and>
        (\<forall>s. status = Some s \<longrightarrow> kind (br_status b) = kind s)}"
      using sel(2) Some by auto
    ultimately show ?thesis by blast
  qed
qed

lemma list_length:
  assumes "store_list C K Q R ws None = Inr bs"
  shows "length bs \<le> length (rg_branches R)"
proof -
  have "res_mapM (read_row C K R) (so_created Q (filter (\<lambda>b. rw_workspace_id b = uuid_str C ws) (rg_branches R))) = Inr bs"
    using assms by (simp add: store_list_def res_simps)
  from res_mapM_Inr_length [OF this] show ?thesis by simp
qed

lemma to_storage_live: "(to_storage C s = ''active'' \<or> to_storage C s = ''dormant'') \<longleftrightarrow> is_live s"
  by (cases s) (simp_all add: to_storage_def)

lemma count_rows:
  assumes "registry_ok C K R"
  shows "length (filter P (rg_branches R)) =
    card {i. \<exists>b. branches_of C K R i = Some b \<and> P (branch_row_of C K b)}"
proof -
  let ?bs = "map (decoded C K R) (filter P (rg_branches R))"
  note sel = decoded_selection [OF assms, of "filter P (rg_branches R)" P, OF refl]
  have "br_id ` set ?bs = {i. \<exists>b. branches_of C K R i = Some b \<and> P (branch_row_of C K b)}"
  proof
    show "br_id ` set ?bs \<subseteq> {i. \<exists>b. branches_of C K R i = Some b \<and> P (branch_row_of C K b)}"
      unfolding sel(2) by blast
    show "{i. \<exists>b. branches_of C K R i = Some b \<and> P (branch_row_of C K b)} \<subseteq> br_id ` set ?bs"
    proof
      fix i assume "i \<in> {i. \<exists>b. branches_of C K R i = Some b \<and> P (branch_row_of C K b)}"
      then obtain b where b: "branches_of C K R i = Some b" "P (branch_row_of C K b)" by blast
      then have "br_id b = i" using branches_of_id [OF assms] by blast
      then show "i \<in> br_id ` set ?bs" unfolding sel(2) using b by blast
    qed
  qed
  then have "card {i. \<exists>b. branches_of C K R i = Some b \<and> P (branch_row_of C K b)} = card (set (map br_id ?bs))"
    by (simp only: set_map)
  also have "\<dots> = length ?bs" using distinct_card [OF sel(3)] by simp
  finally show ?thesis by simp
qed

lemma count_spec:
  assumes "registry_ok C K R"
  shows "store_count C R ws = of_nat (card {i. \<exists>b. branches_of C K R i = Some b \<and> br_workspace_id b = ws})"
    and "store_count_active C R ws =
      of_nat (card {i. \<exists>b. branches_of C K R i = Some b \<and> br_workspace_id b = ws \<and> is_live (br_status b)})"
  unfolding store_count_def store_count_active_def count_rows [OF assms]
  by (simp_all add: to_storage_live)

lemma commit_spec:
  assumes "registry_ok C K R" and "insert_commit_log C K R e = (R', r)"
  shows "registry_ok C K R' \<and> rg_branches R' = rg_branches R \<and> rg_metrics R' = rg_metrics R \<and>
    branches_of C K R' = branches_of C K R \<and>
    (case r of
       Inr _ \<Rightarrow> branches_of C K R (cl_branch_id e) \<noteq> None \<and> rg_commits R' = rg_commits R @ [commit_row_of C K e]
     | Inl _ \<Rightarrow> R' = R)"
proof -
  let ?row = "commit_row_of C K e"
  have k: "cw_branch_id ?row = uuid_str C (cl_branch_id e)" by (simp add: commit_row_of_def)
  consider (dup) "\<exists>c \<in> set (rg_commits R). cw_id c = cw_id ?row"
    | (fk) "\<not> (\<exists>c \<in> set (rg_commits R). cw_id c = cw_id ?row)" "\<not> (\<exists>x \<in> set (rg_branches R). rw_id x = cw_branch_id ?row)"
    | (ok) "\<not> (\<exists>c \<in> set (rg_commits R). cw_id c = cw_id ?row)" "\<exists>x \<in> set (rg_branches R). rw_id x = cw_branch_id ?row"
    by blast
  then show ?thesis
  proof cases
    case dup
    then have "insert_commit_log C K R e = (R, Inl unique_failed)"
      by (simp only: insert_commit_log_def Let_def if_True)
    then show ?thesis using assms by simp
  next
    case fk
    then have "insert_commit_log C K R e = (R, Inl foreign_key_failed)"
      by (simp only: insert_commit_log_def Let_def if_True if_False not_False_eq_True)
    then show ?thesis using assms by simp
  next
    case ok
    let ?R = "R\<lparr>rg_commits := rg_commits R @ [?row]\<rparr>"
    have "insert_commit_log C K R e = (?R, Inr ())"
      using ok by (simp only: insert_commit_log_def Let_def if_False not_True_eq_False)
    then have R': "R' = ?R" "r = Inr ()" using assms(2) by simp_all
    have "branches_of C K R (cl_branch_id e) \<noteq> None" using ok(2) k no_metrics(2) [OF assms(1)] by auto
    moreover have "cw_id ?row \<notin> cw_id ` set (rg_commits R)" "cw_branch_id ?row \<in> rw_id ` set (rg_branches R)"
      using ok by (metis imageE, metis imageI)
    then have "registry_ok C K ?R" using assms(1) by (auto simp: registry_ok_def)
    moreover have "branches_of C K ?R = branches_of C K R"
      unfolding branches_of_def read_row_commits by simp
    ultimately show ?thesis using R' by simp
  qed
qed

lemma list_commits_spec:
  assumes "registry_ok C K R"
  shows "\<exists>es. list_commits C K Q R b limit = Inr es \<and>
    length es = min (unat limit) (length (filter (\<lambda>c. cw_branch_id c = uuid_str C b) (rg_commits R))) \<and>
    (\<forall>e \<in> set es. cl_branch_id e = b \<and> commit_row_of C K e \<in> set (rg_commits R)) \<and>
    sorted (rev (map (\<lambda>e. dt_rfc3339 C (cl_committed_at e)) es))"
proof -
  let ?sel = "filter (\<lambda>c. cw_branch_id c = uuid_str C b) (rg_commits R)"
  let ?rows = "take (unat limit) (so_committed Q ?sel)"
  let ?dec = "\<lambda>c. case commit_log_from_row C K c of Inr e \<Rightarrow> e"
  have dec: "commit_log_from_row C K c = Inr (?dec c) \<and> commit_row_of C K (?dec c) = c"
    if c: "c \<in> set (rg_commits R)" for c
  proof -
    have "\<forall>c \<in> set (rg_commits R). \<exists>e. c = commit_row_of C K e" using assms by (simp add: registry_ok_def)
    then have "\<exists>e. c = commit_row_of C K e" using c by (rule bspec)
    then obtain e where e: "c = commit_row_of C K e" ..
    show ?thesis unfolding e commit_roundtrip by simp
  qed
  have sub: "set ?rows \<subseteq> set (rg_commits R) \<inter> {c. cw_branch_id c = uuid_str C b}"
    using set_take_subset [of "unat limit" "so_committed Q ?sel"] by auto
  have "list_commits C K Q R b limit = Inr (map ?dec ?rows)"
    unfolding list_commits_def by (rule res_mapM_all_Inr) (use dec sub in blast)
  moreover have "length (so_committed Q ?sel) = length ?sel" using mset_committed by (metis size_mset)
  then have "length (map ?dec ?rows) = min (unat limit) (length ?sel)" by simp
  moreover have "cl_branch_id e = b \<and> commit_row_of C K e \<in> set (rg_commits R)" if e: "e \<in> set (map ?dec ?rows)" for e
  proof -
    obtain c where c: "c \<in> set ?rows" "e = ?dec c" using e by auto
    then have "c \<in> set (rg_commits R)" "cw_branch_id c = uuid_str C b" using sub by auto
    moreover from dec [OF this(1)] c(2) have "commit_row_of C K e = c" by simp
    moreover have "cw_branch_id (commit_row_of C K e) = uuid_str C (cl_branch_id e)" by (simp add: commit_row_of_def)
    ultimately show ?thesis by (metis uuid_str_inj)
  qed
  moreover have "map (\<lambda>e. dt_rfc3339 C (cl_committed_at e)) (map ?dec ?rows) = map cw_committed_at ?rows"
  proof -
    have "dt_rfc3339 C (cl_committed_at (?dec c)) = cw_committed_at c" if "c \<in> set ?rows" for c
    proof -
      have "commit_row_of C K (?dec c) = c" using dec sub that by blast
      from arg_cong [OF this, of cw_committed_at] show ?thesis by (simp add: commit_row_of_def)
    qed
    then show ?thesis by simp
  qed
  moreover have "sorted (rev (map cw_committed_at ?rows))"
  proof -
    have "rev (map cw_committed_at ?rows) = drop (length ?sel - unat limit) (rev (map cw_committed_at (so_committed Q ?sel)))"
      using \<open>length (so_committed Q ?sel) = length ?sel\<close> by (simp add: take_map [symmetric] rev_take)
    then show ?thesis using sorted_committed [of ?sel] by (simp add: sorted_wrt_drop)
  qed
  ultimately show ?thesis by metis
qed

end

end
