(* ===== verification/Registry.thy ===== *)
theory Registry
  imports Store Entities
begin

text \<open>
  The registry as a state machine over the operations of \<open>Store\<close>, and what the store promises: the
  table invariant in every reachable state, the operations as operations on a map from ids to
  branches, and the errors.
\<close>

section \<open>Reachable registries\<close>

inductive reg_reachable :: "codec \<Rightarrow> text_codec \<Rightarrow> registry \<Rightarrow> bool" for C K where
  init: "reg_reachable C K empty_registry"
| insert: "reg_reachable C K R \<Longrightarrow> printable (br_metadata b) \<Longrightarrow> store_insert C K now R b = (R', r) \<Longrightarrow>
    reg_reachable C K R'"
| status: "reg_reachable C K R \<Longrightarrow> store_update_status C now R i s = (R', r) \<Longrightarrow> reg_reachable C K R'"
| metrics: "reg_reachable C K R \<Longrightarrow> store_update_metrics C now R i m = (R', r) \<Longrightarrow> reg_reachable C K R'"
| delete: "reg_reachable C K R \<Longrightarrow> store_delete C R i = (R', r) \<Longrightarrow> reg_reachable C K R'"
| commit: "reg_reachable C K R \<Longrightarrow> insert_commit_log C K R e = (R', r) \<Longrightarrow> reg_reachable C K R'"

lemma empty_registry_ok: "registry_ok C K empty_registry"
  by (simp add: registry_ok_def empty_registry_def)

lemma empty_registry_branches: "branches_of C K empty_registry i = None"
  by (simp add: branches_of_def empty_registry_def)

lemma empty_registry_commits: "rg_commits empty_registry = []"
  by (simp add: empty_registry_def)

context store_env begin

lemma insert_ok:
  assumes "registry_ok C K R" and "printable (br_metadata b)" and "store_insert C K now R b = (R', r)"
  shows "registry_ok C K R'"
  using insert_spec [OF assms(1,2), of now] assms(1,3) by (cases "clashes C K R b") auto

lemma reachable_ok: "reg_reachable C K R \<Longrightarrow> registry_ok C K R"
proof (induction rule: reg_reachable.induct)
  case init
  show ?case by (rule empty_registry_ok)
next
  case insert
  then show ?case by (blast intro: insert_ok)
next
  case status
  then show ?case using status_spec by blast
next
  case metrics
  then show ?case using metrics_spec by blast
next
  case delete
  then show ?case using delete_spec by blast
next
  case commit
  then show ?case using commit_spec by blast
qed

end

text \<open>
  C25: in every registry the operations can produce, ids and (workspace, slug) pairs are unique, metrics
  and commits reference existing branches, and every row reads back: each stored id denotes exactly
  one branch, which a lookup in its workspace returns.
\<close>

theorem registry_invariant:
  assumes "store_env C K Q" and "reg_reachable C K R"
  shows "registry_ok C K R \<and>
    (\<forall>r \<in> set (rg_branches R). \<exists>b. r = branch_row_of C K b \<and>
       store_get C K Q R (br_workspace_id b) (br_id b) = Inr b)"
proof -
  have ok: "registry_ok C K R" using store_env.reachable_ok [OF assms] .
  then show ?thesis
    using store_env.rows_of [OF assms(1) ok] store_env.get_eq [OF assms(1) ok] by fastforce
qed

text \<open>A sample branch and a registry that holds it.\<close>

definition trunk_example :: branch where
  "trunk_example = (branch_at 7 [''trunk''])\<lparr>br_name := ''trunk'', br_slug := ''trunk''\<rparr>"

lemma trunk_example_sel [simp]:
  "br_id trunk_example = 7" "br_slug trunk_example = ''trunk''" "br_workspace_id trunk_example = 0"
  "br_name trunk_example = ''trunk''" "br_status trunk_example = Active"
  "br_metadata trunk_example = JObject []" "br_metrics trunk_example = default_metrics"
  "br_created_at trunk_example = 0" "br_snapshot_path trunk_example = []"
  by (simp_all add: trunk_example_def branch_at_def blank_branch_def)

definition trunk_registry :: registry where
  "trunk_registry = fst (store_insert decimal_codec compact_codec 0 empty_registry trunk_example)"

lemma trunk_registry_step:
  "store_insert decimal_codec compact_codec 0 empty_registry trunk_example = (trunk_registry, Inr ())"
  "registry_ok decimal_codec compact_codec trunk_registry"
  "branches_of decimal_codec compact_codec trunk_registry = [7 \<mapsto> trunk_example]"
  "rg_commits trunk_registry = []"
proof -
  have p: "printable (br_metadata trunk_example)" by simp
  have n: "\<not> clashes decimal_codec compact_codec empty_registry trunk_example"
    by (simp add: clashes_def empty_registry_branches)
  have e: "branches_of decimal_codec compact_codec empty_registry = Map.empty"
    by (rule ext) (rule empty_registry_branches)
  from sample.insert_spec(2) [OF empty_registry_ok p n, of 0] obtain R' where
    "store_insert decimal_codec compact_codec 0 empty_registry trunk_example = (R', Inr ())"
    "registry_ok decimal_codec compact_codec R'"
    "branches_of decimal_codec compact_codec R' = [7 \<mapsto> trunk_example]" "rg_commits R' = []"
    by (auto simp: e empty_registry_commits)
  then show "store_insert decimal_codec compact_codec 0 empty_registry trunk_example = (trunk_registry, Inr ())"
    "registry_ok decimal_codec compact_codec trunk_registry"
    "branches_of decimal_codec compact_codec trunk_registry = [7 \<mapsto> trunk_example]"
    "rg_commits trunk_registry = []"
    by (simp_all add: trunk_registry_def)
qed

theorem registry_invariant_witness:
  "registry_ok decimal_codec compact_codec trunk_registry \<and> rg_branches trunk_registry \<noteq> []"
proof -
  have "reg_reachable decimal_codec compact_codec trunk_registry"
    using reg_reachable.insert [OF reg_reachable.init _ trunk_registry_step(1)] by simp
  from registry_invariant [OF sample.store_env_axioms this]
  have "registry_ok decimal_codec compact_codec trunk_registry" by blast
  moreover have "branches_of decimal_codec compact_codec trunk_registry 7 \<noteq> None"
    by (simp add: trunk_registry_step(3))
  then have "rg_branches trunk_registry \<noteq> []" by (auto simp: branches_of_def)
  ultimately show ?thesis by blast
qed

section \<open>The store as a map\<close>

text \<open>
  C26: an insert refuses exactly the branches whose id, or whose slug in the same workspace, is taken,
  with \<open>BranchAlreadyExists\<close> of the name, and changes nothing then; otherwise the map gains exactly
  this branch, metrics included, and a lookup returns it.
\<close>

theorem store_insert_correct:
  assumes "store_env C K Q" and "registry_ok C K R" and "printable (br_metadata b)"
    and "store_insert C K now R b = (R', r)"
  shows "if clashes C K R b then R' = R \<and> r = Inl (BranchAlreadyExists (br_name b))
    else r = Inr () \<and> registry_ok C K R' \<and> branches_of C K R' = (branches_of C K R)(br_id b \<mapsto> b) \<and>
      store_get C K Q R' (br_workspace_id b) (br_id b) = Inr b"
proof (cases "clashes C K R b")
  case True
  then show ?thesis using store_env.insert_spec(1) [OF assms(1-3), of now] assms(4) by simp
next
  case False
  then have R': "r = Inr ()" "registry_ok C K R'" "branches_of C K R' = (branches_of C K R)(br_id b \<mapsto> b)"
    using store_env.insert_spec(2) [OF assms(1-3), of now] assms(4) by auto
  then show ?thesis using False store_env.get_eq [OF assms(1) R'(2)] by simp
qed

theorem store_insert_correct_witness:
  "branches_of decimal_codec compact_codec trunk_registry 7 = Some trunk_example \<and>
   store_get decimal_codec compact_codec table_order trunk_registry 0 7 = Inr trunk_example"
proof -
  have p: "printable (br_metadata trunk_example)" by simp
  have n: "\<not> clashes decimal_codec compact_codec empty_registry trunk_example"
    by (simp add: clashes_def empty_registry_branches)
  from store_insert_correct [OF sample.store_env_axioms empty_registry_ok p trunk_registry_step(1)] n
  show ?thesis by simp
qed

text \<open>
  the three lookups. By id and workspace: the branch, else \<open>BranchNotFound\<close>. By slug: the one
  branch of the workspace with that slug; by name: some branch with that name. A miss of the last two
  is reported as \<open>BranchAlreadyExists\<close>.
\<close>

theorem store_lookups_correct:
  assumes "store_env C K Q" and "registry_ok C K R"
  shows "(store_get C K Q R ws i = Inr b \<longleftrightarrow> branches_of C K R i = Some b \<and> br_workspace_id b = ws) \<and>
    (store_get C K Q R ws i = Inl e \<longrightarrow> e = BranchNotFound i) \<and>
    (store_get_by_slug C K Q R ws s = Inr b \<longleftrightarrow>
       branches_of C K R (br_id b) = Some b \<and> br_workspace_id b = ws \<and> br_slug b = s) \<and>
    (store_get_by_slug C K Q R ws s = Inl e \<longrightarrow> e = BranchAlreadyExists s) \<and>
    (store_get_by_name C K Q R ws n = Inr b \<longrightarrow>
       branches_of C K R (br_id b) = Some b \<and> br_workspace_id b = ws \<and> br_name b = n) \<and>
    (store_get_by_name C K Q R ws n = Inl e \<longrightarrow> e = BranchAlreadyExists n \<and>
       \<not> (\<exists>c. branches_of C K R (br_id c) = Some c \<and> br_workspace_id c = ws \<and> br_name c = n))"
proof -
  have u: "uuid_str C x = uuid_str C y \<longleftrightarrow> x = y" for x y
    using store_env.uuid_str_inj [OF assms(1)] .
  have "store_get C K Q R ws i = Inr b \<longleftrightarrow> branches_of C K R i = Some b \<and> br_workspace_id b = ws"
    "store_get C K Q R ws i = Inl e \<longrightarrow> e = BranchNotFound i"
    unfolding store_env.get_eq [OF assms] by (auto split: option.splits if_splits)
  moreover have "store_get_by_slug C K Q R ws s = Inr b \<longleftrightarrow>
      branches_of C K R (br_id b) = Some b \<and> br_workspace_id b = ws \<and> br_slug b = s"
    "store_get_by_slug C K Q R ws s = Inl e \<longrightarrow> e = BranchAlreadyExists s"
    using store_env.slug_eq [OF assms] by blast+
  moreover note name = store_env.fetch_spec [OF assms, of "BranchAlreadyExists n"
      "\<lambda>b. rw_workspace_id b = uuid_str C ws \<and> rw_name b = n", folded store_get_by_name_def]
  have "store_get_by_name C K Q R ws n = Inr b \<longrightarrow>
      branches_of C K R (br_id b) = Some b \<and> br_workspace_id b = ws \<and> br_name b = n"
  proof
    assume "store_get_by_name C K Q R ws n = Inr b"
    with name have "branches_of C K R (br_id b) = Some b \<and>
        (rw_workspace_id (branch_row_of C K b) = uuid_str C ws \<and> rw_name (branch_row_of C K b) = n)"
      by (simp only: sum.case)
    then show "branches_of C K R (br_id b) = Some b \<and> br_workspace_id b = ws \<and> br_name b = n"
      by (simp only: branch_row_of_sel u)
  qed
  moreover have "store_get_by_name C K Q R ws n = Inl e \<longrightarrow> e = BranchAlreadyExists n \<and>
       \<not> (\<exists>c. branches_of C K R (br_id c) = Some c \<and> br_workspace_id c = ws \<and> br_name c = n)"
  proof
    assume "store_get_by_name C K Q R ws n = Inl e"
    from name [unfolded this sum.case] have "e = BranchAlreadyExists n \<and> (\<forall>b. branches_of C K R (br_id b) = Some b \<longrightarrow>
        \<not> (rw_workspace_id (branch_row_of C K b) = uuid_str C ws \<and> rw_name (branch_row_of C K b) = n))" .
    then show "e = BranchAlreadyExists n \<and>
       \<not> (\<exists>c. branches_of C K R (br_id c) = Some c \<and> br_workspace_id c = ws \<and> br_name c = n)"
      unfolding branch_row_of_sel u by blast
  qed
  ultimately show ?thesis by (intro conjI) assumption+
qed

theorem store_lookups_correct_witness:
  "store_get_by_slug decimal_codec compact_codec table_order trunk_registry 0 ''trunk'' = Inr trunk_example \<and>
   store_get_by_slug decimal_codec compact_codec table_order trunk_registry 0 ''none'' =
     Inl (BranchAlreadyExists ''none'')"
proof -
  note look = store_lookups_correct [OF sample.store_env_axioms trunk_registry_step(2)]
  have "store_get_by_slug decimal_codec compact_codec table_order trunk_registry 0 ''trunk'' = Inr trunk_example"
    using look [where ws = 0 and s = "''trunk''" and b = trunk_example] by (simp add: trunk_registry_step(3))
  moreover have "store_get_by_slug decimal_codec compact_codec table_order trunk_registry 0 ''none'' \<noteq> Inr b" for b
    using look [where ws = 0 and s = "''none''" and b = b] by (auto simp: trunk_registry_step(3) split: if_splits)
  then obtain e where e: "store_get_by_slug decimal_codec compact_codec table_order trunk_registry 0 ''none'' = Inl e"
    by (cases "store_get_by_slug decimal_codec compact_codec table_order trunk_registry 0 ''none''") auto
  moreover have "e = BranchAlreadyExists ''none''"
    using look [where ws = 0 and s = "''none''" and e = e] e by blast
  ultimately show ?thesis by simp
qed

text \<open>
  a listing holds exactly the branches of the workspace, with the given status kind if one is
  given, each once and in the order of their creation stamps; \<open>count_active\<close> is the number of the live
  ones among them (as \<open>u64\<close>), so the stored status strings of dormant and active branches are the ones
  the SQL text compares with.
\<close>

theorem store_listing_correct:
  assumes "store_env C K Q" and "registry_ok C K R"
  shows "\<exists>bs. store_list C K Q R ws status = Inr bs \<and>
    set bs = {b. branches_of C K R (br_id b) = Some b \<and> br_workspace_id b = ws \<and>
      (\<forall>s. status = Some s \<longrightarrow> kind (br_status b) = kind s)} \<and>
    distinct (map br_id bs) \<and> sorted (map (\<lambda>b. dt_rfc3339 C (br_created_at b)) bs) \<and>
    store_count_active C R ws =
      of_nat (card {i. \<exists>b. branches_of C K R i = Some b \<and> br_workspace_id b = ws \<and> is_live (br_status b)})"
  using store_env.list_spec [OF assms, of ws status] store_env.count_spec(2) [OF assms, of ws] by blast

theorem store_listing_correct_witness:
  "store_list decimal_codec compact_codec table_order trunk_registry 0 None = Inr [trunk_example] \<and>
   store_count_active decimal_codec trunk_registry 0 = 1"
proof -
  obtain bs where bs: "store_list decimal_codec compact_codec table_order trunk_registry 0 None = Inr bs"
    "set bs = {b. branches_of decimal_codec compact_codec trunk_registry (br_id b) = Some b \<and> br_workspace_id b = 0}"
    "distinct (map br_id bs)"
    "store_count_active decimal_codec trunk_registry 0 =
      of_nat (card {i. \<exists>b. branches_of decimal_codec compact_codec trunk_registry i = Some b \<and>
        br_workspace_id b = 0 \<and> is_live (br_status b)})"
    using store_listing_correct [OF sample.store_env_axioms trunk_registry_step(2), of 0 None] by auto
  have "set bs = {trunk_example}" unfolding bs(2) trunk_registry_step(3) by (auto split: if_splits)
  moreover from this have "length bs = 1" using distinct_card [OF bs(3)] by simp
  ultimately have "bs = [trunk_example]" by (cases bs) auto
  moreover have "{i. \<exists>b. branches_of decimal_codec compact_codec trunk_registry i = Some b \<and>
        br_workspace_id b = 0 \<and> is_live (br_status b)} = {7}"
    unfolding trunk_registry_step(3) by (auto split: if_splits)
  ultimately show ?thesis using bs(1,4) by simp
qed

text \<open>
  A status update changes the status and the update time of exactly one branch, in whatever
  workspace it is; on an unknown id it reports \<open>BranchNotFound\<close> and changes nothing.
\<close>

theorem store_update_status_correct:
  assumes "store_env C K Q" and "registry_ok C K R" and "store_update_status C now R i s = (R', r)"
  shows "registry_ok C K R' \<and>
    branches_of C K R' = (branches_of C K R)(i :=
      map_option (\<lambda>b. b\<lparr>br_status := s, br_updated_at := now\<rparr>) (branches_of C K R i)) \<and>
    r = (if branches_of C K R i = None then Inl (BranchNotFound i) else Inr ())"
  using store_env.status_spec [OF assms] by blast

theorem store_update_status_correct_witness:
  "\<exists>R'. store_update_status decimal_codec 5 trunk_registry 7 (Merged 1 2) = (R', Inr ()) \<and>
     branches_of decimal_codec compact_codec R' 7 =
       Some (trunk_example\<lparr>br_status := Merged 1 2, br_updated_at := 5\<rparr>)"
proof -
  obtain R' r where R': "store_update_status decimal_codec 5 trunk_registry 7 (Merged 1 2) = (R', r)" by force
  from store_update_status_correct [OF sample.store_env_axioms trunk_registry_step(2) R']
  show ?thesis using R' by (simp add: trunk_registry_step(3))
qed

text \<open>
  a delete of an unknown id reports \<open>BranchNotFound\<close>; of a branch without commits, it removes
  exactly this branch. A branch with commits cannot be deleted: the foreign key fails, after the
  metrics row is already gone, so the branch stays with all its metrics reset to zero.
\<close>

theorem store_delete_correct:
  assumes "store_env C K Q" and "registry_ok C K R" and "store_delete C R i = (R', r)"
  shows "registry_ok C K R' \<and>
    (case branches_of C K R i of
       None \<Rightarrow> r = Inl (BranchNotFound i) \<and> branches_of C K R' = branches_of C K R
     | Some b \<Rightarrow>
         if \<exists>c \<in> set (rg_commits R). cw_branch_id c = uuid_str C i
         then r = Inl foreign_key_failed \<and>
           branches_of C K R' = (branches_of C K R)(i \<mapsto> b\<lparr>br_metrics := default_metrics\<rparr>)
         else r = Inr () \<and> branches_of C K R' = (branches_of C K R)(i := None))"
  using store_env.delete_spec [OF assms] by blast

theorem store_delete_correct_witness:
  "\<exists>R'. store_delete decimal_codec trunk_registry 7 = (R', Inr ()) \<and>
     branches_of decimal_codec compact_codec R' 7 = None"
proof -
  obtain R' r where R': "store_delete decimal_codec trunk_registry 7 = (R', r)" by force
  from store_delete_correct [OF sample.store_env_axioms trunk_registry_step(2) R']
  show ?thesis using R' by (simp add: trunk_registry_step(3,4))
qed

text \<open>
  the commit log of a branch returns at most \<open>limit\<close> of its entries, decoded as they were logged,
  the newest stamps first, and no entry of another branch; logging an entry for an unknown branch or
  under a used id fails and changes nothing.
\<close>

theorem commit_log_correct:
  assumes "store_env C K Q" and "registry_ok C K R" and "insert_commit_log C K R e = (R', r)"
  shows "registry_ok C K R' \<and> branches_of C K R' = branches_of C K R \<and>
    (case r of
       Inl _ \<Rightarrow> R' = R
     | Inr _ \<Rightarrow> branches_of C K R (cl_branch_id e) \<noteq> None \<and> rg_commits R' = rg_commits R @ [commit_row_of C K e]) \<and>
    (\<exists>es. list_commits C K Q R' b limit = Inr es \<and>
       length es = min (unat limit) (length (filter (\<lambda>c. cw_branch_id c = uuid_str C b) (rg_commits R'))) \<and>
       (\<forall>x \<in> set es. cl_branch_id x = b \<and> commit_row_of C K x \<in> set (rg_commits R')) \<and>
       sorted (rev (map (\<lambda>x. dt_rfc3339 C (cl_committed_at x)) es)))"
proof -
  note c = store_env.commit_spec [OF assms]
  then have "registry_ok C K R'" by blast
  from store_env.list_commits_spec [OF assms(1) this, of b limit] c show ?thesis by blast
qed

theorem commit_log_correct_witness:
  "\<exists>R' es. insert_commit_log decimal_codec compact_codec trunk_registry
      \<lparr>cl_id = 3, cl_branch_id = 7, cl_entity_type = Some Session, cl_entity_ids = [''s1''],
       cl_op_kind = ''commit'', cl_committed_at = 4, cl_message = None\<rparr> = (R', Inr ()) \<and>
     list_commits decimal_codec compact_codec table_order R' 7 10 = Inr es \<and> length es = 1"
proof -
  let ?e = "\<lparr>cl_id = 3, cl_branch_id = 7, cl_entity_type = Some Session, cl_entity_ids = [''s1''],
       cl_op_kind = ''commit'', cl_committed_at = 4, cl_message = None\<rparr>"
  obtain R' r where R': "insert_commit_log decimal_codec compact_codec trunk_registry ?e = (R', r)" by force
  have row: "\<exists>x \<in> set (rg_branches trunk_registry). rw_id x = cw_branch_id (commit_row_of decimal_codec compact_codec ?e)"
    using sample.some_row(1) [OF trunk_registry_step(2), of 7 trunk_example]
    by (intro bexI [of _ "branch_row_of decimal_codec compact_codec trunk_example"])
      (simp_all add: commit_row_of_def trunk_registry_step(3))
  have "rg_commits trunk_registry = []" by (rule trunk_registry_step(4))
  moreover from this row have "insert_commit_log decimal_codec compact_codec trunk_registry ?e =
      (trunk_registry\<lparr>rg_commits := rg_commits trunk_registry @ [commit_row_of decimal_codec compact_codec ?e]\<rparr>, Inr ())"
    unfolding insert_commit_log_def Let_def by (simp only: list.set not_True_eq_False if_False ball_empty bex_simps simp_thms)
  ultimately have "r = Inr ()" "rg_commits R' = [commit_row_of decimal_codec compact_codec ?e]"
    using R' by auto
  with commit_log_correct [OF sample.store_env_axioms trunk_registry_step(2) R', of 7 10] R'
  show ?thesis by (auto simp: commit_row_of_def)
qed

end
