(* ===== verification/Config.thy ===== *)
theory Config
  imports Codecs
begin

text \<open>
  \<open>src/config.rs\<close>: the configuration, its builder and its loading from the environment. The
  environment and the two parsers of standard types whose text format is not modelled (\<open>f64\<close> and
  \<open>Uuid\<close>) are arguments. A \<open>usize\<close> is 64 bits wide. Directories are a set of paths: \<open>create_dir_all\<close>
  adds a path with its prefixes.
\<close>

section \<open>Data\<close>

record branch_config =
  cf_workspace_id :: uuid
  cf_branches_dir :: path
  cf_registry_db_path :: path
  cf_max_branches_per_workspace :: u64
  cf_max_branch_age_days :: "u64 option"
  cf_snapshot_compression :: bool
  cf_gc_interval_secs :: u64
  cf_gc_orphan_threshold_secs :: u64
  cf_divergence_threshold :: real
  cf_auto_metrics :: bool
  cf_metrics_refresh_interval_secs :: u64
  cf_trunk_branch_name :: string

record branch_config_builder =
  bb_workspace_id :: "uuid option"
  bb_branches_dir :: "path option"
  bb_registry_db_path :: "path option"
  bb_max_branches_per_workspace :: "u64 option"
  bb_max_branch_age_days :: "u64 option option"
  bb_snapshot_compression :: "bool option"
  bb_gc_interval_secs :: "u64 option"
  bb_gc_orphan_threshold_secs :: "u64 option"
  bb_divergence_threshold :: "real option"
  bb_auto_metrics :: "bool option"
  bb_metrics_refresh_interval_secs :: "u64 option"
  bb_trunk_branch_name :: "string option"

definition builder :: branch_config_builder where
  "builder =
     \<lparr>bb_workspace_id = None, bb_branches_dir = None, bb_registry_db_path = None,
      bb_max_branches_per_workspace = None, bb_max_branch_age_days = None,
      bb_snapshot_compression = None, bb_gc_interval_secs = None, bb_gc_orphan_threshold_secs = None,
      bb_divergence_threshold = None, bb_auto_metrics = None,
      bb_metrics_refresh_interval_secs = None, bb_trunk_branch_name = None\<rparr>"

section \<open>Paths\<close>

definition path_join :: "path \<Rightarrow> string \<Rightarrow> path" where
  "path_join p c = p @ [c]"

definition path_parent :: "path \<Rightarrow> path option" where
  "path_parent p = (if p = [] then None else Some (butlast p))"

definition create_dir_all :: "path set \<Rightarrow> path \<Rightarrow> path set" where
  "create_dir_all dirs p = dirs \<union> set (map (\<lambda>n. take n p) [0..<Suc (length p)])"

section \<open>The builder\<close>

text \<open>One setter per field, as in the source.\<close>

definition set_workspace_id :: "uuid \<Rightarrow> branch_config_builder \<Rightarrow> branch_config_builder" where
  "set_workspace_id v b = b\<lparr>bb_workspace_id := Some v\<rparr>"

definition set_branches_dir :: "path \<Rightarrow> branch_config_builder \<Rightarrow> branch_config_builder" where
  "set_branches_dir v b = b\<lparr>bb_branches_dir := Some v\<rparr>"

definition set_registry_db_path :: "path \<Rightarrow> branch_config_builder \<Rightarrow> branch_config_builder" where
  "set_registry_db_path v b = b\<lparr>bb_registry_db_path := Some v\<rparr>"

definition set_max_branches_per_workspace :: "u64 \<Rightarrow> branch_config_builder \<Rightarrow> branch_config_builder" where
  "set_max_branches_per_workspace v b = b\<lparr>bb_max_branches_per_workspace := Some v\<rparr>"

definition set_max_branch_age_days :: "u64 option \<Rightarrow> branch_config_builder \<Rightarrow> branch_config_builder" where
  "set_max_branch_age_days v b = b\<lparr>bb_max_branch_age_days := Some v\<rparr>"

definition set_snapshot_compression :: "bool \<Rightarrow> branch_config_builder \<Rightarrow> branch_config_builder" where
  "set_snapshot_compression v b = b\<lparr>bb_snapshot_compression := Some v\<rparr>"

definition set_gc_interval_secs :: "u64 \<Rightarrow> branch_config_builder \<Rightarrow> branch_config_builder" where
  "set_gc_interval_secs v b = b\<lparr>bb_gc_interval_secs := Some v\<rparr>"

definition set_gc_orphan_threshold_secs :: "u64 \<Rightarrow> branch_config_builder \<Rightarrow> branch_config_builder" where
  "set_gc_orphan_threshold_secs v b = b\<lparr>bb_gc_orphan_threshold_secs := Some v\<rparr>"

definition set_divergence_threshold :: "real \<Rightarrow> branch_config_builder \<Rightarrow> branch_config_builder" where
  "set_divergence_threshold v b = b\<lparr>bb_divergence_threshold := Some v\<rparr>"

definition set_auto_metrics :: "bool \<Rightarrow> branch_config_builder \<Rightarrow> branch_config_builder" where
  "set_auto_metrics v b = b\<lparr>bb_auto_metrics := Some v\<rparr>"

definition set_metrics_refresh_interval_secs :: "u64 \<Rightarrow> branch_config_builder \<Rightarrow> branch_config_builder" where
  "set_metrics_refresh_interval_secs v b = b\<lparr>bb_metrics_refresh_interval_secs := Some v\<rparr>"

definition set_trunk_branch_name :: "string \<Rightarrow> branch_config_builder \<Rightarrow> branch_config_builder" where
  "set_trunk_branch_name v b = b\<lparr>bb_trunk_branch_name := Some v\<rparr>"

definition unwrap_or :: "'a \<Rightarrow> 'a option \<Rightarrow> 'a" where
  "unwrap_or d v = (case v of None \<Rightarrow> d | Some x \<Rightarrow> x)"

definition build :: "path set \<Rightarrow> branch_config_builder \<Rightarrow> path set \<times> branch_config branch_result" where
  "build dirs b =
     (let workspace_id = unwrap_or 0 (bb_workspace_id b);
          branches_dir = unwrap_or [''.'', ''branches''] (bb_branches_dir b);
          registry_db_path = unwrap_or (path_join branches_dir ''branch_registry.db'') (bb_registry_db_path b);
          max_branches = unwrap_or 50 (bb_max_branches_per_workspace b);
          divergence_threshold = unwrap_or 0.8 (bb_divergence_threshold b)
      in if workspace_id = 0 then (dirs, Inl (NamingError ''workspace_id must not be nil''))
         else if max_branches < 1
         then (dirs, Inl (NamingError ''max_branches_per_workspace must be at least 1''))
         else if \<not> (0 \<le> divergence_threshold \<and> divergence_threshold \<le> 1) \<or> divergence_threshold = 0
         then (dirs, Inl (NamingError ''divergence_threshold must be within (0.0, 1.0]''))
         else
           let dirs = (case path_parent branches_dir of Some p \<Rightarrow> create_dir_all dirs p | None \<Rightarrow> dirs);
               dirs = (case path_parent registry_db_path of Some p \<Rightarrow> create_dir_all dirs p | None \<Rightarrow> dirs)
           in (dirs, Inr
                \<lparr>cf_workspace_id = workspace_id, cf_branches_dir = branches_dir,
                 cf_registry_db_path = registry_db_path,
                 cf_max_branches_per_workspace = max_branches,
                 cf_max_branch_age_days = unwrap_or None (bb_max_branch_age_days b),
                 cf_snapshot_compression = unwrap_or False (bb_snapshot_compression b),
                 cf_gc_interval_secs = unwrap_or 3600 (bb_gc_interval_secs b),
                 cf_gc_orphan_threshold_secs = unwrap_or 86400 (bb_gc_orphan_threshold_secs b),
                 cf_divergence_threshold = divergence_threshold,
                 cf_auto_metrics = unwrap_or True (bb_auto_metrics b),
                 cf_metrics_refresh_interval_secs = unwrap_or 300 (bb_metrics_refresh_interval_secs b),
                 cf_trunk_branch_name = unwrap_or ''trunk'' (bb_trunk_branch_name b)\<rparr>))"

definition default_for_workspace :: "codec \<Rightarrow> uuid \<Rightarrow> path \<Rightarrow> branch_config" where
  "default_for_workspace C workspace_id base_dir =
     (let workspace_root = path_join base_dir (uuid_str C workspace_id)
      in \<lparr>cf_workspace_id = workspace_id, cf_branches_dir = path_join workspace_root ''branches'',
          cf_registry_db_path = path_join workspace_root ''branch_registry.db'',
          cf_max_branches_per_workspace = 50, cf_max_branch_age_days = None,
          cf_snapshot_compression = False, cf_gc_interval_secs = 3600,
          cf_gc_orphan_threshold_secs = 86400, cf_divergence_threshold = 0.8, cf_auto_metrics = True,
          cf_metrics_refresh_interval_secs = 300, cf_trunk_branch_name = ''trunk''\<rparr>)"

section \<open>The environment\<close>

text \<open>\<open>u64::from_str\<close> (an optional plus, digits, in range) and \<open>bool::from_str\<close>.\<close>

definition parse_u64 :: "string \<Rightarrow> u64 option" where
  "parse_u64 s =
     (let digits = (if s \<noteq> [] \<and> hd s = CHR ''+'' then tl s else s)
      in if digits = [] \<or> \<not> list_all (\<lambda>c. 48 \<le> (of_char c :: nat) \<and> (of_char c :: nat) \<le> 57) digits then None
         else if read_nat digits < 2 ^ 64 then Some (of_nat (read_nat digits)) else None)"

definition parse_bool :: "string \<Rightarrow> bool option" where
  "parse_bool s = (if s = ''true'' then Some True else if s = ''false'' then Some False else None)"

definition parse_env_or_default ::
    "(string \<Rightarrow> string option) \<Rightarrow> (string \<Rightarrow> 'a option) \<Rightarrow> string \<Rightarrow> 'a \<Rightarrow> 'a branch_result" where
  "parse_env_or_default env parse key dflt =
     (case env key of
        Some value \<Rightarrow> ok_or (NamingError (''invalid value for '' @ key)) (parse value)
      | None \<Rightarrow> Inr dflt)"

definition parse_optional_env ::
    "(string \<Rightarrow> string option) \<Rightarrow> (string \<Rightarrow> 'a option) \<Rightarrow> string \<Rightarrow> 'a option branch_result" where
  "parse_optional_env env parse key =
     (case env key of
        Some value \<Rightarrow> ok_or (NamingError (''invalid value for '' @ key)) (map_option Some (parse value))
      | None \<Rightarrow> Inr None)"

definition env_builder ::
    "codec \<Rightarrow> text_codec \<Rightarrow> (string \<Rightarrow> real option) \<Rightarrow> (string \<Rightarrow> string option) \<Rightarrow>
     branch_config_builder branch_result" where
  "env_builder C K parse_f64 env =
     res_bind (ok_or (NamingError ''missing or invalid CLAW_BRANCH_WORKSPACE_ID'')
        (Option.bind (env ''CLAW_BRANCH_WORKSPACE_ID'') (uuid_parse C))) (\<lambda>workspace_id.
      let branches_dir = unwrap_or [''.'', ''branches''] (map_option (path_of K) (env ''CLAW_BRANCH_DIR''));
          registry_db_path = unwrap_or (path_join branches_dir ''branch_registry.db'')
            (map_option (path_of K) (env ''CLAW_BRANCH_REGISTRY''))
      in res_bind (parse_env_or_default env parse_u64 ''CLAW_BRANCH_MAX'' 50) (\<lambda>max_branches.
         res_bind (parse_optional_env env parse_u64 ''CLAW_BRANCH_MAX_AGE_DAYS'') (\<lambda>max_age.
         res_bind (parse_env_or_default env parse_u64 ''CLAW_BRANCH_GC_INTERVAL'' 3600) (\<lambda>gc_interval.
         res_bind (parse_env_or_default env parse_u64 ''CLAW_BRANCH_GC_ORPHAN_THRESHOLD'' 86400) (\<lambda>gc_threshold.
         res_bind (parse_env_or_default env parse_f64 ''CLAW_BRANCH_DIVERGENCE_THRESHOLD'' 0.8) (\<lambda>divergence.
         res_bind (parse_env_or_default env parse_bool ''CLAW_BRANCH_AUTO_METRICS'' True) (\<lambda>auto.
         res_bind (parse_env_or_default env parse_u64 ''CLAW_BRANCH_METRICS_REFRESH_INTERVAL'' 300) (\<lambda>refresh.
           Inr (set_trunk_branch_name (unwrap_or ''trunk'' (env ''CLAW_BRANCH_TRUNK_NAME''))
               (set_metrics_refresh_interval_secs refresh
               (set_auto_metrics auto
               (set_divergence_threshold divergence
               (set_gc_orphan_threshold_secs gc_threshold
               (set_gc_interval_secs gc_interval
               (set_snapshot_compression False
               (set_max_branch_age_days max_age
               (set_max_branches_per_workspace max_branches
               (set_registry_db_path registry_db_path
               (set_branches_dir branches_dir
               (set_workspace_id workspace_id builder))))))))))))))))))))"

definition from_env ::
    "codec \<Rightarrow> text_codec \<Rightarrow> (string \<Rightarrow> real option) \<Rightarrow> (string \<Rightarrow> string option) \<Rightarrow> path set \<Rightarrow>
     path set \<times> branch_config branch_result" where
  "from_env C K parse_f64 env dirs =
     (case env_builder C K parse_f64 env of
        Inl e \<Rightarrow> (dirs, Inl e)
      | Inr b \<Rightarrow> build dirs b)"

section \<open>Properties\<close>

definition config_ok :: "branch_config \<Rightarrow> bool" where
  "config_ok c \<longleftrightarrow> cf_workspace_id c \<noteq> 0 \<and> cf_max_branches_per_workspace c \<noteq> 0 \<and>
     0 < cf_divergence_threshold c \<and> cf_divergence_threshold c \<le> 1"

lemma env_parse_error:
  "parse_env_or_default env parse key dflt = Inl e \<Longrightarrow> \<exists>m. e = NamingError m"
  "parse_optional_env env parse key = Inl e \<Longrightarrow> \<exists>m. e = NamingError m"
  by (auto simp: parse_env_or_default_def parse_optional_env_def res_simps split: option.splits)

lemma env_builder_error: "env_builder C K parse_f64 env = Inl e \<Longrightarrow> \<exists>m. e = NamingError m"
  unfolding env_builder_def Let_def
  by (auto simp: res_simps dest: env_parse_error)

lemma env_builder_workspace:
  "env_builder C K parse_f64 env = Inr b \<Longrightarrow>
   bb_workspace_id b = Option.bind (env ''CLAW_BRANCH_WORKSPACE_ID'') (uuid_parse C)"
  unfolding env_builder_def Let_def
  by (auto simp: res_simps set_trunk_branch_name_def set_metrics_refresh_interval_secs_def
      set_auto_metrics_def set_divergence_threshold_def set_gc_orphan_threshold_secs_def
      set_gc_interval_secs_def set_snapshot_compression_def set_max_branch_age_days_def
      set_max_branches_per_workspace_def set_registry_db_path_def set_branches_dir_def
      set_workspace_id_def)

lemma build_workspace: "build dirs b = (dirs', Inr c) \<Longrightarrow> bb_workspace_id b = Some (cf_workspace_id c)"
  by (cases "bb_workspace_id b") (auto simp: build_def Let_def unwrap_or_def split: if_splits)

lemma build_ok:
  "build dirs b = (dirs', Inr c) \<Longrightarrow> config_ok c \<and> dirs \<subseteq> dirs'"
  by (auto simp: build_def Let_def config_ok_def create_dir_all_def not_less
      split: if_splits option.splits)

lemma build_error: "build dirs b = (dirs', Inl e) \<Longrightarrow> dirs' = dirs \<and> (\<exists>m. e = NamingError m)"
  by (auto simp: build_def Let_def split: if_splits option.splits)


end
