(* ===== verification/Snapshot.thy ===== *)
theory Snapshot
  imports Config Entities
begin

text \<open>
  \<open>src/snapshot/manifest.rs\<close>, \<open>verifier.rs\<close> and \<open>copier.rs\<close>: manifests, sidecar hashes, the
  verification of a snapshot and the full-file copies. The disk is the list of its files, byte
  strings under their paths; a directory is there when a file is in it. What SQLite reads in a file,
  BLAKE3, the UTF-8 test and \<open>trim\<close>, and the JSON text of a manifest are arguments.
\<close>

section \<open>The disk\<close>

type_synonym disk = "(path \<times> string) list"
type_synonym hash = "8 word list"

definition read_file :: "disk \<Rightarrow> path \<Rightarrow> string option" where
  "read_file d p = map_of d p"

definition remove_file :: "path \<Rightarrow> disk \<Rightarrow> disk" where
  "remove_file p d = filter (\<lambda>(q, _). q \<noteq> p) d"

definition write_file :: "path \<Rightarrow> string \<Rightarrow> disk \<Rightarrow> disk" where
  "write_file p s d = (p, s) # remove_file p d"

text \<open>\<open>fs::rename\<close> of an existing file.\<close>

definition rename_file :: "path \<Rightarrow> path \<Rightarrow> disk \<Rightarrow> disk" where
  "rename_file p q d =
     (case read_file d p of Some s \<Rightarrow> write_file q s (remove_file p d) | None \<Rightarrow> d)"

definition in_dir :: "path \<Rightarrow> path \<Rightarrow> bool" where
  "in_dir dir p \<longleftrightarrow> length dir < length p \<and> take (length dir) p = dir"

definition remove_dir_all :: "path \<Rightarrow> disk \<Rightarrow> disk" where
  "remove_dir_all dir d = filter (\<lambda>(p, _). \<not> in_dir dir p) d"

lemma read_remove [simp]: "read_file (remove_file p d) q = (if q = p then None else read_file d q)"
  by (induction d) (auto simp: read_file_def remove_file_def)

lemma read_write [simp]: "read_file (write_file p s d) q = (if q = p then Some s else read_file d q)"
proof -
  have "read_file (write_file p s d) q = (if q = p then Some s else read_file (remove_file p d) q)"
    by (simp add: write_file_def read_file_def)
  then show ?thesis by simp
qed

lemma read_remove_dir [simp]:
  "read_file (remove_dir_all dir d) q = (if in_dir dir q then None else read_file d q)"
  by (induction d) (auto simp: read_file_def remove_dir_all_def)

lemma read_rename:
  "read_file d p = Some s \<Longrightarrow> p \<noteq> q \<Longrightarrow>
   read_file (rename_file p q d) r = (if r = q then Some s else if r = p then None else read_file d r)"
  by (simp add: rename_file_def)

text \<open>\<open>Path::with_extension\<close> on the last component: what follows its last dot, if any but a leading one, goes.\<close>

definition file_stem :: "string \<Rightarrow> string" where
  "file_stem name =
     (let stem = butlast (rev (dropWhile (\<lambda>c. c \<noteq> CHR ''.'') (rev name)))
      in if CHR ''.'' \<in> set name \<and> stem \<noteq> [] then stem else name)"

definition with_extension :: "string \<Rightarrow> path \<Rightarrow> path" where
  "with_extension ext p = (if p = [] then [] else butlast p @ [file_stem (last p) @ ''.'' @ ext])"

section \<open>Manifests\<close>

record entity_counts =
  ec_memory_records :: int
  ec_sessions :: int
  ec_tool_outputs :: int

definition total :: "entity_counts \<Rightarrow> int" where
  "total c = ec_memory_records c + ec_sessions c + ec_tool_outputs c"

record snapshot_manifest =
  sm_branch_id :: uuid
  sm_source_db_path :: path
  sm_snapshot_db_path :: path
  sm_source_hash :: hash
  sm_snapshot_hash :: hash
  sm_schema_version :: u32
  sm_created_at :: datetime
  sm_file_size_bytes :: u64
  sm_label :: string
  sm_entity_counts :: entity_counts
  sm_sqlite_page_size :: u32
  sm_sqlite_page_count :: u64

text \<open>
  What the code takes from SQLite, BLAKE3, the standard library's text functions and \<open>serde_json\<close>,
  on the bytes of a file: the tables in it, its bytes after a WAL checkpoint, the answers of the
  pragmas; the streaming hash; validity and trimming of a text; the text of a manifest.
\<close>

record 'h host =
  sq_db :: "string \<Rightarrow> branch_db"
  sq_checkpoint :: "string \<Rightarrow> string"
  sq_integrity :: "string \<Rightarrow> string"
  sq_user_version :: "string \<Rightarrow> int"
  sq_page_size :: "string \<Rightarrow> int"
  sq_page_count :: "string \<Rightarrow> int"
  sq_data_version :: "string \<Rightarrow> int"
  hs_new :: "'h"
  hs_update :: "'h \<Rightarrow> string \<Rightarrow> 'h"
  hs_finalize :: "'h \<Rightarrow> hash"
  rt_utf8 :: "string \<Rightarrow> bool"
  rt_trim :: "string \<Rightarrow> string"
  mf_str :: "snapshot_manifest \<Rightarrow> string"
  mf_parse :: "string \<Rightarrow> snapshot_manifest option"

definition not_found :: branch_error where
  "not_found = Io ''No such file or directory''"

definition count_table :: "branch_db \<Rightarrow> entity_type \<Rightarrow> int branch_result" where
  "count_table db t = res_bind (ok_or no_such_table (db t)) (\<lambda>tb. Inr (int (length (tb_rows tb))))"

definition from_pool :: "branch_db \<Rightarrow> entity_counts branch_result" where
  "from_pool db =
     res_bind (count_table db MemoryRecord) (\<lambda>memory_records.
     res_bind (count_table db Session) (\<lambda>sessions.
     res_bind (count_table db ToolOutput) (\<lambda>tool_outputs.
       Inr \<lparr>ec_memory_records = memory_records, ec_sessions = sessions, ec_tool_outputs = tool_outputs\<rparr>)))"

definition save_manifest :: "'h host \<Rightarrow> snapshot_manifest \<Rightarrow> path \<Rightarrow> disk \<Rightarrow> disk" where
  "save_manifest H m dir d = write_file (path_join dir ''manifest.json'') (mf_str H m) d"

definition load_manifest :: "'h host \<Rightarrow> path \<Rightarrow> disk \<Rightarrow> snapshot_manifest branch_result" where
  "load_manifest H dir d =
     res_bind (ok_or not_found (read_file d (path_join dir ''manifest.json''))) (\<lambda>contents.
       ok_or (Serialization ''invalid manifest'') (mf_parse H contents))"

section \<open>Hashes\<close>

text \<open>\<open>{byte:02x}\<close>.\<close>

definition hex_digit :: "nat \<Rightarrow> char" where
  "hex_digit n = (if n < 10 then char_of (48 + n) else char_of (87 + n))"

definition hex_byte :: "8 word \<Rightarrow> string" where
  "hex_byte b = [hex_digit (unat b div 16), hex_digit (unat b mod 16)]"

definition hex_string :: "hash \<Rightarrow> string" where
  "hex_string h = concat (map hex_byte h)"

definition content_id :: "snapshot_manifest \<Rightarrow> string" where
  "content_id m = hex_string (sm_snapshot_hash m)"

definition from_hex :: "char \<Rightarrow> (8 word) option" where
  "from_hex c =
     (let n = (of_char c :: nat)
      in if 48 \<le> n \<and> n \<le> 57 then Some (of_nat (n - 48))
         else if 97 \<le> n \<and> n \<le> 102 then Some (of_nat (n - 97 + 10))
         else if 65 \<le> n \<and> n \<le> 70 then Some (of_nat (n - 65 + 10))
         else None)"

text \<open>The loop over the chunks of two of a text of even length.\<close>

fun hex_bytes :: "string \<Rightarrow> hash option" where
  "hex_bytes (a # b # cs) =
     Option.bind (from_hex a) (\<lambda>high. Option.bind (from_hex b) (\<lambda>low.
       map_option ((#) (or (push_bit 4 high) low)) (hex_bytes cs)))"
| "hex_bytes _ = Some []"

definition sidecar_hash_path_for_db :: "path \<Rightarrow> path" where
  "sidecar_hash_path_for_db snapshot_db_path = with_extension ''hash'' snapshot_db_path"

definition write_sidecar_hash :: "path \<Rightarrow> hash \<Rightarrow> disk \<Rightarrow> disk" where
  "write_sidecar_hash p h d = write_file p (hex_string h) d"

definition read_sidecar_hash :: "'h host \<Rightarrow> path \<Rightarrow> disk \<Rightarrow> hash option" where
  "read_sidecar_hash H p d =
     (case read_file d p of
        None \<Rightarrow> None
      | Some raw \<Rightarrow>
          if \<not> rt_utf8 H raw then None
          else let text = rt_trim H raw
               in if length text \<noteq> 64 then None else hex_bytes text)"

text \<open>\<open>hash_file_blake3\<close>: chunks of 64 KiB until a read returns nothing.\<close>

function hash_loop :: "'h host \<Rightarrow> 'h \<Rightarrow> string \<Rightarrow> 'h" where
  "hash_loop H hasher file =
     (let buffer = take 65536 file
      in if buffer = [] then hasher else hash_loop H (hs_update H hasher buffer) (drop 65536 file))"
  by pat_completeness auto
termination
  by (relation "measure (\<lambda>(H, h, file). length file)") auto

declare hash_loop.simps [simp del]

definition hash_bytes :: "'h host \<Rightarrow> string \<Rightarrow> hash" where
  "hash_bytes H file = hs_finalize H (hash_loop H (hs_new H) file)"

definition hash_file_blake3 :: "'h host \<Rightarrow> disk \<Rightarrow> path \<Rightarrow> hash branch_result" where
  "hash_file_blake3 H d p = res_bind (ok_or not_found (read_file d p)) (\<lambda>file. Inr (hash_bytes H file))"

section \<open>Verification\<close>

definition verify_schema_version :: "'h host \<Rightarrow> string \<Rightarrow> u32 \<Rightarrow> unit branch_result" where
  "verify_schema_version H file expected =
     (let actual = word_of_int (sq_user_version H file) :: u32
      in if actual \<noteq> expected
         then Inl (SnapshotFailed 0 (''schema version mismatch: expected '' @ show_nat (unat expected) @
                '', found '' @ show_nat (unat actual)))
         else Inr ())"

definition verify_snapshot :: "'h host \<Rightarrow> disk \<Rightarrow> snapshot_manifest \<Rightarrow> unit branch_result" where
  "verify_snapshot H d m =
     (let path = sm_snapshot_db_path m; corrupt = SnapshotCorrupt (sm_branch_id m) path
      in case read_file d path of
           None \<Rightarrow> Inl corrupt
         | Some file \<Rightarrow>
             let sidecar_path = sidecar_hash_path_for_db path
             in res_bind (ok_or (SnapshotHashMissing (sm_branch_id m) sidecar_path)
                  (read_sidecar_hash H sidecar_path d)) (\<lambda>expected.
                res_bind (hash_file_blake3 H d path) (\<lambda>hash.
                if hash \<noteq> expected then Inl corrupt
                else if sq_integrity H file \<noteq> ''ok'' then Inl corrupt
                else res_bind (from_pool (sq_db H file)) (\<lambda>counts.
                  if counts \<noteq> sm_entity_counts m then Inl corrupt
                  else verify_schema_version H file (sm_schema_version m)))))"

section \<open>Copying\<close>

definition snapshot_dir_for :: "codec \<Rightarrow> branch_config \<Rightarrow> uuid \<Rightarrow> path" where
  "snapshot_dir_for C cfg branch_id = path_join (cf_branches_dir cfg) (uuid_str C branch_id)"

definition snapshot_path_for :: "codec \<Rightarrow> branch_config \<Rightarrow> uuid \<Rightarrow> path" where
  "snapshot_path_for C cfg branch_id = path_join (snapshot_dir_for C cfg branch_id) ''branch.db''"

text \<open>
  \<open>create_snapshot\<close>: checkpoint the source, copy it over a temporary name, check integrity and hash,
  then leave the sidecar and the manifest. An error leaves the files written so far.
\<close>

definition create_snapshot ::
    "codec \<Rightarrow> 'h host \<Rightarrow> branch_config \<Rightarrow> datetime \<Rightarrow> disk \<Rightarrow> path \<Rightarrow> uuid \<Rightarrow> string \<Rightarrow>
     disk \<times> snapshot_manifest branch_result" where
  "create_snapshot C H cfg now d source_db_path branch_id label =
     (case read_file d source_db_path of
        None \<Rightarrow> (d, Inl unable_to_open)
      | Some source \<Rightarrow>
          let d = write_file source_db_path (sq_checkpoint H source) d
          in case hash_file_blake3 H d source_db_path of
        Inl e \<Rightarrow> (d, Inl e)
      | Inr source_hash \<Rightarrow>
          let destination_dir = snapshot_dir_for C cfg branch_id;
              destination_path = snapshot_path_for C cfg branch_id;
              temp = with_extension ''db.tmp'' destination_path;
              d = write_file temp (sq_checkpoint H source) d;
              d = rename_file temp destination_path d
          in case read_file d destination_path of
        None \<Rightarrow> (d, Inl unable_to_open)
      | Some file \<Rightarrow>
             if sq_integrity H file \<noteq> ''ok''
             then (d, Inl (SnapshotCorrupt branch_id destination_path))
             else
               case hash_file_blake3 H d destination_path of
                 Inl e \<Rightarrow> (d, Inl e)
               | Inr snapshot_hash \<Rightarrow>
                  if source_hash \<noteq> snapshot_hash
                  then (d, Inl (SnapshotFailed branch_id ''source and destination snapshot hashes differ''))
                  else
                    let d = write_sidecar_hash (sidecar_hash_path_for_db destination_path) snapshot_hash d
                    in case from_pool (sq_db H file) of
                         Inl e \<Rightarrow> (d, Inl e)
                       | Inr counts \<Rightarrow>
                           let manifest =
                             \<lparr>sm_branch_id = branch_id, sm_source_db_path = source_db_path,
                              sm_snapshot_db_path = destination_path, sm_source_hash = source_hash,
                              sm_snapshot_hash = snapshot_hash,
                              sm_schema_version = word_of_int (sq_user_version H file),
                              sm_created_at = now, sm_file_size_bytes = of_nat (length file),
                              sm_label = label, sm_entity_counts = counts,
                              sm_sqlite_page_size = word_of_int (sq_page_size H file),
                              sm_sqlite_page_count = word_of_int (sq_page_count H file)\<rparr>
                           in (save_manifest H manifest destination_dir d, Inr manifest))"

definition restore_snapshot ::
    "'h host \<Rightarrow> disk \<Rightarrow> path \<Rightarrow> path \<Rightarrow> snapshot_manifest \<Rightarrow> disk \<times> unit branch_result" where
  "restore_snapshot H d snapshot_path target_db_path m =
     (case verify_snapshot H d m of
        Inl e \<Rightarrow> (d, Inl e)
      | Inr _ \<Rightarrow>
          if snapshot_path \<noteq> sm_snapshot_db_path m
          then (d, Inl (SnapshotFailed (sm_branch_id m) ''snapshot path does not match manifest''))
          else
            let temp = with_extension ''db.tmp'' target_db_path
            in case read_file d snapshot_path of
                 None \<Rightarrow> (d, Inl not_found)
               | Some file \<Rightarrow> (rename_file temp target_db_path (write_file temp file d), Inr ()))"

definition delete_snapshot :: "codec \<Rightarrow> branch_config \<Rightarrow> disk \<Rightarrow> uuid \<Rightarrow> disk \<times> bool branch_result" where
  "delete_snapshot C cfg d branch_id =
     (let path = snapshot_dir_for C cfg branch_id
      in if list_ex (\<lambda>(p, _). in_dir path p) d then (remove_dir_all path d, Inr True) else (d, Inr False))"

text \<open>\<open>cleanup_incomplete_tmp_files\<close>: the \<open>.tmp\<close> files exactly one directory below the root.\<close>

definition is_tmp :: "string \<Rightarrow> bool" where
  "is_tmp name \<longleftrightarrow> file_stem name @ ''.tmp'' = name"

definition cleanup_incomplete_tmp_files :: "path \<Rightarrow> disk \<Rightarrow> disk" where
  "cleanup_incomplete_tmp_files branches_dir d =
     filter (\<lambda>(p, _). \<not> (in_dir branches_dir p \<and> length p = length branches_dir + 2 \<and> is_tmp (last p))) d"

section \<open>Interface laws\<close>

definition manifest_ok :: "snapshot_manifest \<Rightarrow> bool" where
  "manifest_ok m \<longleftrightarrow> length (sm_source_hash m) = 32 \<and> length (sm_snapshot_hash m) = 32"

definition lower_hex :: "char \<Rightarrow> bool" where
  "lower_hex c \<longleftrightarrow> (let n = (of_char c :: nat) in 48 \<le> n \<and> n \<le> 57 \<or> 97 \<le> n \<and> n \<le> 102)"

text \<open>
  What the crate relies on: hashing chunk by chunk is hashing the concatenation, a digest has 32
  bytes, a text of hexadecimal digits is valid UTF-8 and has nothing to trim, a manifest parses back,
  and a checkpoint does not change what the tables hold.
\<close>

locale host_laws =
  fixes H :: "'h host"
  assumes update_append: "hs_update H (hs_update H h a) b = hs_update H h (a @ b)"
    and update_nil: "hs_update H h [] = h"
    and finalize_length: "length (hs_finalize H h) = 32"
    and hex_text: "\<forall>c \<in> set s. lower_hex c \<Longrightarrow> rt_utf8 H s \<and> rt_trim H s = s"
    and manifest_roundtrip: "manifest_ok m \<Longrightarrow> mf_parse H (mf_str H m) = Some m"
    and checkpoint_db: "sq_db H (sq_checkpoint H f) = sq_db H f"
begin

lemma hash_loop_eq: "hash_loop H h bytes = hs_update H h bytes"
proof (induction "length bytes" arbitrary: h bytes rule: less_induct)
  case less
  show ?case
  proof (cases "bytes = []")
    case True
    then show ?thesis by (simp add: hash_loop.simps [of H h] update_nil)
  next
    case False
    then have "hash_loop H h bytes = hash_loop H (hs_update H h (take 65536 bytes)) (drop 65536 bytes)"
      by (simp add: hash_loop.simps [of H h])
    also have "\<dots> = hs_update H (hs_update H h (take 65536 bytes)) (drop 65536 bytes)"
      using False by (intro less) simp
    finally show ?thesis by (simp add: update_append)
  qed
qed

lemma hash_bytes_eq: "hash_bytes H file = hs_finalize H (hs_update H (hs_new H) file)"
  by (simp add: hash_bytes_def hash_loop_eq)

lemma hash_bytes_length [simp]: "length (hash_bytes H file) = 32"
  by (simp add: hash_bytes_def finalize_length)

end

section \<open>Hex texts\<close>

lemma of_char_hex: "n < 16 \<Longrightarrow> (of_char (hex_digit n) :: nat) = (if n < 10 then 48 + n else 87 + n)"
  by (simp add: hex_digit_def of_char_mod_256)

lemma from_hex_digit: "n < 16 \<Longrightarrow> from_hex (hex_digit n) = Some (of_nat n)"
  by (auto simp: from_hex_def of_char_hex Let_def)

lemma lower_hex_digit: "n < 16 \<Longrightarrow> lower_hex (hex_digit n)"
  by (auto simp: lower_hex_def of_char_hex Let_def)

lemma byte_nibbles: "or (push_bit 4 (of_nat (unat b div 16))) (of_nat (unat b mod 16)) = (b :: 8 word)"
proof -
  have "(of_nat (unat b div 16) :: 8 word) = drop_bit 4 b"
    by (simp add: drop_bit_eq_div unat_div word_arith_nat_div)
  moreover have "(of_nat (unat b mod 16) :: 8 word) = take_bit 4 b"
    by (simp add: take_bit_eq_mod word_arith_nat_mod)
  moreover have "or (push_bit 4 (drop_bit 4 b)) (take_bit 4 b) = b"
    by (rule bit_eqI) (auto simp: bit_simps)
  ultimately show ?thesis by simp
qed

lemma byte_digits: "unat (b :: 8 word) div 16 < 16" "unat (b :: 8 word) mod 16 < 16"
  using unsigned_less [of b, where 'a = nat] by simp_all

lemma hex_bytes_string: "hex_bytes (hex_string h) = Some h"
proof (induction h)
  case (Cons b h)
  have "hex_string (b # h) = hex_digit (unat b div 16) # hex_digit (unat b mod 16) # hex_string h"
    by (simp add: hex_string_def hex_byte_def)
  with Cons.IH show ?case by (simp add: from_hex_digit byte_digits byte_nibbles)
qed (simp add: hex_string_def)

lemma length_hex_string: "length (hex_string h) = 2 * length h"
  by (induction h) (simp_all add: hex_string_def hex_byte_def)

lemma hex_string_lower: "\<forall>c \<in> set (hex_string h). lower_hex c"
  by (auto simp: hex_string_def hex_byte_def lower_hex_digit byte_digits)

context host_laws begin

lemma sidecar_read:
  assumes "length h = 32" and "read_file d p = Some (hex_string h)"
  shows "read_sidecar_hash H p d = Some h"
  using hex_text [OF hex_string_lower [of h]] assms
  by (simp add: read_sidecar_hash_def length_hex_string hex_bytes_string)

lemma sidecar_roundtrip:
  "length h = 32 \<Longrightarrow> read_sidecar_hash H p (write_sidecar_hash p h d) = Some h"
  by (rule sidecar_read) (simp_all add: write_sidecar_hash_def)

end

text \<open>What \<open>verify_snapshot\<close> accepts.\<close>

lemma verify_ok_iff:
  "verify_snapshot H d m = Inr () \<longleftrightarrow>
     (\<exists>f. read_file d (sm_snapshot_db_path m) = Some f \<and>
        read_sidecar_hash H (sidecar_hash_path_for_db (sm_snapshot_db_path m)) d = Some (hash_bytes H f) \<and>
        sq_integrity H f = ''ok'' \<and> from_pool (sq_db H f) = Inr (sm_entity_counts m) \<and>
        (word_of_int (sq_user_version H f) :: u32) = sm_schema_version m)"
  by (auto simp: verify_snapshot_def Let_def hash_file_blake3_def verify_schema_version_def res_simps
      split: option.splits if_splits)

text \<open>A file whose digest is not the one in the sidecar is reported as corrupt.\<close>

lemma verify_tampered:
  assumes "read_file d (sm_snapshot_db_path m) = Some f"
    and "read_sidecar_hash H (sidecar_hash_path_for_db (sm_snapshot_db_path m)) d = Some h"
    and "hash_bytes H f \<noteq> h"
  shows "verify_snapshot H d m = Inl (SnapshotCorrupt (sm_branch_id m) (sm_snapshot_db_path m))"
  using assms by (simp add: verify_snapshot_def Let_def hash_file_blake3_def)

section \<open>What a snapshot leaves on the disk\<close>

lemma branch_paths:
  "with_extension ''db.tmp'' (dir @ [''branch.db'']) = dir @ [''branch.db.tmp'']"
  "sidecar_hash_path_for_db (dir @ [''branch.db'']) = dir @ [''branch.hash'']"
  "snapshot_path_for C cfg u = snapshot_dir_for C cfg u @ [''branch.db'']"
  by (simp_all add: with_extension_def sidecar_hash_path_for_db_def snapshot_path_for_def path_join_def
      file_stem_def Let_def)

lemma in_dir_append: "in_dir dir (dir @ [c])"
  by (simp add: in_dir_def)

definition snapshot_manifest_of ::
    "codec \<Rightarrow> 'h host \<Rightarrow> branch_config \<Rightarrow> datetime \<Rightarrow> path \<Rightarrow> uuid \<Rightarrow> string \<Rightarrow> string \<Rightarrow> entity_counts \<Rightarrow> snapshot_manifest" where
  "snapshot_manifest_of C H cfg now source_db_path branch_id label file counts =
     \<lparr>sm_branch_id = branch_id, sm_source_db_path = source_db_path,
      sm_snapshot_db_path = snapshot_path_for C cfg branch_id,
      sm_source_hash = hash_bytes H file, sm_snapshot_hash = hash_bytes H file,
      sm_schema_version = word_of_int (sq_user_version H file), sm_created_at = now,
      sm_file_size_bytes = of_nat (length file), sm_label = label, sm_entity_counts = counts,
      sm_sqlite_page_size = word_of_int (sq_page_size H file),
      sm_sqlite_page_count = word_of_int (sq_page_count H file)\<rparr>"

lemma create_snapshot_run:
  assumes "read_file d source = Some f" and "\<not> in_dir (snapshot_dir_for C cfg u) source"
    and "sq_integrity H (sq_checkpoint H f) = ''ok''"
    and "from_pool (sq_db H (sq_checkpoint H f)) = Inr counts"
  obtains d' where "create_snapshot C H cfg now d source u label =
      (d', Inr (snapshot_manifest_of C H cfg now source u label (sq_checkpoint H f) counts))"
    and "read_file d' source = Some (sq_checkpoint H f)"
    and "read_file d' (snapshot_path_for C cfg u) = Some (sq_checkpoint H f)"
    and "read_file d' (sidecar_hash_path_for_db (snapshot_path_for C cfg u)) =
      Some (hex_string (hash_bytes H (sq_checkpoint H f)))"
    and "read_file d' (path_join (snapshot_dir_for C cfg u) ''manifest.json'') =
      Some (mf_str H (snapshot_manifest_of C H cfg now source u label (sq_checkpoint H f) counts))"
    and "\<forall>p. p \<noteq> source \<longrightarrow> \<not> in_dir (snapshot_dir_for C cfg u) p \<longrightarrow> read_file d' p = read_file d p"
proof -
  let ?dir = "snapshot_dir_for C cfg u"
  let ?f = "sq_checkpoint H f"
  let ?m = "snapshot_manifest_of C H cfg now source u label ?f counts"
  define d1 where "d1 = write_file source ?f d"
  define d2 where "d2 = rename_file (?dir @ [''branch.db.tmp'']) (?dir @ [''branch.db''])
      (write_file (?dir @ [''branch.db.tmp'']) ?f d1)"
  define d3 where "d3 = write_sidecar_hash (?dir @ [''branch.hash'']) (hash_bytes H ?f) d2"
  define d' where "d' = save_manifest H ?m ?dir d3"
  have ne: "source \<noteq> ?dir @ [c]" for c using assms(2) in_dir_append [of ?dir c] by blast
  have r2: "read_file d2 p = (if p = ?dir @ [''branch.db''] then Some ?f
      else if p = ?dir @ [''branch.db.tmp''] then None else if p = source then Some ?f else read_file d p)" for p
    unfolding d2_def d1_def by (simp add: rename_file_def)
  have h1: "hash_file_blake3 H d1 source = Inr (hash_bytes H ?f)"
    by (simp add: hash_file_blake3_def d1_def)
  have h2: "hash_file_blake3 H d2 (?dir @ [''branch.db'']) = Inr (hash_bytes H ?f)"
    "read_file d2 (?dir @ [''branch.db'']) = Some ?f"
    by (simp_all add: hash_file_blake3_def r2)
  have run: "create_snapshot C H cfg now d source u label = (d', Inr ?m)"
    unfolding create_snapshot_def assms(1) option.case Let_def branch_paths
      d1_def [symmetric] h1 sum.case d2_def [symmetric] h2 assms(3,4) d3_def [symmetric]
    by (simp add: d'_def snapshot_manifest_of_def branch_paths(3))
  have r': "read_file d' p = (if p = ?dir @ [''manifest.json''] then Some (mf_str H ?m)
      else if p = ?dir @ [''branch.hash''] then Some (hex_string (hash_bytes H ?f)) else read_file d2 p)" for p
    by (simp add: d'_def d3_def save_manifest_def write_sidecar_hash_def path_join_def)
  show ?thesis
  proof (rule that [OF run])
    show "\<forall>p. p \<noteq> source \<longrightarrow> \<not> in_dir ?dir p \<longrightarrow> read_file d' p = read_file d p"
      using in_dir_append [of ?dir] by (auto simp: r' r2)
  qed (use ne in \<open>auto simp: r' r2 branch_paths path_join_def\<close>)
qed

section \<open>A concrete host\<close>

text \<open>
  The instance the witnesses use: a file is the text of the bound names of its memory records, a
  digest the length of the file, a manifest text the compact codec.
\<close>

definition table_of :: "(string \<times> (string \<times> json) list) list \<Rightarrow> table" where
  "table_of rows = \<lparr>tb_columns = [''id'', ''name''], tb_cell = (\<lambda>c a. Inr (text_cell a)),
     tb_default = (\<lambda>c. Inr JNull), tb_rows = rows\<rparr>"

definition length_digest :: "nat \<Rightarrow> hash" where
  "length_digest n = of_nat n # replicate 31 0"

definition ints_str :: "int list \<Rightarrow> string" where
  "ints_str is' = ids_str compact_codec (map show_int is')"

definition ints_parse :: "string \<Rightarrow> int list" where
  "ints_parse s = (case ids_parse compact_codec s of Some ss \<Rightarrow> map read_int ss | None \<Rightarrow> [])"

lemma ints_roundtrip [simp]: "ints_parse (ints_str is') = is'"
  by (simp add: ints_parse_def ints_str_def compact.ids_roundtrip read_show_int comp_def)

definition manifest_text :: "snapshot_manifest \<Rightarrow> string" where
  "manifest_text m = ids_str compact_codec
     [ints_str [uint (sm_branch_id m), uint (sm_schema_version m), sm_created_at m,
        uint (sm_file_size_bytes m), ec_memory_records (sm_entity_counts m),
        ec_sessions (sm_entity_counts m), ec_tool_outputs (sm_entity_counts m),
        uint (sm_sqlite_page_size m), uint (sm_sqlite_page_count m)],
      path_str compact_codec (sm_source_db_path m), path_str compact_codec (sm_snapshot_db_path m),
      hex_string (sm_source_hash m), hex_string (sm_snapshot_hash m), sm_label m]"

definition manifest_of_text :: "string \<Rightarrow> snapshot_manifest option" where
  "manifest_of_text s =
     (case ids_parse compact_codec s of
        Some [ns, source, snapshot, h1, h2, label] \<Rightarrow>
          (case (ints_parse ns, hex_bytes h1, hex_bytes h2) of
             ([u, v, t, n, a, b, c, ps, pc], Some h1, Some h2) \<Rightarrow>
               Some \<lparr>sm_branch_id = word_of_int u, sm_source_db_path = path_of compact_codec source,
                 sm_snapshot_db_path = path_of compact_codec snapshot, sm_source_hash = h1,
                 sm_snapshot_hash = h2, sm_schema_version = word_of_int v, sm_created_at = t,
                 sm_file_size_bytes = word_of_int n, sm_label = label,
                 sm_entity_counts = \<lparr>ec_memory_records = a, ec_sessions = b, ec_tool_outputs = c\<rparr>,
                 sm_sqlite_page_size = word_of_int ps, sm_sqlite_page_count = word_of_int pc\<rparr>
           | _ \<Rightarrow> None)
      | _ \<Rightarrow> None)"

lemma manifest_text_roundtrip: "manifest_of_text (manifest_text m) = Some m"
  by (simp add: manifest_of_text_def manifest_text_def compact.ids_roundtrip compact.path_roundtrip
      hex_bytes_string)

definition sample_host :: "string host" where
  "sample_host =
     \<lparr>sq_db = (\<lambda>f t. Some (table_of (map (\<lambda>c. ([c], [(''id'', JString [c])])) (if t = MemoryRecord then remdups f else [])))),
      sq_checkpoint = (\<lambda>f. f), sq_integrity = (\<lambda>_. ''ok''), sq_user_version = (\<lambda>_. 1),
      sq_page_size = (\<lambda>_. 4096), sq_page_count = (\<lambda>_. 1), sq_data_version = (\<lambda>_. 1),
      hs_new = [], hs_update = (\<lambda>h s. h @ s), hs_finalize = (\<lambda>h. length_digest (length h)),
      rt_utf8 = (\<lambda>_. True), rt_trim = (\<lambda>s. s), mf_str = manifest_text, mf_parse = manifest_of_text\<rparr>"

interpretation sample_host: host_laws sample_host
  by unfold_locales (simp_all add: sample_host_def length_digest_def manifest_text_roundtrip)

definition sample_config :: branch_config where
  "sample_config = (default_for_workspace decimal_codec 1 [])"

section \<open>Properties\<close>

text \<open>
  writing a digest to its sidecar and reading it back gives the digest, and hashing a file chunk
  by chunk gives the digest of its bytes.
\<close>

theorem sidecar_hash_roundtrip:
  assumes "host_laws H" and "length h = 32"
  shows "read_sidecar_hash H p (write_sidecar_hash p h d) = Some h \<and>
    hash_bytes H f = hs_finalize H (hs_update H (hs_new H) f)"
  using host_laws.sidecar_roundtrip [OF assms] host_laws.hash_bytes_eq [OF assms(1)] by blast

theorem sidecar_hash_roundtrip_witness:
  "read_sidecar_hash sample_host [''x''] (write_sidecar_hash [''x''] (length_digest 255) []) = Some (length_digest 255)"
proof -
  have "length (length_digest 255) = 32" by (simp add: length_digest_def)
  from sidecar_hash_roundtrip [OF sample_host.host_laws_axioms this] show ?thesis by blast
qed

text \<open>
  C23: a snapshot of an intact file holding the three tables succeeds: the destination has the very
  bytes of the (checkpointed) source, so the same tables; the manifest saved beside it loads back and
  verifies; no file outside the new directory changes but for the checkpoint of the source.
\<close>

theorem create_snapshot_correct:
  assumes "host_laws H" and "read_file d source = Some f" and "\<not> in_dir (snapshot_dir_for C cfg u) source"
    and "sq_integrity H (sq_checkpoint H f) = ''ok''" and "from_pool (sq_db H f) = Inr counts"
  shows "\<exists>d' m. create_snapshot C H cfg now d source u label = (d', Inr m) \<and>
    sm_branch_id m = u \<and> sm_snapshot_db_path m = snapshot_path_for C cfg u \<and> sm_entity_counts m = counts \<and>
    (\<exists>g. read_file d' (snapshot_path_for C cfg u) = Some g \<and> read_file d' source = Some g \<and> sq_db H g = sq_db H f) \<and>
    load_manifest H (snapshot_dir_for C cfg u) d' = Inr m \<and> verify_snapshot H d' m = Inr () \<and>
    (\<forall>p. p \<noteq> source \<longrightarrow> \<not> in_dir (snapshot_dir_for C cfg u) p \<longrightarrow> read_file d' p = read_file d p)"
proof -
  let ?f = "sq_checkpoint H f"
  let ?m = "snapshot_manifest_of C H cfg now source u label ?f counts"
  have db: "sq_db H ?f = sq_db H f" using host_laws.checkpoint_db [OF assms(1)] .
  have counts: "from_pool (sq_db H ?f) = Inr counts" using assms(5) db by simp
  obtain d' where d': "create_snapshot C H cfg now d source u label = (d', Inr ?m)"
    "read_file d' source = Some ?f" "read_file d' (snapshot_path_for C cfg u) = Some ?f"
    "read_file d' (sidecar_hash_path_for_db (snapshot_path_for C cfg u)) = Some (hex_string (hash_bytes H ?f))"
    "read_file d' (path_join (snapshot_dir_for C cfg u) ''manifest.json'') = Some (mf_str H ?m)"
    "\<forall>p. p \<noteq> source \<longrightarrow> \<not> in_dir (snapshot_dir_for C cfg u) p \<longrightarrow> read_file d' p = read_file d p"
    by (rule create_snapshot_run [OF assms(2-4) counts])
  have len: "length (hash_bytes H ?f) = 32" using host_laws.hash_bytes_length [OF assms(1)] .
  have sel: "sm_branch_id ?m = u" "sm_snapshot_db_path ?m = snapshot_path_for C cfg u" "sm_entity_counts ?m = counts"
    "sm_schema_version ?m = word_of_int (sq_user_version H ?f)" "manifest_ok ?m"
    using len by (simp_all add: snapshot_manifest_of_def manifest_ok_def)
  have "load_manifest H (snapshot_dir_for C cfg u) d' = Inr ?m"
    using d'(5) host_laws.manifest_roundtrip [OF assms(1) sel(5)] by (simp add: load_manifest_def)
  moreover have "verify_snapshot H d' ?m = Inr ()"
    unfolding verify_ok_iff sel d'(3) using host_laws.sidecar_read [OF assms(1) len d'(4)] assms(4) counts by simp
  ultimately show ?thesis using d' sel db by blast
qed

theorem create_snapshot_correct_witness:
  "\<exists>d' m. create_snapshot decimal_codec sample_host sample_config 5 [([''s.db''], ''ab'')] [''s.db''] 9 ''x'' = (d', Inr m) \<and>
     verify_snapshot sample_host d' m = Inr () \<and> ec_memory_records (sm_entity_counts m) = 2"
proof -
  have r: "read_file [([''s.db''], ''ab'')] [''s.db''] = Some ''ab''" by (simp add: read_file_def)
  have i: "\<not> in_dir (snapshot_dir_for decimal_codec sample_config 9) [''s.db'']"
    by (simp add: in_dir_def snapshot_dir_for_def path_join_def)
  have ok: "sq_integrity sample_host (sq_checkpoint sample_host ''ab'') = ''ok''" by (simp add: sample_host_def)
  have c: "from_pool (sq_db sample_host ''ab'') =
      Inr \<lparr>ec_memory_records = 2, ec_sessions = 0, ec_tool_outputs = 0\<rparr>"
    by (simp add: from_pool_def count_table_def sample_host_def table_of_def)
  from create_snapshot_correct [OF sample_host.host_laws_axioms r i ok c, of 5 "''x''"] show ?thesis by force
qed

text \<open>
  verification accepts a snapshot exactly when the file is there, its digest is the one in the
  sidecar, SQLite finds it intact, and the entity counts and the schema version are those of the
  manifest; a file with another digest is reported as corrupt.
\<close>

theorem verify_snapshot_correct:
  "(verify_snapshot H d m = Inr () \<longleftrightarrow>
     (\<exists>f. read_file d (sm_snapshot_db_path m) = Some f \<and>
        read_sidecar_hash H (sidecar_hash_path_for_db (sm_snapshot_db_path m)) d = Some (hash_bytes H f) \<and>
        sq_integrity H f = ''ok'' \<and> from_pool (sq_db H f) = Inr (sm_entity_counts m) \<and>
        (word_of_int (sq_user_version H f) :: u32) = sm_schema_version m)) \<and>
   (\<not> (\<exists>f h. read_file d (sm_snapshot_db_path m) = Some f \<and>
        read_sidecar_hash H (sidecar_hash_path_for_db (sm_snapshot_db_path m)) d = Some h \<and>
        hash_bytes H f \<noteq> h \<and>
        verify_snapshot H d m \<noteq> Inl (SnapshotCorrupt (sm_branch_id m) (sm_snapshot_db_path m))))"
  using verify_ok_iff verify_tampered by blast

section \<open>Successful snapshots\<close>

text \<open>A snapshot that succeeded had an intact source with the three tables.\<close>

lemma create_snapshot_inv:
  assumes "create_snapshot C H cfg now d source u label = (d', Inr m)"
    and "\<not> in_dir (snapshot_dir_for C cfg u) source"
  shows "\<exists>f counts. read_file d source = Some f \<and> sq_integrity H (sq_checkpoint H f) = ''ok'' \<and>
    from_pool (sq_db H (sq_checkpoint H f)) = Inr counts"
proof -
  let ?dir = "snapshot_dir_for C cfg u"
  obtain f where f: "read_file d source = Some f"
    using assms(1) by (cases "read_file d source") (simp_all add: create_snapshot_def)
  let ?f = "sq_checkpoint H f"
  define d1 where "d1 = write_file source ?f d"
  define d2 where "d2 = rename_file (?dir @ [''branch.db.tmp'']) (?dir @ [''branch.db''])
      (write_file (?dir @ [''branch.db.tmp'']) ?f d1)"
  have h1: "hash_file_blake3 H d1 source = Inr (hash_bytes H ?f)"
    by (simp add: hash_file_blake3_def d1_def)
  have h2: "hash_file_blake3 H d2 (?dir @ [''branch.db'']) = Inr (hash_bytes H ?f)"
    "read_file d2 (?dir @ [''branch.db'']) = Some ?f"
    by (simp_all add: hash_file_blake3_def d2_def rename_file_def)
  note run = assms(1) [unfolded create_snapshot_def f option.case Let_def branch_paths
      d1_def [symmetric] h1 sum.case d2_def [symmetric] h2]
  show ?thesis
  proof (cases "sq_integrity H ?f = ''ok''")
    case True
    then show ?thesis using run f by (cases "from_pool (sq_db H ?f)") simp_all
  next
    case False
    then show ?thesis using run by simp
  qed
qed

end
