(* ===== verification/Lifecycle.thy ===== *)
theory Lifecycle
  imports Naming Dag Registry Snapshot
begin

text \<open>
  \<open>src/branch/lifecycle.rs\<close>: trunk creation, forks and the status changes, over the registry
  (\<open>Store\<close>), the lineage DAG (\<open>Dag\<close>) and the snapshots on disk (\<open>Snapshot\<close>). The world is the state
  of the three; the services are what the components take from outside the repository, with the
  configuration. A new identifier and the readings of the clock, in their order, are arguments.
\<close>

record 'g world =
  wd_registry :: registry
  wd_dag :: "'g dag"
  wd_disk :: disk

record ('g, 'h) services =
  sv_codec :: codec
  sv_text :: text_codec
  sv_order :: sql_order
  sv_host :: "'h host"
  sv_graph :: "'g petgraph"
  sv_unicode :: unicode
  sv_config :: branch_config

section \<open>Operations\<close>

abbreviation sv_insert where
  "sv_insert S \<equiv> store_insert (sv_codec S) (sv_text S)"

abbreviation sv_get where
  "sv_get S \<equiv> store_get (sv_codec S) (sv_text S) (sv_order S)"

abbreviation sv_branches where
  "sv_branches S w \<equiv> branches_of (sv_codec S) (sv_text S) (wd_registry w)"

text \<open>The metrics of a branch fresh from its snapshot.\<close>

definition snapshot_metrics :: "datetime \<Rightarrow> snapshot_manifest \<Rightarrow> branch_metrics" where
  "snapshot_metrics now m = default_metrics
     \<lparr>memory_record_count := ec_memory_records (sm_entity_counts m),
      session_count := ec_sessions (sm_entity_counts m),
      tool_output_count := ec_tool_outputs (sm_entity_counts m),
      bytes_on_disk := sm_file_size_bytes m, last_activity_at := Some now\<rparr>"

definition create_trunk ::
    "('g, 'h) services \<Rightarrow> (nat \<Rightarrow> datetime) \<Rightarrow> uuid \<Rightarrow> 'g world \<Rightarrow> uuid \<Rightarrow> path \<Rightarrow> 'g world \<times> branch branch_result" where
  "create_trunk S clock branch_id w workspace_id source_db_path =
     (let cfg = sv_config S
      in case create_snapshot (sv_codec S) (sv_host S) cfg (clock 0) (wd_disk w) source_db_path branch_id
           (cf_trunk_branch_name cfg) of
        (d, Inl e) \<Rightarrow> (w\<lparr>wd_disk := d\<rparr>, Inl e)
      | (d, Inr manifest) \<Rightarrow>
          let now = clock 1;
              b = \<lparr>br_id = branch_id, br_name = cf_trunk_branch_name cfg, br_slug = cf_trunk_branch_name cfg,
                   br_parent_id = None, br_status = Active, br_db_path = sm_snapshot_db_path manifest,
                   br_snapshot_path = sm_snapshot_db_path manifest, br_workspace_id = workspace_id,
                   br_created_at = now, br_updated_at = now, br_forked_from_cursor = None,
                   br_description = Some ''Primary trunk branch'',
                   br_metadata = JObject (obj_of_list [(''role'', JString ''trunk''),
                     (''content_id'', JString (content_id manifest))]),
                   br_metrics = snapshot_metrics now manifest\<rparr>
          in case sv_insert S (clock 2) (wd_registry w) b of
               (R, Inl e) \<Rightarrow> (w\<lparr>wd_disk := d, wd_registry := R\<rparr>, Inl e)
             | (R, Inr _) \<Rightarrow>
          case add_node (sv_graph S) (wd_dag w) branch_id of
               (g, Inl e) \<Rightarrow> (w\<lparr>wd_disk := d, wd_registry := R, wd_dag := g\<rparr>, Inl e)
             | (g, Inr _) \<Rightarrow> (w\<lparr>wd_disk := d, wd_registry := R, wd_dag := g\<rparr>, Inr b))"

text \<open>\<open>None\<close> is a call that does not return, in the suffix search or by a panic of the graph.\<close>

definition fork ::
    "('g, 'h) services \<Rightarrow> (nat \<Rightarrow> datetime) \<Rightarrow> uuid \<Rightarrow> 'g world \<Rightarrow> uuid \<Rightarrow> string \<Rightarrow> string option \<Rightarrow>
     ('g world \<times> branch branch_result) option" where
  "fork S clock branch_id w parent_id name description =
     (case validate name of
        Inl e \<Rightarrow> Some (w, Inl e)
      | Inr _ \<Rightarrow>
     (case sv_get S (wd_registry w) (cf_workspace_id (sv_config S)) parent_id of
        Inl e \<Rightarrow> Some (w, Inl e)
      | Inr parent \<Rightarrow>
     (if \<not> is_live (br_status parent)
      then Some (w, Inl (BranchNotActive (br_id parent) (kind (br_status parent))))
      else if store_count_active (sv_codec S) (wd_registry w) (br_workspace_id parent) \<ge>
              cf_max_branches_per_workspace (sv_config S)
      then Some (w, Inl BranchLimitExceeded)
      else
     (case store_list (sv_codec S) (sv_text S) (sv_order S) (wd_registry w) (br_workspace_id parent) None of
        Inl e \<Rightarrow> Some (w, Inl e)
      | Inr branches \<Rightarrow>
          let existing_slugs = map br_slug branches
          in case make_unique (slugify (sv_unicode S) (map of_char name)) existing_slugs of
        None \<Rightarrow> None
      | Some slug \<Rightarrow>
     (if slug \<in> set existing_slugs then Some (w, Inl (BranchAlreadyExists slug))
      else case read_file (wd_disk w) (br_db_path parent) of
        None \<Rightarrow> Some (w, Inl unable_to_open)
      | Some file \<Rightarrow>
          let file = sq_checkpoint (sv_host S) file;
              d = write_file (br_db_path parent) file (wd_disk w);
              forked_from_cursor = Some (show_int (sq_data_version (sv_host S) file))
          in case create_snapshot (sv_codec S) (sv_host S) (sv_config S) (clock 0) d (br_db_path parent)
                branch_id name of
        (d, Inl e) \<Rightarrow> Some (w\<lparr>wd_disk := d\<rparr>, Inl e)
      | (d, Inr manifest) \<Rightarrow>
          let now = clock 1;
              b = \<lparr>br_id = branch_id, br_name = name, br_slug = slug, br_parent_id = Some parent_id,
                   br_status = Active, br_db_path = sm_snapshot_db_path manifest,
                   br_snapshot_path = sm_snapshot_db_path manifest, br_workspace_id = br_workspace_id parent,
                   br_created_at = now, br_updated_at = now, br_forked_from_cursor = forked_from_cursor,
                   br_description = description,
                   br_metadata = JObject (obj_of_list [(''forked_from'', JString (uuid_str (sv_codec S) parent_id)),
                     (''content_id'', JString (content_id manifest))]),
                   br_metrics = snapshot_metrics now manifest\<rparr>
          in case sv_insert S (clock 2) (wd_registry w) b of
        (R, Inl e) \<Rightarrow> Some (w\<lparr>wd_disk := d, wd_registry := R\<rparr>, Inl e)
      | (R, Inr _) \<Rightarrow>
     (case add_node (sv_graph S) (wd_dag w) parent_id of
        (g, Inl e) \<Rightarrow> Some (w\<lparr>wd_disk := d, wd_registry := R, wd_dag := g\<rparr>, Inl e)
      | (g, Inr _) \<Rightarrow>
     (case add_edge (sv_graph S) (clock 3) g parent_id branch_id of
        None \<Rightarrow> None
      | Some (g, Inl e) \<Rightarrow> Some (w\<lparr>wd_disk := d, wd_registry := R, wd_dag := g\<rparr>, Inl e)
      | Some (g, Inr _) \<Rightarrow> Some (w\<lparr>wd_disk := d, wd_registry := R, wd_dag := g\<rparr>, Inr b))))))))"

text \<open>\<open>self.store.update_status(..).await\<close> on the world.\<close>

definition set_status ::
    "('g, 'h) services \<Rightarrow> datetime \<Rightarrow> 'g world \<Rightarrow> uuid \<Rightarrow> branch_status \<Rightarrow> 'g world \<times> unit branch_result" where
  "set_status S now w id' status =
     (case store_update_status (sv_codec S) now (wd_registry w) id' status of
        (R, r) \<Rightarrow> (w\<lparr>wd_registry := R\<rparr>, r))"

definition activate ::
    "('g, 'h) services \<Rightarrow> (nat \<Rightarrow> datetime) \<Rightarrow> 'g world \<Rightarrow> uuid \<Rightarrow> 'g world \<times> unit branch_result" where
  "activate S clock w id' =
     (case sv_get S (wd_registry w) (cf_workspace_id (sv_config S)) id' of
        Inl e \<Rightarrow> (w, Inl e)
      | Inr b \<Rightarrow>
          (case br_status b of
             Dormant \<Rightarrow> set_status S (clock 0) w id' Active
           | Active \<Rightarrow> (w, Inr ())
           | other \<Rightarrow> (w, Inl (BranchNotActive id' (kind other)))))"

definition deactivate ::
    "('g, 'h) services \<Rightarrow> (nat \<Rightarrow> datetime) \<Rightarrow> 'g world \<Rightarrow> uuid \<Rightarrow> 'g world \<times> unit branch_result" where
  "deactivate S clock w id' =
     (case sv_get S (wd_registry w) (cf_workspace_id (sv_config S)) id' of
        Inl e \<Rightarrow> (w, Inl e)
      | Inr b \<Rightarrow>
          (case br_status b of
             Active \<Rightarrow> set_status S (clock 0) w id' Dormant
           | other \<Rightarrow> (w, Inl (BranchNotActive id' (kind other)))))"

definition discard ::
    "('g, 'h) services \<Rightarrow> (nat \<Rightarrow> datetime) \<Rightarrow> 'g world \<Rightarrow> uuid \<Rightarrow> 'g world \<times> unit branch_result" where
  "discard S clock w id' =
     (case sv_get S (wd_registry w) (cf_workspace_id (sv_config S)) id' of
        Inl e \<Rightarrow> (w, Inl e)
      | Inr b \<Rightarrow>
          if \<not> is_live (br_status b) then (w, Inl (BranchNotActive id' (kind (br_status b))))
          else set_status S (clock 1) w id' (Discarded (clock 0)))"

definition archive ::
    "('g, 'h) services \<Rightarrow> (nat \<Rightarrow> datetime) \<Rightarrow> 'g world \<Rightarrow> uuid \<Rightarrow> 'g world \<times> unit branch_result" where
  "archive S clock w id' =
     (case sv_get S (wd_registry w) (cf_workspace_id (sv_config S)) id' of
        Inl e \<Rightarrow> (w, Inl e)
      | Inr b \<Rightarrow>
          if \<not> is_live (br_status b) then (w, Inl (BranchNotActive id' (kind (br_status b))))
          else set_status S (clock 0) w id' Archived)"

definition restore_archived ::
    "('g, 'h) services \<Rightarrow> (nat \<Rightarrow> datetime) \<Rightarrow> 'g world \<Rightarrow> uuid \<Rightarrow> 'g world \<times> branch branch_result" where
  "restore_archived S clock w id' =
     (let ws = cf_workspace_id (sv_config S)
      in case sv_get S (wd_registry w) ws id' of
        Inl e \<Rightarrow> (w, Inl e)
      | Inr b \<Rightarrow>
          (case br_status b of
             Archived \<Rightarrow>
               (case res_bind (ok_or (SnapshotFailed id' ''snapshot path missing parent directory'')
                        (path_parent (br_snapshot_path b))) (\<lambda>dir.
                      res_bind (load_manifest (sv_host S) dir (wd_disk w)) (\<lambda>manifest.
                        verify_snapshot (sv_host S) (wd_disk w) manifest)) of
                  Inl e \<Rightarrow> (w, Inl e)
                | Inr _ \<Rightarrow>
                    (case set_status S (clock 0) w id' Active of
                       (w', Inl e) \<Rightarrow> (w', Inl e)
                     | (w', Inr _) \<Rightarrow> (w', sv_get S (wd_registry w') ws id')))
           | other \<Rightarrow> (w, Inl (BranchNotActive id' (kind other)))))"

section \<open>The invariant of the world\<close>

definition services_ok :: "('g, 'h) services \<Rightarrow> bool" where
  "services_ok S \<longleftrightarrow> store_env (sv_codec S) (sv_text S) (sv_order S) \<and> host_laws (sv_host S) \<and> digraph (sv_graph S)"

text \<open>
  The registry tables are in order, the DAG is well-formed, and every registered branch is a node of
  the DAG with an edge from the parent the registry records.
\<close>

definition world_ok :: "('g, 'h) services \<Rightarrow> 'g world \<Rightarrow> bool" where
  "world_ok S w \<longleftrightarrow>
     registry_ok (sv_codec S) (sv_text S) (wd_registry w) \<and> dag_wf (sv_graph S) (wd_dag w) \<and>
     (\<forall>i b. sv_branches S w i = Some b \<longrightarrow> i \<in> dag_nodes (sv_graph S) (wd_dag w) \<and>
        (\<forall>p. br_parent_id b = Some p \<longrightarrow> (p, i) \<in> dag_rel (sv_graph S) (wd_dag w)))"

lemma services_okD:
  assumes "services_ok S"
  shows "store_env (sv_codec S) (sv_text S) (sv_order S)" "host_laws (sv_host S)" "digraph (sv_graph S)"
  using assms by (simp_all add: services_ok_def)

lemma world_okD:
  assumes "world_ok S w"
  shows "registry_ok (sv_codec S) (sv_text S) (wd_registry w)" "dag_wf (sv_graph S) (wd_dag w)"
    "sv_branches S w i = Some b \<Longrightarrow> i \<in> dag_nodes (sv_graph S) (wd_dag w)"
    "sv_branches S w i = Some b \<Longrightarrow> br_parent_id b = Some p \<Longrightarrow> (p, i) \<in> dag_rel (sv_graph S) (wd_dag w)"
  using assms unfolding world_ok_def by blast+

lemma world_ok_disk: "world_ok S (w\<lparr>wd_disk := d\<rparr>) = world_ok S w"
  by (simp add: world_ok_def)

section \<open>Forks\<close>

text \<open>A fresh branch added to the registry and below a node of the DAG keeps the invariant.\<close>

lemma world_ok_insert:
  assumes "services_ok S" and "world_ok S w" and "registry_ok (sv_codec S) (sv_text S) R"
    and "branches_of (sv_codec S) (sv_text S) R = (sv_branches S w)(br_id b \<mapsto> b)"
    and "dag_wf (sv_graph S) g"
    and "insert (br_id b) (dag_nodes (sv_graph S) (wd_dag w)) \<subseteq> dag_nodes (sv_graph S) g"
    and "dag_rel (sv_graph S) (wd_dag w) \<subseteq> dag_rel (sv_graph S) g"
    and "\<forall>p. br_parent_id b = Some p \<longrightarrow> (p, br_id b) \<in> dag_rel (sv_graph S) g"
  shows "world_ok S (w\<lparr>wd_disk := d, wd_registry := R, wd_dag := g\<rparr>)"
proof -
  have "i \<in> dag_nodes (sv_graph S) g \<and> (\<forall>p. br_parent_id c = Some p \<longrightarrow> (p, i) \<in> dag_rel (sv_graph S) g)"
    if c: "branches_of (sv_codec S) (sv_text S) R i = Some c" for i c
  proof (cases "i = br_id b")
    case True
    then show ?thesis using c assms(4,6,8) by auto
  next
    case False
    then have "sv_branches S w i = Some c" using c assms(4) by simp
    then show ?thesis using world_okD(3,4) [OF assms(2)] assms(6,7) by blast
  qed
  then show ?thesis using assms(3,5) by (simp add: world_ok_def)
qed

text \<open>The new edge of a fork never closes a cycle.\<close>

lemma fork_edge:
  assumes "digraph P" and wf: "dag_wf P d" and u: "u \<notin> dag_nodes P d" and p: "p \<in> dag_nodes P d"
    and "add_node P d p = (d1, r1)"
  shows "\<exists>i d2. r1 = Inr i \<and> add_edge P now d1 p u = Some (d2, Inr ()) \<and> dag_wf P d2 \<and>
    dag_nodes P d2 = insert u (dag_nodes P d) \<and> dag_rel P d2 = insert (p, u) (dag_rel P d)"
proof -
  obtain i where e: "ensure_or_insert P d p = (d1, i)" and r1: "r1 = Inr i"
    using assms(5) by (cases "ensure_or_insert P d p") (simp add: digraph.add_node_eq [OF assms(1)])
  note s = digraph.ensure_spec [OF assms(1) wf e]
  have nodes: "dag_nodes P d1 = dag_nodes P d" using s(4) p by auto
  have "p \<noteq> u" using p u by auto
  moreover have "(u, p) \<notin> (dag_rel P d1)\<^sup>+"
    using rel_trancl_nodes [OF s(1)] nodes u by auto
  ultimately obtain d2 where "add_edge_meta P d1 p u \<lparr>em_forked_at = now, em_merge_cursor = None\<rparr> = Some (d2, Inr ())"
    "dag_wf P d2" "dag_nodes P d2 = insert u (insert p (dag_nodes P d1))" "dag_rel P d2 = insert (p, u) (dag_rel P d1)"
    using digraph.add_edge_meta_spec [OF assms(1) s(1), of p u "\<lparr>em_forked_at = now, em_merge_cursor = None\<rparr>"] by auto
  then show ?thesis using r1 nodes p s(5) by (auto simp: add_edge_def)
qed

text \<open>What a fork that succeeded did.\<close>

definition forked ::
    "('g, 'h) services \<Rightarrow> uuid \<Rightarrow> 'g world \<Rightarrow> uuid \<Rightarrow> string \<Rightarrow> 'g world \<Rightarrow> branch \<Rightarrow> branch \<Rightarrow> bool" where
  "forked S u w parent_id name w' parent b \<longleftrightarrow>
     validate name = Inr () \<and> sv_branches S w parent_id = Some parent \<and> is_live (br_status parent) \<and>
     br_workspace_id parent = cf_workspace_id (sv_config S) \<and>
     br_id b = u \<and> br_name b = name \<and> br_parent_id b = Some parent_id \<and> br_status b = Active \<and>
     br_workspace_id b = br_workspace_id parent \<and> br_db_path b = snapshot_path_for (sv_codec S) (sv_config S) u \<and>
     sv_branches S w' = (sv_branches S w)(u \<mapsto> b) \<and>
     (\<forall>c. sv_branches S w (br_id c) = Some c \<and> br_workspace_id c = br_workspace_id b \<longrightarrow> br_slug c \<noteq> br_slug b) \<and>
     dag_nodes (sv_graph S) (wd_dag w') = insert u (dag_nodes (sv_graph S) (wd_dag w)) \<and>
     dag_rel (sv_graph S) (wd_dag w') = insert (parent_id, u) (dag_rel (sv_graph S) (wd_dag w))"

lemma create_snapshot_path:
  "create_snapshot C H cfg now d source u label = (d', Inr m) \<Longrightarrow>
   sm_snapshot_db_path m = snapshot_path_for C cfg u"
  by (auto simp: create_snapshot_def Let_def split: option.splits sum.splits if_splits)

text \<open>Why a fork is refused, in the order of the checks, and with which error.\<close>

definition fork_refused ::
    "('g, 'h) services \<Rightarrow> (nat \<Rightarrow> datetime) \<Rightarrow> uuid \<Rightarrow> 'g world \<Rightarrow> uuid \<Rightarrow> string \<Rightarrow> branch_error \<Rightarrow> bool" where
  "fork_refused S clock u w parent_id name e \<longleftrightarrow>
     validate name = Inl e \<or>
     (validate name = Inr () \<and> sv_get S (wd_registry w) (cf_workspace_id (sv_config S)) parent_id = Inl e) \<or>
     (\<exists>parent. validate name = Inr () \<and>
        sv_get S (wd_registry w) (cf_workspace_id (sv_config S)) parent_id = Inr parent \<and>
        (if \<not> is_live (br_status parent) then e = BranchNotActive (br_id parent) (kind (br_status parent))
         else if store_count_active (sv_codec S) (wd_registry w) (br_workspace_id parent) \<ge>
                 cf_max_branches_per_workspace (sv_config S) then e = BranchLimitExceeded
         else case read_file (wd_disk w) (br_db_path parent) of
             None \<Rightarrow> e = unable_to_open
           | Some f \<Rightarrow> snd (create_snapshot (sv_codec S) (sv_host S) (sv_config S) (clock 0)
               (write_file (br_db_path parent) (sq_checkpoint (sv_host S) f) (wd_disk w))
               (br_db_path parent) u name) = Inl e))"

text \<open>The last stages of a fork: the new branch, and its registration.\<close>

definition fork_branch ::
    "('g, 'h) services \<Rightarrow> (nat \<Rightarrow> datetime) \<Rightarrow> uuid \<Rightarrow> branch \<Rightarrow> uuid \<Rightarrow> string \<Rightarrow> string option \<Rightarrow> string \<Rightarrow>
     snapshot_manifest \<Rightarrow> string \<Rightarrow> branch" where
  "fork_branch S clock u parent parent_id name description slug m file =
     \<lparr>br_id = u, br_name = name, br_slug = slug, br_parent_id = Some parent_id,
      br_status = Active, br_db_path = sm_snapshot_db_path m,
      br_snapshot_path = sm_snapshot_db_path m, br_workspace_id = br_workspace_id parent,
      br_created_at = clock 1, br_updated_at = clock 1,
      br_forked_from_cursor = Some (show_int (sq_data_version (sv_host S) file)),
      br_description = description,
      br_metadata = JObject (obj_of_list [(''forked_from'', JString (uuid_str (sv_codec S) parent_id)),
        (''content_id'', JString (content_id m))]),
      br_metrics = snapshot_metrics (clock 1) m\<rparr>"

definition fork_register ::
    "('g, 'h) services \<Rightarrow> (nat \<Rightarrow> datetime) \<Rightarrow> 'g world \<Rightarrow> branch \<Rightarrow> uuid \<Rightarrow> ('g world \<times> branch branch_result) option" where
  "fork_register S clock w b parent_id =
     (case sv_insert S (clock 2) (wd_registry w) b of
        (R, Inl e) \<Rightarrow> Some (w\<lparr>wd_registry := R\<rparr>, Inl e)
      | (R, Inr _) \<Rightarrow>
     (case add_node (sv_graph S) (wd_dag w) parent_id of
        (g, Inl e) \<Rightarrow> Some (w\<lparr>wd_registry := R, wd_dag := g\<rparr>, Inl e)
      | (g, Inr _) \<Rightarrow>
     (case add_edge (sv_graph S) (clock 3) g parent_id (br_id b) of
        None \<Rightarrow> None
      | Some (g, Inl e) \<Rightarrow> Some (w\<lparr>wd_registry := R, wd_dag := g\<rparr>, Inl e)
      | Some (g, Inr _) \<Rightarrow> Some (w\<lparr>wd_registry := R, wd_dag := g\<rparr>, Inr b))))"

lemma printable_strings: "printable (JObject (obj_of_list [(k, JString a), (k', JString b)]))"
proof -
  have "printable v" if v: "(l, v) \<in> set (obj_of_list [(k, JString a), (k', JString b)])" for l v
    using v by (auto simp: obj_of_list_def split: if_splits)
  then show ?thesis by auto
qed

lemma fork_register_spec:
  assumes ok: "services_ok S" and w: "world_ok S w" and p: "printable (br_metadata b)"
    and b: "br_id b = u" "br_parent_id b = Some parent_id"
    and u: "sv_branches S w u = None" and g: "u \<notin> dag_nodes (sv_graph S) (wd_dag w)"
    and parent: "parent_id \<in> dag_nodes (sv_graph S) (wd_dag w)"
    and free: "\<forall>c. sv_branches S w (br_id c) = Some c \<and> br_workspace_id c = br_workspace_id b \<longrightarrow> br_slug c \<noteq> br_slug b"
  shows "\<exists>w'. fork_register S clock (w\<lparr>wd_disk := d\<rparr>) b parent_id = Some (w', Inr b) \<and> world_ok S w' \<and>
    wd_disk w' = d \<and> sv_branches S w' = (sv_branches S w)(u \<mapsto> b) \<and>
    dag_nodes (sv_graph S) (wd_dag w') = insert u (dag_nodes (sv_graph S) (wd_dag w)) \<and>
    dag_rel (sv_graph S) (wd_dag w') = insert (parent_id, u) (dag_rel (sv_graph S) (wd_dag w))"
proof -
  note env = services_okD [OF ok]
  note R = world_okD(1) [OF w]
  have "\<not> clashes (sv_codec S) (sv_text S) (wd_registry w) b"
  proof
    assume "clashes (sv_codec S) (sv_text S) (wd_registry w) b"
    then obtain i c where c: "sv_branches S w i = Some c"
      "br_id c = br_id b \<or> (br_workspace_id c = br_workspace_id b \<and> br_slug c = br_slug b)"
      unfolding clashes_def by blast
    then have "br_id c = i" using store_env.branches_of_id [OF env(1) R] by blast
    then show False using c u b(1) free by auto
  qed
  from store_env.insert_spec(2) [OF env(1) R p this, of "clock 2"] obtain R' where
    ins: "sv_insert S (clock 2) (wd_registry w) b = (R', Inr ())" "registry_ok (sv_codec S) (sv_text S) R'"
      "branches_of (sv_codec S) (sv_text S) R' = (sv_branches S w)(br_id b \<mapsto> b)" by blast
  obtain g1 r1 where add: "add_node (sv_graph S) (wd_dag w) parent_id = (g1, r1)" by force
  from fork_edge [OF env(3) world_okD(2) [OF w] g parent add] obtain i g2 where
    edge: "r1 = Inr i" "add_edge (sv_graph S) (clock 3) g1 parent_id u = Some (g2, Inr ())"
      "dag_wf (sv_graph S) g2" "dag_nodes (sv_graph S) g2 = insert u (dag_nodes (sv_graph S) (wd_dag w))"
      "dag_rel (sv_graph S) g2 = insert (parent_id, u) (dag_rel (sv_graph S) (wd_dag w))" by blast
  let ?w = "w\<lparr>wd_disk := d, wd_registry := R', wd_dag := g2\<rparr>"
  have "world_ok S ?w"
    by (rule world_ok_insert [OF ok w ins(2,3) edge(3)]) (use edge b in auto)
  moreover have "fork_register S clock (w\<lparr>wd_disk := d\<rparr>) b parent_id = Some (?w, Inr b)"
    using ins(1) add edge(1,2) b(1) by (simp add: fork_register_def)
  ultimately show ?thesis using ins(3) edge b(1) by (intro exI [of _ ?w]) simp
qed

lemma fork_run:
  assumes ok: "services_ok S" and w: "world_ok S w" and u: "sv_branches S w u = None"
    and g: "u \<notin> dag_nodes (sv_graph S) (wd_dag w)"
    and few: "length (rg_branches (wd_registry w)) < 2 ^ 32 - 2"
  shows "\<exists>w' r. fork S clock u w parent_id name description = Some (w', r) \<and> world_ok S w' \<and>
    (case r of
       Inl e \<Rightarrow> wd_registry w' = wd_registry w \<and> wd_dag w' = wd_dag w \<and>
         fork_refused S clock u w parent_id name e
     | Inr b \<Rightarrow> \<exists>parent. forked S u w parent_id name w' parent b \<and>
         store_count_active (sv_codec S) (wd_registry w) (br_workspace_id parent)
           < cf_max_branches_per_workspace (sv_config S) \<and>
         (\<exists>file m. read_file (wd_disk w) (br_db_path parent) = Some file \<and>
            create_snapshot (sv_codec S) (sv_host S) (sv_config S) (clock 0)
              (write_file (br_db_path parent) (sq_checkpoint (sv_host S) file) (wd_disk w))
              (br_db_path parent) u name = (wd_disk w', Inr m)))"
    (is "\<exists>w' r. ?F = Some (w', r) \<and> _ \<and> ?Q w' r")
proof -
  note env = services_okD [OF ok]
  note R = world_okD(1) [OF w]
  let ?C = "sv_codec S" and ?ws = "cf_workspace_id (sv_config S)"
  have stop: ?thesis if "?F = Some (w\<lparr>wd_disk := d\<rparr>, Inl e)" and "fork_refused S clock u w parent_id name e" for d e
    using that w by (intro exI [of _ "w\<lparr>wd_disk := d\<rparr>"] exI [of _ "Inl e"]) (simp add: world_ok_disk)
  have stop0: ?thesis if "?F = Some (w, Inl e)" and "fork_refused S clock u w parent_id name e" for e
    using that w by (intro exI [of _ w] exI [of _ "Inl e"]) simp
  show ?thesis
  proof (cases "validate name")
    case (Inl e)
    then show ?thesis by (intro stop0 [of e]) (simp_all add: fork_def fork_refused_def)
  next
    case valid: (Inr _)
    show ?thesis
    proof (cases "sv_get S (wd_registry w) ?ws parent_id")
      case (Inl e)
      then show ?thesis using valid by (intro stop0 [of e]) (simp_all add: fork_def fork_refused_def)
    next
      case get: (Inr parent)
      then have parent: "sv_branches S w parent_id = Some parent" "br_workspace_id parent = ?ws"
        unfolding store_env.get_eq [OF env(1) R] by (auto split: option.splits if_splits)
      show ?thesis
      proof (cases "is_live (br_status parent)")
        case False
        then show ?thesis using valid get
          by (intro stop0 [of "BranchNotActive (br_id parent) (kind (br_status parent))"]) (simp_all add: fork_def fork_refused_def)
      next
        case live: True
        let ?n = "store_count_active ?C (wd_registry w) (br_workspace_id parent)"
        show ?thesis
        proof (cases "?n \<ge> cf_max_branches_per_workspace (sv_config S)")
          case True
          then show ?thesis using valid get live by (intro stop0 [of BranchLimitExceeded]) (simp_all add: fork_def fork_refused_def)
        next
          case limit: False
          obtain bs where bs: "store_list ?C (sv_text S) (sv_order S) (wd_registry w) (br_workspace_id parent) None = Inr bs"
            "set bs = {b. sv_branches S w (br_id b) = Some b \<and> br_workspace_id b = br_workspace_id parent}"
            "distinct (map br_id bs)"
            using store_env.list_spec [OF env(1) R, of "br_workspace_id parent" None] by auto
          have len: "length (map br_slug bs) < 2 ^ 32 - 2"
            using store_env.list_length [OF env(1) bs(1)] few by simp
          obtain slug where slug: "make_unique (slugify (sv_unicode S) (map of_char name)) (map br_slug bs) = Some slug"
            "slug \<notin> set (map br_slug bs)"
            using make_unique_least [OF len] by blast
          show ?thesis
          proof (cases "read_file (wd_disk w) (br_db_path parent)")
            case None
            then show ?thesis using valid get live limit bs(1) slug
              by (intro stop0 [of unable_to_open]) (simp_all add: fork_def fork_refused_def)
          next
            case src: (Some f0)
            let ?f1 = "sq_checkpoint (sv_host S) f0"
            let ?d0 = "write_file (br_db_path parent) ?f1 (wd_disk w)"
            let ?snap = "create_snapshot ?C (sv_host S) (sv_config S) (clock 0) ?d0 (br_db_path parent) u name"
            note stages = fork_def valid get live limit bs(1) slug slug(2) [unfolded list.set_map] src Let_def
            show ?thesis
            proof (cases ?snap)
              case snap: (Pair d m0)
              show ?thesis
              proof (cases m0)
                case (Inl e)
                then show ?thesis using snap by (intro stop [of d e]) (simp_all add: stages fork_refused_def)
              next
                case (Inr m)
                let ?b = "fork_branch S clock u parent parent_id name description slug m ?f1"
                have eq: "?F = fork_register S clock (w\<lparr>wd_disk := d\<rparr>) ?b parent_id"
                  using snap Inr 
                  by (simp add: stages fork_register_def fork_branch_def cong del: prod.case_cong_weak sum.case_cong_weak option.case_cong_weak)
                have free: "\<forall>c. sv_branches S w (br_id c) = Some c \<and> br_workspace_id c = br_workspace_id ?b \<longrightarrow>
                    br_slug c \<noteq> br_slug ?b"
                  using slug(2) bs(2) by (auto simp: fork_branch_def)
                have "br_id ?b = u" "br_parent_id ?b = Some parent_id" "printable (br_metadata ?b)"
                  by (simp_all only: fork_branch_def branch.simps printable_strings)
                from fork_register_spec [OF ok w this(3) this(1,2) u g world_okD(3) [OF w parent(1)] free]
                obtain w' where w': "fork_register S clock (w\<lparr>wd_disk := d\<rparr>) ?b parent_id = Some (w', Inr ?b)"
                  "world_ok S w'" "wd_disk w' = d" "sv_branches S w' = (sv_branches S w)(u \<mapsto> ?b)"
                  "dag_nodes (sv_graph S) (wd_dag w') = insert u (dag_nodes (sv_graph S) (wd_dag w))"
                  "dag_rel (sv_graph S) (wd_dag w') = insert (parent_id, u) (dag_rel (sv_graph S) (wd_dag w))" by blast
                have "sm_snapshot_db_path m = snapshot_path_for ?C (sv_config S) u"
                  using create_snapshot_path snap Inr by blast
                then have "forked S u w parent_id name w' parent ?b"
                  using valid parent live w' free by (simp add: forked_def fork_branch_def)
                then show ?thesis using eq w' limit src snap Inr by fastforce
              qed
            qed
          qed
        qed
      qed
    qed
  qed
qed

end
