(* ===== verification/Transitions.thy ===== *)
theory Transitions
  imports Lifecycle
begin

text \<open>
  The lifecycle of \<open>src/branch/lifecycle.rs\<close> as a state machine: the table of the status changes, the
  single steps on the world, the worlds they reach, and what holds there.
\<close>

section \<open>The status machine\<close>

datatype action = Activate | Deactivate | Discard | Archive

text \<open>Which statuses an action accepts, and the one it leads to.\<close>

fun next_status :: "action \<Rightarrow> datetime \<Rightarrow> branch_status \<Rightarrow> branch_status option" where
  "next_status Activate now s = (if is_live s then Some Active else None)"
| "next_status Deactivate now s = (if s = Active then Some Dormant else None)"
| "next_status Discard now s = (if is_live s then Some (Discarded now) else None)"
| "next_status Archive now s = (if is_live s then Some Archived else None)"

fun perform ::
    "('g, 'h) services \<Rightarrow> (nat \<Rightarrow> datetime) \<Rightarrow> 'g world \<Rightarrow> uuid \<Rightarrow> action \<Rightarrow> 'g world \<times> unit branch_result" where
  "perform S clock w i Activate = activate S clock w i"
| "perform S clock w i Deactivate = deactivate S clock w i"
| "perform S clock w i Discard = discard S clock w i"
| "perform S clock w i Archive = archive S clock w i"

text \<open>A status change keeps the identifier and the parent of every branch.\<close>

lemma world_ok_status:
  assumes "world_ok S w" and "registry_ok (sv_codec S) (sv_text S) R"
    and "branches_of (sv_codec S) (sv_text S) R = (sv_branches S w)(i := map_option (\<lambda>b. b\<lparr>br_status := s, br_updated_at := t\<rparr>) (sv_branches S w i))"
  shows "world_ok S (w\<lparr>wd_registry := R\<rparr>)"
proof -
  have "j \<in> dag_nodes (sv_graph S) (wd_dag w) \<and>
      (\<forall>p. br_parent_id b = Some p \<longrightarrow> (p, j) \<in> dag_rel (sv_graph S) (wd_dag w))"
    if b: "branches_of (sv_codec S) (sv_text S) R j = Some b" for j b
  proof -
    obtain c where "sv_branches S w j = Some c" "br_parent_id c = br_parent_id b"
      using b unfolding assms(3) by (auto split: if_splits)
    then show ?thesis using world_okD(3,4) [OF assms(1)] by metis
  qed
  then show ?thesis using assms(2) world_okD(2) [OF assms(1)] by (simp add: world_ok_def)
qed

lemma set_status_spec:
  assumes ok: "services_ok S" and w: "world_ok S w" and b: "sv_branches S w i = Some b"
  shows "\<exists>w'. set_status S now w i s = (w', Inr ()) \<and> world_ok S w' \<and> wd_dag w' = wd_dag w \<and> wd_disk w' = wd_disk w \<and>
    sv_branches S w' = (sv_branches S w)(i \<mapsto> b\<lparr>br_status := s, br_updated_at := now\<rparr>)"
proof -
  obtain R r where u: "store_update_status (sv_codec S) now (wd_registry w) i s = (R, r)" by force
  note spec = store_env.status_spec [OF services_okD(1) [OF ok] world_okD(1) [OF w] u]
  then have "registry_ok (sv_codec S) (sv_text S) R" "r = Inr ()"
    "branches_of (sv_codec S) (sv_text S) R = (sv_branches S w)(i := map_option (\<lambda>b. b\<lparr>br_status := s, br_updated_at := now\<rparr>) (sv_branches S w i))"
    using b by simp_all
  with world_ok_status [OF w this(1,3)] u b show ?thesis
    by (intro exI [of _ "w\<lparr>wd_registry := R\<rparr>"]) (simp add: set_status_def)
qed

lemma sv_get_eq:
  assumes "services_ok S" and "world_ok S w"
  shows "sv_get S (wd_registry w) ws i =
    (case sv_branches S w i of
       Some b \<Rightarrow> if br_workspace_id b = ws then Inr b else Inl (BranchNotFound i)
     | None \<Rightarrow> Inl (BranchNotFound i))"
  by (rule store_env.get_eq [OF services_okD(1) [OF assms(1)] world_okD(1) [OF assms(2)]])

text \<open>What an action does on a branch of the workspace.\<close>

lemma perform_on:
  assumes ok: "services_ok S" and w: "world_ok S w"
    and b: "sv_branches S w i = Some b" "br_workspace_id b = cf_workspace_id (sv_config S)"
  shows "case next_status a (clock 0) (br_status b) of
      None \<Rightarrow> perform S clock w i a = (w, Inl (BranchNotActive i (kind (br_status b))))
    | Some s \<Rightarrow> \<exists>w' t. perform S clock w i a = (w', Inr ()) \<and> world_ok S w' \<and> wd_dag w' = wd_dag w \<and>
        wd_disk w' = wd_disk w \<and>
        sv_branches S w' = (sv_branches S w)(i \<mapsto> b\<lparr>br_status := s, br_updated_at := t\<rparr>)"
proof -
  have get: "sv_get S (wd_registry w) (cf_workspace_id (sv_config S)) i = Inr b"
    using b by (simp add: sv_get_eq [OF ok w])
  note move = set_status_spec [OF ok w b(1)]
  have same: "(sv_branches S w)(i \<mapsto> b\<lparr>br_status := br_status b, br_updated_at := br_updated_at b\<rparr>) = sv_branches S w"
    using b(1) by (auto simp: fun_eq_iff)
  show ?thesis
  proof (cases a)
    case Activate
    show ?thesis
    proof (cases "br_status b = Active")
      case True
      have "\<exists>t. sv_branches S w = (sv_branches S w)(i \<mapsto> b\<lparr>br_status := Active, br_updated_at := t\<rparr>)"
        by (rule exI [of _ "br_updated_at b"], rule same [unfolded True, symmetric])
      then show ?thesis using Activate True get w by (simp add: activate_def)
    next
      case False
      then show ?thesis using Activate get move [of "clock 0" Active]
        by (cases "br_status b") (auto simp: activate_def)
    qed
  next
    case Deactivate
    then show ?thesis using get move [of "clock 0" Dormant]
      by (cases "br_status b") (auto simp: deactivate_def)
  next
    case Discard
    then show ?thesis using get move [of "clock 1" "Discarded (clock 0)"]
      by (auto simp: discard_def)
  next
    case Archive
    then show ?thesis using get move [of "clock 0" Archived]
      by (auto simp: archive_def)
  qed
qed

lemma perform_missing:
  assumes ok: "services_ok S" and w: "world_ok S w"
    and "\<And>b. sv_branches S w i = Some b \<Longrightarrow> br_workspace_id b \<noteq> cf_workspace_id (sv_config S)"
  shows "perform S clock w i a = (w, Inl (BranchNotFound i))"
proof -
  have "sv_get S (wd_registry w) (cf_workspace_id (sv_config S)) i = Inl (BranchNotFound i)"
    using assms(3) by (auto simp: sv_get_eq [OF ok w] split: option.split)
  then show ?thesis
    by (cases a) (simp_all add: activate_def deactivate_def discard_def archive_def)
qed

section \<open>Restoring an archived branch\<close>

definition snapshot_check :: "('g, 'h) services \<Rightarrow> 'g world \<Rightarrow> branch \<Rightarrow> unit branch_result" where
  "snapshot_check S w b =
     res_bind (ok_or (SnapshotFailed (br_id b) ''snapshot path missing parent directory'')
        (path_parent (br_snapshot_path b))) (\<lambda>dir.
      res_bind (load_manifest (sv_host S) dir (wd_disk w)) (\<lambda>manifest.
        verify_snapshot (sv_host S) (wd_disk w) manifest))"

lemma restore_spec:
  assumes ok: "services_ok S" and w: "world_ok S w"
    and b: "sv_branches S w i = Some b" "br_workspace_id b = cf_workspace_id (sv_config S)"
  shows "if br_status b \<noteq> Archived
    then restore_archived S clock w i = (w, Inl (BranchNotActive i (kind (br_status b))))
    else case snapshot_check S w b of
        Inl e \<Rightarrow> restore_archived S clock w i = (w, Inl e)
      | Inr _ \<Rightarrow> \<exists>w'. restore_archived S clock w i = (w', Inr (b\<lparr>br_status := Active, br_updated_at := clock 0\<rparr>)) \<and>
          world_ok S w' \<and> wd_dag w' = wd_dag w \<and> wd_disk w' = wd_disk w \<and>
          sv_branches S w' = (sv_branches S w)(i \<mapsto> b\<lparr>br_status := Active, br_updated_at := clock 0\<rparr>)"
proof -
  have get: "sv_get S (wd_registry w) (cf_workspace_id (sv_config S)) i = Inr b"
    using b by (simp add: sv_get_eq [OF ok w])
  have id': "br_id b = i"
    by (rule store_env.branches_of_id [OF services_okD(1) [OF ok] world_okD(1) [OF w] b(1)])
  note run = restore_archived_def Let_def get sum.case snapshot_check_def id'
  show ?thesis
  proof (cases "br_status b = Archived")
    case arch: True
    show ?thesis
    proof (cases "snapshot_check S w b")
      case (Inl e)
      then show ?thesis using arch unfolding snapshot_check_def id' by (simp add: run)
    next
      case (Inr u)
      from set_status_spec [OF ok w b(1)] obtain w' where
        w': "set_status S (clock 0) w i Active = (w', Inr ())" "world_ok S w'" "wd_dag w' = wd_dag w" "wd_disk w' = wd_disk w"
        "sv_branches S w' = (sv_branches S w)(i \<mapsto> b\<lparr>br_status := Active, br_updated_at := clock 0\<rparr>)" by blast
      have "sv_get S (wd_registry w') (cf_workspace_id (sv_config S)) i = Inr (b\<lparr>br_status := Active, br_updated_at := clock 0\<rparr>)"
        using b(2) by (simp add: sv_get_eq [OF ok w'(2)] w'(5))
      then show ?thesis using Inr arch w' unfolding snapshot_check_def id' by (simp add: run)
    qed
  next
    case False
    then show ?thesis by (cases "br_status b") (simp_all add: run)
  qed
qed

lemma restore_missing:
  assumes ok: "services_ok S" and w: "world_ok S w"
    and "\<And>b. sv_branches S w i = Some b \<Longrightarrow> br_workspace_id b \<noteq> cf_workspace_id (sv_config S)"
  shows "restore_archived S clock w i = (w, Inl (BranchNotFound i))"
proof -
  have "sv_get S (wd_registry w) (cf_workspace_id (sv_config S)) i = Inl (BranchNotFound i)"
    using assms(3) by (auto simp: sv_get_eq [OF ok w] split: option.split)
  then show ?thesis by (simp add: restore_archived_def)
qed

section \<open>The trunk\<close>

lemma trunk_spec:
  assumes ok: "services_ok S" and w: "world_ok S w" and u: "sv_branches S w u = None"
    and g: "u \<notin> dag_nodes (sv_graph S) (wd_dag w)"
    and run: "create_trunk S clock u w ws source = (w', r)"
  shows "world_ok S w' \<and>
    (case r of
       Inl _ \<Rightarrow> wd_registry w' = wd_registry w \<and> wd_dag w' = wd_dag w
     | Inr b \<Rightarrow> br_id b = u \<and> br_parent_id b = None \<and> br_status b = Active \<and> br_workspace_id b = ws \<and>
         br_slug b = cf_trunk_branch_name (sv_config S) \<and>
         br_db_path b = snapshot_path_for (sv_codec S) (sv_config S) u \<and>
         sv_branches S w' = (sv_branches S w)(u \<mapsto> b) \<and>
         dag_nodes (sv_graph S) (wd_dag w') = insert u (dag_nodes (sv_graph S) (wd_dag w)) \<and>
         dag_rel (sv_graph S) (wd_dag w') = dag_rel (sv_graph S) (wd_dag w))"
proof -
  note env = services_okD [OF ok]
  note R = world_okD(1) [OF w]
  let ?cfg = "sv_config S"
  obtain d m0 where snap: "create_snapshot (sv_codec S) (sv_host S) ?cfg (clock 0) (wd_disk w) source u
      (cf_trunk_branch_name ?cfg) = (d, m0)" by force
  show ?thesis
  proof (cases m0)
    case (Inl e)
    then show ?thesis using run snap w by (auto simp: create_trunk_def Let_def world_ok_disk)
  next
    case (Inr m)
    let ?b = "\<lparr>br_id = u, br_name = cf_trunk_branch_name ?cfg, br_slug = cf_trunk_branch_name ?cfg,
        br_parent_id = None, br_status = Active, br_db_path = sm_snapshot_db_path m,
        br_snapshot_path = sm_snapshot_db_path m, br_workspace_id = ws,
        br_created_at = clock 1, br_updated_at = clock 1, br_forked_from_cursor = None,
        br_description = Some ''Primary trunk branch'',
        br_metadata = JObject (obj_of_list [(''role'', JString ''trunk''), (''content_id'', JString (content_id m))]),
        br_metrics = snapshot_metrics (clock 1) m\<rparr>"
    note run' = run [unfolded create_trunk_def Let_def snap Inr prod.case sum.case]
    have p: "printable (br_metadata ?b)" by (simp only: branch.simps printable_strings)
    note ins = store_env.insert_spec [OF env(1) R p, of "clock 2"]
    show ?thesis
    proof (cases "clashes (sv_codec S) (sv_text S) (wd_registry w) ?b")
      case True
      note full = run' [unfolded ins(1) [OF True] prod.case sum.case]
      have "r = Inl (BranchAlreadyExists (cf_trunk_branch_name ?cfg))" "wd_registry w' = wd_registry w"
        "wd_dag w' = wd_dag w"
        using full by auto
      then show ?thesis using w by (simp add: world_ok_def)
    next
      case False
      from ins(2) [OF False] obtain R' where ins': "sv_insert S (clock 2) (wd_registry w) ?b = (R', Inr ())"
        "registry_ok (sv_codec S) (sv_text S) R'" "branches_of (sv_codec S) (sv_text S) R' = (sv_branches S w)(u \<mapsto> ?b)"
        by auto
      obtain d1 j where e: "ensure_or_insert (sv_graph S) (wd_dag w) u = (d1, j)" by force
      note s = digraph.ensure_spec [OF env(3) world_okD(2) [OF w] e]
      have add: "add_node (sv_graph S) (wd_dag w) u = (d1, Inr j)"
        by (simp add: digraph.add_node_eq [OF env(3)] e)
      note full = run' [unfolded ins'(1) add prod.case sum.case]
      have r: "r = Inr ?b" "w' = w\<lparr>wd_disk := d, wd_registry := R', wd_dag := d1\<rparr>"
        using full by simp_all
      have "world_ok S w'" unfolding r(2)
        by (rule world_ok_insert [OF ok w ins'(2), of ?b]) (use ins'(3) s in simp_all)
      then show ?thesis using r ins'(3) s(4,5) create_snapshot_path snap Inr by simp
    qed
  qed
qed

section \<open>Steps\<close>

text \<open>An identifier of a new branch, and room for the suffix search of a fork.\<close>

definition fresh :: "('g, 'h) services \<Rightarrow> 'g world \<Rightarrow> uuid \<Rightarrow> bool" where
  "fresh S w u \<longleftrightarrow> sv_branches S w u = None \<and> u \<notin> dag_nodes (sv_graph S) (wd_dag w)"

definition few_branches :: "'g world \<Rightarrow> bool" where
  "few_branches w \<longleftrightarrow> length (rg_branches (wd_registry w)) < 2 ^ 32 - 2"

inductive lifecycle_step :: "('g, 'h) services \<Rightarrow> 'g world \<Rightarrow> 'g world \<Rightarrow> bool" for S where
  trunk: "fresh S w u \<Longrightarrow> create_trunk S clock u w ws source = (w', r) \<Longrightarrow> lifecycle_step S w w'"
| forks: "fresh S w u \<Longrightarrow> few_branches w \<Longrightarrow> fork S clock u w parent name description = Some (w', r) \<Longrightarrow>
    lifecycle_step S w w'"
| acts: "perform S clock w i a = (w', r) \<Longrightarrow> lifecycle_step S w w'"
| restores: "restore_archived S clock w i = (w', r') \<Longrightarrow> lifecycle_step S w w'"

text \<open>What a step does to the registered branches and to the lineage.\<close>

definition branch_added where
  "branch_added S w w' \<longleftrightarrow> (\<exists>u b. fresh S w u \<and> br_id b = u \<and> br_status b = Active \<and>
     br_db_path b = snapshot_path_for (sv_codec S) (sv_config S) u \<and>
     sv_branches S w' = (sv_branches S w)(u \<mapsto> b) \<and>
     dag_nodes (sv_graph S) (wd_dag w') = insert u (dag_nodes (sv_graph S) (wd_dag w)) \<and>
     (case br_parent_id b of
        None \<Rightarrow> dag_rel (sv_graph S) (wd_dag w') = dag_rel (sv_graph S) (wd_dag w)
      | Some p \<Rightarrow> sv_branches S w p \<noteq> None \<and>
          dag_rel (sv_graph S) (wd_dag w') = insert (p, u) (dag_rel (sv_graph S) (wd_dag w))))"

definition status_moved where
  "status_moved S w w' \<longleftrightarrow> wd_dag w' = wd_dag w \<and>
     (\<exists>i b s t. sv_branches S w i = Some b \<and>
        sv_branches S w' = (sv_branches S w)(i \<mapsto> b\<lparr>br_status := s, br_updated_at := t\<rparr>) \<and>
        ((\<exists>a now. next_status a now (br_status b) = Some s) \<or> br_status b = Archived \<and> s = Active))"

definition unmoved where
  "unmoved S w w' \<longleftrightarrow> sv_branches S w' = sv_branches S w \<and> wd_dag w' = wd_dag w"

lemma perform_step:
  assumes ok: "services_ok S" and w: "world_ok S w" and run: "perform S clock w i a = (w', r)"
  shows "world_ok S w' \<and> (unmoved S w w' \<or> status_moved S w w')"
proof (cases "\<exists>b. sv_branches S w i = Some b \<and> br_workspace_id b = cf_workspace_id (sv_config S)")
  case True
  then obtain b where b: "sv_branches S w i = Some b" "br_workspace_id b = cf_workspace_id (sv_config S)" by blast
  note spec = perform_on [OF ok w b, where a = a and clock = clock]
  show ?thesis
  proof (cases "next_status a (clock 0) (br_status b)")
    case None
    then show ?thesis using spec run w by (auto simp: unmoved_def)
  next
    case (Some s)
    then obtain t where "world_ok S w'" "wd_dag w' = wd_dag w"
      "sv_branches S w' = (sv_branches S w)(i \<mapsto> b\<lparr>br_status := s, br_updated_at := t\<rparr>)"
      using spec run by auto
    then show ?thesis using b Some unfolding status_moved_def by blast
  qed
next
  case False
  then have "w' = w" using perform_missing [OF ok w, where i = i and clock = clock and a = a] run by auto
  then show ?thesis using w by (simp add: unmoved_def)
qed

lemma restore_step:
  assumes ok: "services_ok S" and w: "world_ok S w" and run: "restore_archived S clock w i = (w', r)"
  shows "world_ok S w' \<and> (unmoved S w w' \<or> status_moved S w w')"
proof (cases "\<exists>b. sv_branches S w i = Some b \<and> br_workspace_id b = cf_workspace_id (sv_config S)")
  case True
  then obtain b where b: "sv_branches S w i = Some b" "br_workspace_id b = cf_workspace_id (sv_config S)" by blast
  note spec = restore_spec [OF ok w b, of clock]
  show ?thesis
  proof (cases "br_status b = Archived \<and> snapshot_check S w b = Inr ()")
    case True
    then have "world_ok S w'" "wd_dag w' = wd_dag w"
      "sv_branches S w' = (sv_branches S w)(i \<mapsto> b\<lparr>br_status := Active, br_updated_at := clock 0\<rparr>)"
      using spec run by auto
    then show ?thesis using b True unfolding status_moved_def by blast
  next
    case False
    then have "w' = w" using spec run by (auto split: if_splits sum.splits)
    then show ?thesis using w by (simp add: unmoved_def)
  qed
next
  case False
  then have "w' = w" using restore_missing [OF ok w, where i = i and clock = clock] run by auto
  then show ?thesis using w by (simp add: unmoved_def)
qed

lemma trunk_step:
  assumes "services_ok S" and "world_ok S w" and "fresh S w u"
    and "create_trunk S clock u w ws source = (w', r)"
  shows "world_ok S w' \<and> (unmoved S w w' \<or> branch_added S w w')"
proof -
  have f: "sv_branches S w u = None" "u \<notin> dag_nodes (sv_graph S) (wd_dag w)" using assms(3) by (simp_all add: fresh_def)
  note spec = trunk_spec [OF assms(1,2) f assms(4)]
  show ?thesis
  proof (cases r)
    case (Inl e)
    then show ?thesis using spec by (simp add: unmoved_def)
  next
    case (Inr b)
    then show ?thesis using spec assms(3) unfolding branch_added_def
      by (intro conjI disjI2 exI [of _ u] exI [of _ b]) simp_all
  qed
qed

lemma fork_step:
  assumes "services_ok S" and "world_ok S w" and "fresh S w u" and "few_branches w"
    and "fork S clock u w parent name description = Some (w', r)"
  shows "world_ok S w' \<and> (unmoved S w w' \<or> branch_added S w w')"
proof -
  have f: "sv_branches S w u = None" "u \<notin> dag_nodes (sv_graph S) (wd_dag w)" using assms(3) by (simp_all add: fresh_def)
  note spec = fork_run [OF assms(1,2) f assms(4) [unfolded few_branches_def], of clock parent name description,
      unfolded assms(5)]
  show ?thesis
  proof (cases r)
    case (Inl e)
    then show ?thesis using spec by (simp add: unmoved_def)
  next
    case (Inr b)
    with spec obtain pb where "forked S u w parent name w' pb b" "world_ok S w'" by auto
    then show ?thesis using assms(3) unfolding branch_added_def forked_def
      by (intro conjI disjI2 exI [of _ u] exI [of _ b]) simp_all
  qed
qed

lemma step_effect:
  assumes "services_ok S" and "world_ok S w" and "lifecycle_step S w w'"
  shows "world_ok S w' \<and> (unmoved S w w' \<or> status_moved S w w' \<or> branch_added S w w')"
  using assms(3)
proof (cases rule: lifecycle_step.cases)
  case (trunk u clock ws source r)
  then show ?thesis using trunk_step [OF assms(1,2)] by blast
next
  case (forks u clock parent name description r)
  then show ?thesis using fork_step [OF assms(1,2)] by blast
next
  case (acts clock i a r)
  then show ?thesis using perform_step [OF assms(1,2)] by blast
next
  case (restores clock i r)
  then show ?thesis using restore_step [OF assms(1,2)] by blast
qed

section \<open>Reachable worlds\<close>

definition empty_world :: "('g, 'h) services \<Rightarrow> disk \<Rightarrow> 'g world" where
  "empty_world S d = \<lparr>wd_registry = empty_registry, wd_dag = dag_new (sv_graph S), wd_disk = d\<rparr>"

definition lineage :: "('g, 'h) services \<Rightarrow> 'g world \<Rightarrow> bool" where
  "lineage S w \<longleftrightarrow> world_ok S w \<and>
     dag_nodes (sv_graph S) (wd_dag w) = {i. sv_branches S w i \<noteq> None} \<and>
     dag_rel (sv_graph S) (wd_dag w) = {(p, i). \<exists>b. sv_branches S w i = Some b \<and> br_parent_id b = Some p}"

lemma empty_lineage:
  assumes ok: "services_ok S"
  shows "lineage S (empty_world S d)"
  using digraph.new_wf [OF services_okD(3) [OF ok]] digraph.new_empty [OF services_okD(3) [OF ok]]
  by (simp add: lineage_def world_ok_def empty_world_def empty_registry_ok empty_registry_branches)

lemma lineage_unmoved: "lineage S w \<Longrightarrow> unmoved S w w' \<Longrightarrow> world_ok S w' \<Longrightarrow> lineage S w'"
  by (simp add: lineage_def unmoved_def)

lemma lineage_moved:
  assumes "lineage S w" and "status_moved S w w'" and "world_ok S w'"
  shows "lineage S w'"
proof -
  obtain i b s t where b: "sv_branches S w i = Some b"
    "sv_branches S w' = (sv_branches S w)(i \<mapsto> b\<lparr>br_status := s, br_updated_at := t\<rparr>)" "wd_dag w' = wd_dag w"
    using assms(2) unfolding status_moved_def by blast
  have "sv_branches S w' j = None \<longleftrightarrow> sv_branches S w j = None" for j using b(1,2) by simp
  moreover have "(\<exists>c. sv_branches S w' j = Some c \<and> br_parent_id c = Some p) \<longleftrightarrow>
      (\<exists>c. sv_branches S w j = Some c \<and> br_parent_id c = Some p)" for j p using b(1,2) by simp
  ultimately show ?thesis using assms(1,3) b(3) by (simp add: lineage_def)
qed

lemma lineage_added:
  assumes "lineage S w" and "branch_added S w w'" and "world_ok S w'"
  shows "lineage S w'"
proof -
  obtain u b where b: "sv_branches S w u = None" "sv_branches S w' = (sv_branches S w)(u \<mapsto> b)"
    "dag_nodes (sv_graph S) (wd_dag w') = insert u (dag_nodes (sv_graph S) (wd_dag w))"
    "case br_parent_id b of
        None \<Rightarrow> dag_rel (sv_graph S) (wd_dag w') = dag_rel (sv_graph S) (wd_dag w)
      | Some p \<Rightarrow> sv_branches S w p \<noteq> None \<and>
          dag_rel (sv_graph S) (wd_dag w') = insert (p, u) (dag_rel (sv_graph S) (wd_dag w))"
    using assms(2) unfolding branch_added_def fresh_def by blast
  have "dag_nodes (sv_graph S) (wd_dag w') = {i. sv_branches S w' i \<noteq> None}"
    using assms(1) b(2,3) by (auto simp: lineage_def)
  moreover have "dag_rel (sv_graph S) (wd_dag w') =
      {(p, i). \<exists>c. sv_branches S w' i = Some c \<and> br_parent_id c = Some p}"
  proof (cases "br_parent_id b")
    case None
    then show ?thesis using assms(1) b(1,2,4) by (auto simp: lineage_def)
  next
    case (Some p)
    then show ?thesis using assms(1) b(1,2,4) by (auto simp: lineage_def)
  qed
  ultimately show ?thesis using assms(3) by (simp add: lineage_def)
qed

lemma reachable_lineage:
  assumes ok: "services_ok S" and "(lifecycle_step S)\<^sup>*\<^sup>* (empty_world S d) w"
  shows "lineage S w"
  using assms(2)
proof (induction rule: rtranclp_induct)
  case base
  show ?case by (rule empty_lineage [OF ok])
next
  case (step w w')
  then have "world_ok S w" by (simp add: lineage_def)
  from step_effect [OF ok this step.hyps(2)] step.IH
  show ?case using lineage_unmoved lineage_moved lineage_added by blast
qed

section \<open>A concrete world\<close>

text \<open>A workspace with the trunk of \<open>Registry\<close> and its database, over the concrete services.\<close>

definition ascii_unicode :: unicode where
  "ascii_unicode = \<lparr>to_lowercase = (\<lambda>c. [if 65 \<le> c \<and> c \<le> 90 then c + 32 else c]),
     is_whitespace = (\<lambda>c. c = 32 \<or> 9 \<le> c \<and> c \<le> 13)\<rparr>"

definition sample_services :: "(list_graph, string) services" where
  "sample_services = \<lparr>sv_codec = decimal_codec, sv_text = compact_codec, sv_order = table_order,
     sv_host = sample_host, sv_graph = list_pg, sv_unicode = ascii_unicode,
     sv_config = default_for_workspace decimal_codec 0 []\<rparr>"

lemma sample_services_sel [simp]:
  "sv_codec sample_services = decimal_codec" "sv_text sample_services = compact_codec"
  "sv_order sample_services = table_order" "sv_host sample_services = sample_host"
  "sv_graph sample_services = list_pg" "cf_workspace_id (sv_config sample_services) = 0"
  by (simp_all add: sample_services_def default_for_workspace_def Let_def)

lemma sample_services_ok: "services_ok sample_services"
  by (simp add: services_ok_def sample.store_env_axioms sample_host.host_laws_axioms lists.digraph_axioms)

text \<open>A world with a single registered root branch.\<close>

definition world_of :: "branch \<Rightarrow> disk \<Rightarrow> list_graph world" where
  "world_of b d = \<lparr>wd_registry = fst (store_insert decimal_codec compact_codec 0 empty_registry b),
     wd_dag = fst (add_node list_pg (dag_new list_pg) (br_id b)), wd_disk = d\<rparr>"

lemma world_of_spec:
  assumes p: "printable (br_metadata b)" and "br_parent_id b = None"
  shows "world_ok sample_services (world_of b d)" "sv_branches sample_services (world_of b d) = [br_id b \<mapsto> b]"
    "dag_nodes list_pg (wd_dag (world_of b d)) = {br_id b}"
proof -
  have "\<not> clashes decimal_codec compact_codec empty_registry b"
    by (simp add: clashes_def empty_registry_branches)
  moreover have e: "branches_of decimal_codec compact_codec empty_registry = Map.empty"
    by (rule ext) (rule empty_registry_branches)
  ultimately obtain R where
    R: "store_insert decimal_codec compact_codec 0 empty_registry b = (R, Inr ())"
      "registry_ok decimal_codec compact_codec R"
      "branches_of decimal_codec compact_codec R = [br_id b \<mapsto> b]"
    using sample.insert_spec(2) [OF empty_registry_ok p, of 0] by auto
  obtain g j where e: "ensure_or_insert list_pg (dag_new list_pg) (br_id b) = (g, j)" by force
  note s = lists.ensure_spec [OF lists.new_wf e]
  have g: "fst (add_node list_pg (dag_new list_pg) (br_id b)) = g"
    by (simp add: lists.add_node_eq e)
  show "dag_nodes list_pg (wd_dag (world_of b d)) = {br_id b}"
    using s(4) by (simp add: world_of_def g lists.new_empty)
  show "sv_branches sample_services (world_of b d) = [br_id b \<mapsto> b]"
    by (simp add: world_of_def R(1,3))
  then show "world_ok sample_services (world_of b d)"
    using assms(2) s(1,4) R by (simp add: world_ok_def world_of_def g)
qed

definition trunk_world :: "list_graph world" where
  "trunk_world = world_of trunk_example [([''trunk''], ''ab'')]"

lemma trunk_world_spec:
  "world_ok sample_services trunk_world" "sv_branches sample_services trunk_world = [7 \<mapsto> trunk_example]"
  "dag_nodes list_pg (wd_dag trunk_world) = {7}"
  using world_of_spec [of trunk_example] by (simp_all add: trunk_world_def trunk_example_def branch_at_def blank_branch_def)

text \<open>An archived branch whose database was written to after the fork.\<close>

definition written_manifest :: snapshot_manifest where
  "written_manifest = snapshot_manifest_of decimal_codec sample_host sample_config 0 [''trunk''] 8 ''b'' ''ab''
     \<lparr>ec_memory_records = 2, ec_sessions = 0, ec_tool_outputs = 0\<rparr>
     \<lparr>sm_snapshot_db_path := [''b'', ''branch.db'']\<rparr>"

definition archived_example :: branch where
  "archived_example = blank_branch\<lparr>br_id := 8, br_status := Archived, br_snapshot_path := [''b'', ''branch.db''],
     br_db_path := [''b'', ''branch.db'']\<rparr>"

definition archived_world :: "string \<Rightarrow> list_graph world" where
  "archived_world content = world_of archived_example
     [([''b'', ''branch.db''], content), ([''b'', ''branch.hash''], hex_string (hash_bytes sample_host ''ab'')),
      ([''b'', ''manifest.json''], mf_str sample_host written_manifest)]"

lemma archived_example_sel [simp]:
  "br_id archived_example = 8" "br_status archived_example = Archived" "br_workspace_id archived_example = 0"
  "br_snapshot_path archived_example = [''b'', ''branch.db'']"
  by (simp_all add: archived_example_def blank_branch_def)

lemma archived_world_spec:
  "world_ok sample_services (archived_world s)"
  "sv_branches sample_services (archived_world s) = [8 \<mapsto> archived_example]"
  "load_manifest sample_host [''b''] (wd_disk (archived_world s)) = Inr written_manifest"
  "read_file (wd_disk (archived_world s)) [''b'', ''branch.db''] = Some s"
  "read_sidecar_hash sample_host [''b'', ''branch.hash''] (wd_disk (archived_world s)) = Some (hash_bytes sample_host ''ab'')"
proof -
  let ?d = "[([''b'', ''branch.db''], s), ([''b'', ''branch.hash''], hex_string (hash_bytes sample_host ''ab'')),
      ([''b'', ''manifest.json''], mf_str sample_host written_manifest)]"
  have w: "archived_world s = world_of archived_example ?d" by (simp add: archived_world_def)
  have p: "printable (br_metadata archived_example)" "br_parent_id archived_example = None"
    by (simp_all add: archived_example_def blank_branch_def)
  show "world_ok sample_services (archived_world s)"
    "sv_branches sample_services (archived_world s) = [8 \<mapsto> archived_example]"
    unfolding w using world_of_spec(1,2) [OF p] by simp_all
  have d: "wd_disk (archived_world s) = ?d" unfolding w by (simp add: world_of_def)
  show "load_manifest sample_host [''b''] (wd_disk (archived_world s)) = Inr written_manifest"
    unfolding d by (simp add: load_manifest_def read_file_def path_join_def res_simps sample_host_def manifest_text_roundtrip)
  show "read_file (wd_disk (archived_world s)) [''b'', ''branch.db''] = Some s"
    unfolding d by (simp add: read_file_def)
  show "read_sidecar_hash sample_host [''b'', ''branch.hash''] (wd_disk (archived_world s)) =
      Some (hash_bytes sample_host ''ab'')"
    unfolding d by (rule sample_host.sidecar_read) (simp_all add: read_file_def)
qed

section \<open>Properties\<close>

text \<open>The content of the disk after a fork.\<close>

lemma fork_disk:
  assumes ok: "services_ok S" and path: "\<not> in_dir (snapshot_dir_for C cfg u) source"
    and "read_file d source = Some f"
    and run: "create_snapshot C (sv_host S) cfg now (write_file source (sq_checkpoint (sv_host S) f) d) source u name = (d', Inr m)"
  shows "\<exists>g. read_file d' (snapshot_path_for C cfg u) = Some g \<and> read_file d' source = Some g \<and>
    sq_db (sv_host S) g = sq_db (sv_host S) f \<and>
    (\<forall>p. p \<noteq> source \<longrightarrow> \<not> in_dir (snapshot_dir_for C cfg u) p \<longrightarrow> read_file d' p = read_file d p)"
proof -
  let ?H = "sv_host S"
  let ?d = "write_file source (sq_checkpoint ?H f) d"
  have r: "read_file ?d source = Some (sq_checkpoint ?H f)" by simp
  from create_snapshot_inv [OF run path] obtain counts where
    c: "sq_integrity ?H (sq_checkpoint ?H (sq_checkpoint ?H f)) = ''ok''"
      "from_pool (sq_db ?H (sq_checkpoint ?H (sq_checkpoint ?H f))) = Inr counts"
    unfolding r by auto
  from create_snapshot_run [OF r path c, of now name] obtain d2 where
    d2: "create_snapshot C ?H cfg now ?d source u name =
        (d2, Inr (snapshot_manifest_of C ?H cfg now source u name (sq_checkpoint ?H (sq_checkpoint ?H f)) counts))"
      "read_file d2 source = Some (sq_checkpoint ?H (sq_checkpoint ?H f))"
      "read_file d2 (snapshot_path_for C cfg u) = Some (sq_checkpoint ?H (sq_checkpoint ?H f))"
      "\<forall>p. p \<noteq> source \<longrightarrow> \<not> in_dir (snapshot_dir_for C cfg u) p \<longrightarrow> read_file d2 p = read_file ?d p"
    by metis
  moreover have "d2 = d'" using d2(1) run by simp
  ultimately show ?thesis
    using host_laws.checkpoint_db [OF services_okD(2) [OF ok]] by simp
qed

text \<open>
  C2: a fork returns and keeps the registry and the lineage in order. When it fails, registry and DAG
  are untouched and the error is that of the first check that fails. When it succeeds, the parent was a
  live branch of the workspace below the limit, the new branch is registered with an unused slug and
  one new edge from its parent, its database has the content of the parent's, and no file outside its
  directory changes but for the checkpoint of the parent.
\<close>

theorem fork_correct:
  assumes "services_ok S" and "world_ok S w" and "fresh S w u" and "few_branches w"
    and "\<forall>i c. sv_branches S w i = Some c \<longrightarrow> \<not> in_dir (snapshot_dir_for (sv_codec S) (sv_config S) u) (br_db_path c)"
  shows "\<exists>w' r. fork S clock u w parent_id name description = Some (w', r) \<and> world_ok S w' \<and>
    (case r of
       Inl e \<Rightarrow> wd_registry w' = wd_registry w \<and> wd_dag w' = wd_dag w \<and> fork_refused S clock u w parent_id name e
     | Inr b \<Rightarrow> \<exists>parent f g. forked S u w parent_id name w' parent b \<and>
         store_count_active (sv_codec S) (wd_registry w) (br_workspace_id parent)
           < cf_max_branches_per_workspace (sv_config S) \<and>
         read_file (wd_disk w) (br_db_path parent) = Some f \<and>
         read_file (wd_disk w') (br_db_path b) = Some g \<and> read_file (wd_disk w') (br_db_path parent) = Some g \<and>
         sq_db (sv_host S) g = sq_db (sv_host S) f \<and>
         (\<forall>p. p \<noteq> br_db_path parent \<longrightarrow> \<not> in_dir (snapshot_dir_for (sv_codec S) (sv_config S) u) p \<longrightarrow>
            read_file (wd_disk w') p = read_file (wd_disk w) p))"
proof -
  have f: "sv_branches S w u = None" "u \<notin> dag_nodes (sv_graph S) (wd_dag w)" using assms(3) by (simp_all add: fresh_def)
  obtain w' r where run: "fork S clock u w parent_id name description = Some (w', r)" and w': "world_ok S w'"
    and effect: "case r of
       Inl e \<Rightarrow> wd_registry w' = wd_registry w \<and> wd_dag w' = wd_dag w \<and> fork_refused S clock u w parent_id name e
     | Inr b \<Rightarrow> \<exists>parent. forked S u w parent_id name w' parent b \<and>
         store_count_active (sv_codec S) (wd_registry w) (br_workspace_id parent)
           < cf_max_branches_per_workspace (sv_config S) \<and>
         (\<exists>f m. read_file (wd_disk w) (br_db_path parent) = Some f \<and>
            create_snapshot (sv_codec S) (sv_host S) (sv_config S) (clock 0)
              (write_file (br_db_path parent) (sq_checkpoint (sv_host S) f) (wd_disk w))
              (br_db_path parent) u name = (wd_disk w', Inr m))"
    using fork_run [OF assms(1,2) f assms(4) [unfolded few_branches_def], of clock parent_id name description] by blast
  show ?thesis
  proof (cases r)
    case (Inl e)
    then show ?thesis using run w' effect by (intro exI [of _ w'] exI [of _ r]) simp
  next
    case (Inr b)
    obtain parent f m where p: "forked S u w parent_id name w' parent b"
      "store_count_active (sv_codec S) (wd_registry w) (br_workspace_id parent) < cf_max_branches_per_workspace (sv_config S)"
      "read_file (wd_disk w) (br_db_path parent) = Some f"
      "create_snapshot (sv_codec S) (sv_host S) (sv_config S) (clock 0)
        (write_file (br_db_path parent) (sq_checkpoint (sv_host S) f) (wd_disk w)) (br_db_path parent) u name = (wd_disk w', Inr m)"
      using effect unfolding Inr sum.case by blast
    have s: "sv_branches S w parent_id = Some parent" "br_db_path b = snapshot_path_for (sv_codec S) (sv_config S) u"
      using p(1) by (simp_all add: forked_def)
    obtain g where g: "read_file (wd_disk w') (br_db_path b) = Some g" "read_file (wd_disk w') (br_db_path parent) = Some g"
      "sq_db (sv_host S) g = sq_db (sv_host S) f"
      "\<forall>q. q \<noteq> br_db_path parent \<longrightarrow> \<not> in_dir (snapshot_dir_for (sv_codec S) (sv_config S) u) q \<longrightarrow>
        read_file (wd_disk w') q = read_file (wd_disk w) q"
      using fork_disk [OF assms(1) assms(5) [rule_format, OF s(1)] p(3,4)] unfolding s(2) by blast
    show ?thesis
      unfolding run by (rule exI [of _ w'], rule exI [of _ r], unfold Inr sum.case)
        (intro conjI exI [of _ parent] exI [of _ f] exI [of _ g] refl w' p g)
  qed
qed

text \<open>The fork of the concrete trunk passes every check.\<close>

lemma trunk_fork_accepted: "\<not> fork_refused sample_services clock 9 trunk_world 7 ''idea'' e"
proof -
  let ?S = sample_services and ?w = trunk_world
  have v: "validate ''idea'' = Inr ()" by code_simp
  have get: "sv_get ?S (wd_registry ?w) (cf_workspace_id (sv_config ?S)) 7 = Inr trunk_example"
    by (simp only: sv_get_eq [OF sample_services_ok trunk_world_spec(1)] trunk_world_spec(2)) simp
  have count: "store_count_active (sv_codec ?S) (wd_registry ?w) 0 = 1"
    using sample.count_spec(2) [OF world_okD(1) [OF trunk_world_spec(1), simplified], of 0]
    by (simp add: trunk_world_spec [simplified])
  have limit: "cf_max_branches_per_workspace (sv_config ?S) = 50"
    by (simp add: sample_services_def default_for_workspace_def Let_def)
  have f: "read_file (wd_disk ?w) (br_db_path trunk_example) = Some ''ab''"
    by (simp add: trunk_world_def world_of_def trunk_example_def read_file_def)
  let ?d = "write_file (br_db_path trunk_example) (sq_checkpoint (sv_host ?S) ''ab'') (wd_disk ?w)"
  have r: "read_file ?d (br_db_path trunk_example) = Some (sq_checkpoint (sv_host ?S) ''ab'')" by simp
  have p: "\<not> in_dir (snapshot_dir_for (sv_codec ?S) (sv_config ?S) 9) (br_db_path trunk_example)"
    by (simp add: trunk_example_def in_dir_def snapshot_dir_for_def path_join_def)
  have i: "sq_integrity (sv_host ?S) (sq_checkpoint (sv_host ?S) (sq_checkpoint (sv_host ?S) ''ab'')) = ''ok''"
    by (simp add: sample_host_def)
  have c: "from_pool (sq_db (sv_host ?S) (sq_checkpoint (sv_host ?S) (sq_checkpoint (sv_host ?S) ''ab''))) =
      Inr \<lparr>ec_memory_records = 2, ec_sessions = 0, ec_tool_outputs = 0\<rparr>"
    by (simp add: from_pool_def count_table_def sample_host_def table_of_def)
  obtain d' where "create_snapshot (sv_codec ?S) (sv_host ?S) (sv_config ?S) (clock 0) ?d (br_db_path trunk_example) 9 ''idea'' =
      (d', Inr (snapshot_manifest_of (sv_codec ?S) (sv_host ?S) (sv_config ?S) (clock 0) (br_db_path trunk_example) 9 ''idea''
        (sq_checkpoint (sv_host ?S) (sq_checkpoint (sv_host ?S) ''ab''))
        \<lparr>ec_memory_records = 2, ec_sessions = 0, ec_tool_outputs = 0\<rparr>))"
    using create_snapshot_run [OF r p i c] by metis
  then show ?thesis unfolding fork_refused_def v get f sum.inject option.case
    by (simp add: count [simplified] limit f [simplified] word_le_nat_alt)
qed

theorem fork_correct_witness:
  "\<exists>w' b. fork sample_services (\<lambda>_. 0) 9 trunk_world 7 ''idea'' None = Some (w', Inr b) \<and> world_ok sample_services w' \<and>
     sv_branches sample_services w' = [7 \<mapsto> trunk_example, 9 \<mapsto> b] \<and> br_parent_id b = Some 7"
proof -
  have f: "fresh sample_services trunk_world 9" by (simp add: fresh_def trunk_world_spec [simplified])
  have few: "few_branches trunk_world"
    by (simp add: few_branches_def trunk_world_def world_of_def store_insert_def exec_insert_branch_def
        store_update_metrics_def empty_registry_def Let_def split: prod.split sum.split)
  have d: "\<forall>i c. sv_branches sample_services trunk_world i = Some c \<longrightarrow>
      \<not> in_dir (snapshot_dir_for (sv_codec sample_services) (sv_config sample_services) 9) (br_db_path c)"
    by (auto simp: trunk_world_spec [simplified] trunk_example_def branch_at_def in_dir_def snapshot_dir_for_def
        path_join_def split: if_splits)
  note fork_it = fork_correct [OF sample_services_ok trunk_world_spec(1) f few d, of "\<lambda>_. 0" 7 "''idea''" None]
  then obtain w' r where run: "fork sample_services (\<lambda>_. 0) 9 trunk_world 7 ''idea'' None = Some (w', r)"
    "world_ok sample_services w'" and effect: "case r of
       Inl e \<Rightarrow> fork_refused sample_services (\<lambda>_. 0) 9 trunk_world 7 ''idea'' e
     | Inr b \<Rightarrow> \<exists>parent. forked sample_services 9 trunk_world 7 ''idea'' w' parent b"
    by (elim exE conjE) (rule that, assumption+, auto split: sum.splits)
  then obtain b parent where b: "r = Inr b" "forked sample_services 9 trunk_world 7 ''idea'' w' parent b"
    using trunk_fork_accepted by (cases r) auto
  then show ?thesis using run unfolding forked_def trunk_world_spec(2) by blast
qed

text \<open>
  C20: the four status changes follow the table of the status machine on every branch of the workspace:
  an accepted change updates only the status and the update time of that branch, a refused one reports
  \<open>BranchNotActive\<close> with the current status and changes nothing, and a branch of another workspace or
  of none is \<open>BranchNotFound\<close>. Registry, lineage and disk are kept in order.
\<close>

theorem status_changes_correct:
  assumes "services_ok S" and "world_ok S w"
  shows "case sv_branches S w i of
      None \<Rightarrow> perform S clock w i a = (w, Inl (BranchNotFound i))
    | Some b \<Rightarrow>
        if br_workspace_id b \<noteq> cf_workspace_id (sv_config S) then perform S clock w i a = (w, Inl (BranchNotFound i))
        else (case next_status a (clock 0) (br_status b) of
            None \<Rightarrow> perform S clock w i a = (w, Inl (BranchNotActive i (kind (br_status b))))
          | Some s \<Rightarrow> \<exists>w' t. perform S clock w i a = (w', Inr ()) \<and> world_ok S w' \<and>
              wd_dag w' = wd_dag w \<and> wd_disk w' = wd_disk w \<and>
              sv_branches S w' = (sv_branches S w)(i \<mapsto> b\<lparr>br_status := s, br_updated_at := t\<rparr>))"
proof (cases "sv_branches S w i")
  case None
  then show ?thesis using perform_missing [OF assms, where i = i] by simp
next
  case (Some b)
  show ?thesis
  proof (cases "br_workspace_id b = cf_workspace_id (sv_config S)")
    case True
    from perform_on [OF assms Some this] show ?thesis unfolding Some option.case by (simp only: True if_False simp_thms)
  next
    case False
    then show ?thesis using Some perform_missing [OF assms, where i = i] by simp
  qed
qed

theorem status_changes_correct_witness:
  "\<exists>w' t. perform sample_services (\<lambda>_. 5) trunk_world 7 Discard = (w', Inr ()) \<and>
     sv_branches sample_services w' = [7 \<mapsto> trunk_example\<lparr>br_status := Discarded 5, br_updated_at := t\<rparr>]"
  using status_changes_correct [OF sample_services_ok trunk_world_spec(1), where i = 7 and a = Discard and clock = "\<lambda>_. 5",
      unfolded trunk_world_spec(2)] by auto

text \<open>
  C22: restoring an archived branch of the workspace. Any other status is refused. The branch becomes
  active exactly when its snapshot directory holds a manifest the database file still satisfies: as the
  check hashes the branch's own database, any write that changes the digest after the fork leaves the
  branch archived with \<open>SnapshotCorrupt\<close>.
\<close>

theorem restore_archived_correct:
  assumes "services_ok S" and "world_ok S w"
    and "sv_branches S w i = Some b" and "br_workspace_id b = cf_workspace_id (sv_config S)"
    and "load_manifest (sv_host S) dir (wd_disk w) = Inr m" and "br_snapshot_path b = dir @ [db]"
    and "sm_snapshot_db_path m = br_snapshot_path b" and "read_file (wd_disk w) (br_snapshot_path b) = Some f"
    and "read_sidecar_hash (sv_host S) (sidecar_hash_path_for_db (br_snapshot_path b)) (wd_disk w) = Some h"
  shows "if br_status b \<noteq> Archived then restore_archived S clock w i = (w, Inl (BranchNotActive i (kind (br_status b))))
    else if hash_bytes (sv_host S) f \<noteq> h
    then restore_archived S clock w i = (w, Inl (SnapshotCorrupt (sm_branch_id m) (br_snapshot_path b)))
    else case verify_snapshot (sv_host S) (wd_disk w) m of
        Inl e \<Rightarrow> restore_archived S clock w i = (w, Inl e)
      | Inr _ \<Rightarrow> \<exists>w'. restore_archived S clock w i = (w', Inr (b\<lparr>br_status := Active, br_updated_at := clock 0\<rparr>)) \<and>
          world_ok S w' \<and> wd_dag w' = wd_dag w \<and> wd_disk w' = wd_disk w \<and>
          sv_branches S w' = (sv_branches S w)(i \<mapsto> b\<lparr>br_status := Active, br_updated_at := clock 0\<rparr>)"
proof -
  have "path_parent (br_snapshot_path b) = Some dir" using assms(6) by (simp add: path_parent_def)
  then have check: "snapshot_check S w b = verify_snapshot (sv_host S) (wd_disk w) m"
    using assms(5) by (simp add: snapshot_check_def ok_or_def res_simps)
  show ?thesis
  proof (cases "hash_bytes (sv_host S) f = h")
    case True
    then show ?thesis using restore_spec [OF assms(1-4), of clock] unfolding check by simp
  next
    case False
    have tampered: "verify_snapshot (sv_host S) (wd_disk w) m = Inl (SnapshotCorrupt (sm_branch_id m) (br_snapshot_path b))"
      using verify_tampered [where m = m, unfolded assms(7), OF assms(8,9) False] .
    from restore_spec [OF assms(1-4), of clock] show ?thesis
      unfolding check tampered sum.case using False by simp
  qed
qed

theorem restore_archived_correct_witness:
  "restore_archived sample_services (\<lambda>_. 5) (archived_world ''abc'') 8 =
     (archived_world ''abc'', Inl (SnapshotCorrupt 8 [''b'', ''branch.db'']))"
proof -
  have paths: "br_snapshot_path archived_example = [''b''] @ [''branch.db'']"
    "sm_snapshot_db_path written_manifest = br_snapshot_path archived_example"
    "sidecar_hash_path_for_db (br_snapshot_path archived_example) = [''b'', ''branch.hash'']"
    using branch_paths(2) [of "[''b'']"] by (simp_all add: written_manifest_def)
  have m: "sm_branch_id written_manifest = 8" by (simp add: written_manifest_def snapshot_manifest_of_def)
  have h: "hash_bytes sample_host ''abc'' \<noteq> hash_bytes sample_host ''ab''"
    by (simp add: sample_host.hash_bytes_eq) (simp add: sample_host_def length_digest_def)
  show ?thesis
    using restore_archived_correct [OF sample_services_ok archived_world_spec(1) [of "''abc''"], where i = 8 and b = archived_example
        and dir = "[''b'']" and db = "''branch.db''" and m = written_manifest and f = "''abc''" and
        h = "hash_bytes sample_host ''ab''" and clock = "\<lambda>_. 5"] h
    by (simp add: archived_world_spec [simplified] paths [simplified] m)
qed

text \<open>
  C21: no step of the lifecycle removes a branch or changes anything of it but its status and update
  time; a discarded, merged, orphaned or purged branch never changes again, and an archived one can only
  become active.
\<close>

theorem statuses_final:
  assumes "services_ok S" and "world_ok S w" and "lifecycle_step S w w'" and "sv_branches S w i = Some b"
  shows "\<exists>s t. sv_branches S w' i = Some (b\<lparr>br_status := s, br_updated_at := t\<rparr>) \<and>
    (\<not> is_live (br_status b) \<longrightarrow> br_status b \<noteq> Archived \<longrightarrow> sv_branches S w' i = Some b) \<and>
    (br_status b = Archived \<longrightarrow> s = Archived \<or> s = Active)"
proof -
  have keep: ?thesis if k: "sv_branches S w' i = Some b"
    using k by (intro exI [of _ "br_status b"] exI [of _ "br_updated_at b"]) simp
  consider "unmoved S w w'" | "status_moved S w w'" | "branch_added S w w'"
    using step_effect [OF assms(1-3)] by blast
  then show ?thesis
  proof cases
    case 1
    then show ?thesis using assms(4) by (intro keep) (simp add: unmoved_def)
  next
    case 2
    then obtain j c s t where m: "sv_branches S w j = Some c"
      "sv_branches S w' = (sv_branches S w)(j \<mapsto> c\<lparr>br_status := s, br_updated_at := t\<rparr>)"
      "(\<exists>a now. next_status a now (br_status c) = Some s) \<or> br_status c = Archived \<and> s = Active"
      unfolding status_moved_def by blast
    show ?thesis
    proof (cases "j = i")
      case True
      then have c: "c = b" using m(1) assms(4) by simp
      have "next_status a now x = None" if n: "\<not> is_live x" for a now x
        using n by (cases a) auto
      then show ?thesis using m(2,3) True unfolding c
        by (intro exI [of _ s] exI [of _ t]) auto
    next
      case False
      then show ?thesis using m(2) assms(4) by (intro keep) simp
    qed
  next
    case 3
    then obtain u c where a: "fresh S w u" "sv_branches S w' = (sv_branches S w)(u \<mapsto> c)"
      unfolding branch_added_def by blast
    have "i \<noteq> u" using a(1) assms(4) by (auto simp: fresh_def)
    then show ?thesis using a(2) assms(4) by (intro keep) simp
  qed
qed

theorem statuses_final_witness:
  "\<exists>s t. sv_branches sample_services (fst (perform sample_services (\<lambda>_. 5) (archived_world ''abc'') 8 Discard)) 8 =
     Some (archived_example\<lparr>br_status := s, br_updated_at := t\<rparr>) \<and> (s = Archived \<or> s = Active)"
proof -
  obtain w' r where run: "perform sample_services (\<lambda>_. 5) (archived_world ''abc'') 8 Discard = (w', r)" by force
  have b: "sv_branches sample_services (archived_world ''abc'') 8 = Some archived_example"
    unfolding archived_world_spec(2) by simp
  from statuses_final [OF sample_services_ok archived_world_spec(1) lifecycle_step.acts [OF run] b] show ?thesis
    unfolding run fst_conv by auto
qed

end
