(* ===== verification/Collector.thy ===== *)
theory Collector
  imports Transitions
begin

text \<open>
  \<open>src/snapshot/gc.rs\<close>: the garbage collector over the registry and the disk. \<open>now - Duration::seconds(..)\<close>
  is a function argument, \<open>None\<close> where chrono panics; so is the order in which \<open>read_dir\<close> lists a directory.
\<close>

section \<open>Operations\<close>

record gc_report =
  gr_branches_purged :: u32
  gr_bytes_freed :: u64
  gr_duration_ms :: u64

definition file_size :: "disk \<Rightarrow> path \<Rightarrow> u64 option" where
  "file_size d p = map_option (\<lambda>f. of_nat (length f)) (read_file d p)"

definition size_or_zero :: "disk \<Rightarrow> path \<Rightarrow> u64" where
  "size_or_zero d p = (case file_size d p of Some n \<Rightarrow> n | None \<Rightarrow> 0)"

definition should_purge :: "datetime \<Rightarrow> branch \<Rightarrow> bool" where
  "should_purge cutoff b =
     (case br_status b of
        Discarded discarded_at \<Rightarrow> discarded_at < cutoff
      | Orphan \<Rightarrow> br_updated_at b < cutoff
      | _ \<Rightarrow> False)"

text \<open>\<open>remove_dir_all\<close> of the parent directory, its errors ignored.\<close>

definition remove_parent :: "path \<Rightarrow> disk \<Rightarrow> disk" where
  "remove_parent p d = (case path_parent p of Some dir \<Rightarrow> remove_dir_all dir d | None \<Rightarrow> d)"

fun gc_loop ::
    "('g, 'h) services \<Rightarrow> (nat \<Rightarrow> datetime) \<Rightarrow> datetime \<Rightarrow> nat \<Rightarrow> 'g world \<Rightarrow> gc_report \<Rightarrow> branch list \<Rightarrow>
     'g world \<times> gc_report branch_result" where
  "gc_loop S clock cutoff k w report [] = (w, Inr report)"
| "gc_loop S clock cutoff k w report (b # bs) =
     (if \<not> should_purge cutoff b then gc_loop S clock cutoff k w report bs
      else
        let sidecar = with_extension ''hash'' (br_db_path b);
            freed = gr_bytes_freed report + size_or_zero (wd_disk w) (br_db_path b) + size_or_zero (wd_disk w) sidecar;
            d = remove_parent (br_db_path b) (remove_file sidecar (remove_file (br_db_path b) (wd_disk w)))
        in case set_status S (clock k) (w\<lparr>wd_disk := d\<rparr>) (br_id b) Purged of
             (w, Inl e) \<Rightarrow> (w, Inl e)
           | (w, Inr _) \<Rightarrow>
               gc_loop S clock cutoff (Suc k) w
                 (report\<lparr>gr_bytes_freed := freed, gr_branches_purged := gr_branches_purged report + 1\<rparr>) bs)"

definition gc_run ::
    "('g, 'h) services \<Rightarrow> (datetime \<Rightarrow> int \<Rightarrow> datetime option) \<Rightarrow> (nat \<Rightarrow> datetime) \<Rightarrow> u64 \<Rightarrow> 'g world \<Rightarrow>
     ('g world \<times> gc_report branch_result) option" where
  "gc_run S sub_secs clock elapsed w =
     (case store_list (sv_codec S) (sv_text S) (sv_order S) (wd_registry w) (cf_workspace_id (sv_config S)) None of
        Inl e \<Rightarrow> Some (w, Inl e)
      | Inr branches \<Rightarrow>
          (case sub_secs (clock 0) (sint (cf_gc_orphan_threshold_secs (sv_config S))) of
             None \<Rightarrow> None
           | Some cutoff \<Rightarrow>
               (case gc_loop S clock cutoff 1 w
                   \<lparr>gr_branches_purged = 0, gr_bytes_freed = 0, gr_duration_ms = 0\<rparr> branches of
                  (w, Inl e) \<Rightarrow> Some (w, Inl e)
                | (w, Inr report) \<Rightarrow> Some (w, Inr (report\<lparr>gr_duration_ms := elapsed\<rparr>)))))"

definition parse_branch_dir_uuid :: "codec \<Rightarrow> path \<Rightarrow> uuid branch_result" where
  "parse_branch_dir_uuid C p =
     (if p = [] then Inl (OrphanedSnapshot p) else ok_or (OrphanedSnapshot p) (uuid_parse C (last p)))"

text \<open>The sub-directories of a directory: the component after it on the path of a deeper file.\<close>

definition sub_dirs :: "path \<Rightarrow> disk \<Rightarrow> string set" where
  "sub_dirs dir d = (\<lambda>(p, _). p ! length dir) ` {(p, s) \<in> set d. in_dir dir p \<and> length p > Suc (length dir)}"

definition collect_orphans ::
    "('g, 'h) services \<Rightarrow> (string set \<Rightarrow> string list) \<Rightarrow> 'g world \<Rightarrow> path list branch_result" where
  "collect_orphans S read_dir w =
     (let root = cf_branches_dir (sv_config S)
      in Inr (filter (\<lambda>p.
           case parse_branch_dir_uuid (sv_codec S) p of
             Inr branch_id \<Rightarrow>
               (case sv_get S (wd_registry w) (cf_workspace_id (sv_config S)) branch_id of
                  Inl e \<Rightarrow> is_not_found e
                | Inr _ \<Rightarrow> False)
           | Inl _ \<Rightarrow> True)
         (map (path_join root) (read_dir (sub_dirs root (wd_disk w))))))"

fun purge_loop ::
    "('g, 'h) services \<Rightarrow> (nat \<Rightarrow> datetime) \<Rightarrow> datetime \<Rightarrow> nat \<Rightarrow> 'g world \<Rightarrow> u64 \<Rightarrow> branch list \<Rightarrow>
     'g world \<times> u64 branch_result" where
  "purge_loop S clock cutoff k w deleted [] = (w, Inr deleted)"
| "purge_loop S clock cutoff k w deleted (b # bs) =
     (case br_status b of
        Discarded discarded_at \<Rightarrow>
          if discarded_at < cutoff then
            let d = remove_file (with_extension ''hash'' (br_db_path b)) (remove_file (br_db_path b) (wd_disk w))
            in case set_status S (clock k) (w\<lparr>wd_disk := d\<rparr>) (br_id b) Purged of
                 (w, Inl e) \<Rightarrow> (w, Inl e)
               | (w, Inr _) \<Rightarrow>
                   (case path_parent (br_db_path b) of
                      Some dir \<Rightarrow> purge_loop S clock cutoff (Suc k) (w\<lparr>wd_disk := remove_dir_all dir (wd_disk w)\<rparr>)
                        (deleted + 1) bs
                    | None \<Rightarrow> purge_loop S clock cutoff (Suc k) w deleted bs)
          else purge_loop S clock cutoff k w deleted bs
      | _ \<Rightarrow> purge_loop S clock cutoff k w deleted bs)"

definition purge_discarded ::
    "('g, 'h) services \<Rightarrow> (datetime \<Rightarrow> int \<Rightarrow> datetime option) \<Rightarrow> (nat \<Rightarrow> datetime) \<Rightarrow> 'g world \<Rightarrow> u32 \<Rightarrow>
     ('g world \<times> u64 branch_result) option" where
  "purge_discarded S sub_secs clock w older_than_days =
     (case sub_secs (clock 0) (uint older_than_days * 86400) of
        None \<Rightarrow> None
      | Some cutoff \<Rightarrow>
          (case store_list (sv_codec S) (sv_text S) (sv_order S) (wd_registry w) (cf_workspace_id (sv_config S)) None of
             Inl e \<Rightarrow> Some (w, Inl e)
           | Inr branches \<Rightarrow> Some (purge_loop S clock cutoff 1 w 0 branches)))"

section \<open>What a collection does\<close>

text \<open>Every branch keeps its database in its own snapshot directory.\<close>

definition placed :: "('g, 'h) services \<Rightarrow> 'g world \<Rightarrow> bool" where
  "placed S w \<longleftrightarrow> (\<forall>i b. sv_branches S w i = Some b \<longrightarrow>
     br_db_path b = snapshot_path_for (sv_codec S) (sv_config S) i)"

abbreviation dir_of where
  "dir_of S i \<equiv> snapshot_dir_for (sv_codec S) (sv_config S) i"

lemma removed_files:
  assumes "br_db_path b = snapshot_path_for (sv_codec S) (sv_config S) i"
  shows "read_file (remove_parent (br_db_path b) (remove_file (with_extension ''hash'' (br_db_path b))
      (remove_file (br_db_path b) d))) q = (if in_dir (dir_of S i) q then None else read_file d q)"
proof -
  have "path_parent (br_db_path b) = Some (dir_of S i)"
    by (simp add: assms branch_paths(3) path_parent_def)
  moreover have "with_extension ''hash'' (br_db_path b) = dir_of S i @ [''branch.hash'']"
    using branch_paths(2) by (simp add: assms branch_paths(3) sidecar_hash_path_for_db_def)
  ultimately show ?thesis
    using in_dir_append [of "dir_of S i"] by (auto simp: remove_parent_def assms branch_paths(3))
qed

text \<open>The branches with identifiers in a set were purged, with the files in their directories.\<close>

definition purged :: "('g, 'h) services \<Rightarrow> uuid set \<Rightarrow> 'g world \<Rightarrow> 'g world \<Rightarrow> bool" where
  "purged S I w w' \<longleftrightarrow> world_ok S w' \<and> wd_dag w' = wd_dag w \<and>
     (\<exists>T. \<forall>i. sv_branches S w' i =
        (if i \<in> I then map_option (\<lambda>b. b\<lparr>br_status := Purged, br_updated_at := T i\<rparr>) (sv_branches S w i)
         else sv_branches S w i)) \<and>
     (\<forall>p. read_file (wd_disk w') p = (if \<exists>i \<in> I. in_dir (dir_of S i) p then None else read_file (wd_disk w) p))"

lemma purged_none: "world_ok S w \<Longrightarrow> purged S {} w w"
  by (simp add: purged_def)

lemma purged_one:
  assumes ok: "services_ok S" and w: "world_ok S w" and b: "sv_branches S w i = Some b"
    and d: "\<And>p. read_file d' p = (if in_dir (dir_of S i) p then None else read_file (wd_disk w) p)"
  shows "\<exists>w'. set_status S now (w\<lparr>wd_disk := d\<rparr>) i Purged = (w', Inr ()) \<and> wd_disk w' = d \<and>
    purged S {i} w (w'\<lparr>wd_disk := d'\<rparr>)"
proof -
  have "world_ok S (w\<lparr>wd_disk := d\<rparr>)" using w by (simp add: world_ok_disk)
  from set_status_spec [OF ok this, of i b now Purged] b obtain w' where
    w': "set_status S now (w\<lparr>wd_disk := d\<rparr>) i Purged = (w', Inr ())" "world_ok S w'" "wd_dag w' = wd_dag w" "wd_disk w' = d"
      "sv_branches S w' = (sv_branches S w)(i \<mapsto> b\<lparr>br_status := Purged, br_updated_at := now\<rparr>)"
    by auto
  have "\<forall>j. sv_branches S w' j = (if j \<in> {i} then map_option (\<lambda>b. b\<lparr>br_status := Purged, br_updated_at := now\<rparr>) (sv_branches S w j)
      else sv_branches S w j)"
    using b by (simp add: w'(5))
  then show ?thesis using w'(1-4) d unfolding purged_def
    by (intro exI [of _ w'] conjI exI [of _ "\<lambda>_. now"]) (simp_all add: world_ok_disk)
qed

lemma purged_trans:
  assumes "purged S A w w'" and "purged S B w' w''"
  shows "purged S (A \<union> B) w w''"
proof -
  obtain T where T: "\<forall>i. sv_branches S w' i =
      (if i \<in> A then map_option (\<lambda>b. b\<lparr>br_status := Purged, br_updated_at := T i\<rparr>) (sv_branches S w i) else sv_branches S w i)"
    using assms(1) unfolding purged_def by blast
  obtain U where U: "\<forall>i. sv_branches S w'' i =
      (if i \<in> B then map_option (\<lambda>b. b\<lparr>br_status := Purged, br_updated_at := U i\<rparr>) (sv_branches S w' i) else sv_branches S w' i)"
    using assms(2) unfolding purged_def by blast
  have "\<forall>i. sv_branches S w'' i =
      (if i \<in> A \<union> B then map_option (\<lambda>b. b\<lparr>br_status := Purged, br_updated_at := (if i \<in> B then U i else T i)\<rparr>)
         (sv_branches S w i) else sv_branches S w i)"
    by (auto simp: U T option.map_comp comp_def)
  moreover have "\<forall>p. read_file (wd_disk w'') p =
      (if \<exists>i \<in> A \<union> B. in_dir (dir_of S i) p then None else read_file (wd_disk w) p)"
    using assms unfolding purged_def by auto
  ultimately show ?thesis using assms unfolding purged_def
    by (intro conjI exI [of _ "\<lambda>i. if i \<in> B then U i else T i"]) simp_all
qed

text \<open>A branch that is not purged is still registered as it was.\<close>

lemma purged_keeps: "purged S I w w' \<Longrightarrow> i \<notin> I \<Longrightarrow> sv_branches S w' i = sv_branches S w i"
  by (auto simp: purged_def)

lemma gc_loop_spec:
  assumes ok: "services_ok S"
  shows "world_ok S w \<Longrightarrow> \<forall>b \<in> set bs. sv_branches S w (br_id b) = Some b \<Longrightarrow> distinct (map br_id bs) \<Longrightarrow>
    \<forall>b \<in> set bs. br_db_path b = snapshot_path_for (sv_codec S) (sv_config S) (br_id b) \<Longrightarrow>
    \<exists>w' report'. gc_loop S clock cutoff k w report bs = (w', Inr report') \<and>
      purged S (br_id ` {b \<in> set bs. should_purge cutoff b}) w w' \<and>
      gr_branches_purged report' = gr_branches_purged report + of_nat (length (filter (should_purge cutoff) bs))"
proof (induction bs arbitrary: k w report)
  case Nil
  then show ?case by (simp add: purged_none)
next
  case (Cons b bs)
  show ?case
  proof (cases "should_purge cutoff b")
    case False
    then have "{c \<in> set (b # bs). should_purge cutoff c} = {c \<in> set bs. should_purge cutoff c}" by auto
    moreover from Cons.IH [OF Cons.prems(1)] Cons.prems(2-4) obtain w' r where
      "gc_loop S clock cutoff k w report bs = (w', Inr r)"
      "purged S (br_id ` {b \<in> set bs. should_purge cutoff b}) w w'"
      "gr_branches_purged r = gr_branches_purged report + of_nat (length (filter (should_purge cutoff) bs))"
      by force
    ultimately show ?thesis using False by (intro exI [of _ w'] exI [of _ r]) simp
  next
    case due: True
    let ?d = "remove_parent (br_db_path b) (remove_file (with_extension ''hash'' (br_db_path b)) (remove_file (br_db_path b) (wd_disk w)))"
    have p: "br_db_path b = snapshot_path_for (sv_codec S) (sv_config S) (br_id b)" using Cons.prems(4) by simp
    have b: "sv_branches S w (br_id b) = Some b" using Cons.prems(2) by simp
    obtain w1 where w0: "set_status S (clock k) (w\<lparr>wd_disk := ?d\<rparr>) (br_id b) Purged = (w1, Inr ())" "wd_disk w1 = ?d"
      "purged S {br_id b} w (w1\<lparr>wd_disk := ?d\<rparr>)"
      using purged_one [OF ok Cons.prems(1) b removed_files [OF p], where d = ?d and now = "clock k"] by blast
    have "w1\<lparr>wd_disk := ?d\<rparr> = w1" using w0(2) by (cases w1) simp
    with w0 have w1: "set_status S (clock k) (w\<lparr>wd_disk := ?d\<rparr>) (br_id b) Purged = (w1, Inr ())" "purged S {br_id b} w w1"
      by simp_all
    have "\<forall>c \<in> set bs. sv_branches S w1 (br_id c) = Some c"
    proof
      fix c assume c: "c \<in> set bs"
      then have "br_id c \<notin> {br_id b}" using Cons.prems(3) by (auto simp: image_iff)
      then show "sv_branches S w1 (br_id c) = Some c"
        using purged_keeps [OF w1(2)] c Cons.prems(2) by simp
    qed
    moreover have "world_ok S w1" using w1(2) by (simp add: purged_def)
    ultimately obtain w' r where w': "gc_loop S clock cutoff (Suc k) w1
        (report\<lparr>gr_bytes_freed := gr_bytes_freed report + size_or_zero (wd_disk w) (br_db_path b) +
           size_or_zero (wd_disk w) (with_extension ''hash'' (br_db_path b)),
         gr_branches_purged := gr_branches_purged report + 1\<rparr>) bs = (w', Inr r)"
      "purged S (br_id ` {b \<in> set bs. should_purge cutoff b}) w1 w'"
      "gr_branches_purged r = gr_branches_purged report + 1 + of_nat (length (filter (should_purge cutoff) bs))"
      using Cons.IH [of w1 "Suc k"] Cons.prems(3,4) by force
    have "{br_id b} \<union> br_id ` {b \<in> set bs. should_purge cutoff b} = br_id ` {c \<in> set (b # bs). should_purge cutoff c}"
      using due by auto
    with purged_trans [OF w1(2) w'(2)] have "purged S (br_id ` {c \<in> set (b # bs). should_purge cutoff c}) w w'" by simp
    then show ?thesis using due w1(1) w'(1,3) by (intro exI [of _ w'] exI [of _ r]) (simp add: Let_def)
  qed
qed

text \<open>The other order of \<open>purge_discarded\<close>: the row first, then the directory.\<close>

definition discarded_before :: "datetime \<Rightarrow> branch \<Rightarrow> bool" where
  "discarded_before cutoff b \<longleftrightarrow> (\<exists>t. br_status b = Discarded t \<and> t < cutoff)"

lemma purge_loop_step:
  assumes "path_parent (br_db_path b) = Some dir"
  shows "purge_loop S clock cutoff k w deleted (b # bs) =
    (if discarded_before cutoff b then
       (case set_status S (clock k) (w\<lparr>wd_disk := remove_file (with_extension ''hash'' (br_db_path b)) (remove_file (br_db_path b) (wd_disk w))\<rparr>)
          (br_id b) Purged of
          (w, Inl e) \<Rightarrow> (w, Inl e)
        | (w, Inr _) \<Rightarrow> purge_loop S clock cutoff (Suc k) (w\<lparr>wd_disk := remove_dir_all dir (wd_disk w)\<rparr>) (deleted + 1) bs)
     else purge_loop S clock cutoff k w deleted bs)"
  using assms by (cases "br_status b") (auto simp: discarded_before_def Let_def)

lemma purge_loop_spec:
  assumes ok: "services_ok S"
  shows "world_ok S w \<Longrightarrow> \<forall>b \<in> set bs. sv_branches S w (br_id b) = Some b \<Longrightarrow> distinct (map br_id bs) \<Longrightarrow>
    \<forall>b \<in> set bs. br_db_path b = snapshot_path_for (sv_codec S) (sv_config S) (br_id b) \<Longrightarrow>
    \<exists>w'. purge_loop S clock cutoff k w deleted bs = (w', Inr (deleted + of_nat (length (filter (discarded_before cutoff) bs)))) \<and>
      purged S (br_id ` {b \<in> set bs. discarded_before cutoff b}) w w'"
proof (induction bs arbitrary: k w deleted)
  case Nil
  then show ?case by (simp add: purged_none)
next
  case (Cons b bs)
  have p: "br_db_path b = snapshot_path_for (sv_codec S) (sv_config S) (br_id b)" using Cons.prems(4) by simp
  then have dir: "path_parent (br_db_path b) = Some (dir_of S (br_id b))" by (simp add: branch_paths(3) path_parent_def)
  show ?case
  proof (cases "discarded_before cutoff b")
    case False
    then have "{c \<in> set (b # bs). discarded_before cutoff c} = {c \<in> set bs. discarded_before cutoff c}" by auto
    moreover from Cons.IH [OF Cons.prems(1)] Cons.prems(2-4) obtain w' where
      "purge_loop S clock cutoff k w deleted bs = (w', Inr (deleted + of_nat (length (filter (discarded_before cutoff) bs))))"
      "purged S (br_id ` {b \<in> set bs. discarded_before cutoff b}) w w'"
      by force
    ultimately show ?thesis using False by (simp add: purge_loop_step [OF dir] del: purge_loop.simps)
  next
    case due: True
    let ?d = "remove_file (with_extension ''hash'' (br_db_path b)) (remove_file (br_db_path b) (wd_disk w))"
    let ?d' = "remove_dir_all (dir_of S (br_id b)) ?d"
    have b: "sv_branches S w (br_id b) = Some b" using Cons.prems(2) by simp
    have d': "read_file ?d' q = (if in_dir (dir_of S (br_id b)) q then None else read_file (wd_disk w) q)" for q
      using removed_files [OF p] dir by (simp add: remove_parent_def)
    obtain w1 where w1: "set_status S (clock k) (w\<lparr>wd_disk := ?d\<rparr>) (br_id b) Purged = (w1, Inr ())" "wd_disk w1 = ?d"
      "purged S {br_id b} w (w1\<lparr>wd_disk := ?d'\<rparr>)"
      using purged_one [OF ok Cons.prems(1) b d', where d = ?d and now = "clock k"] by blast
    let ?w1 = "w1\<lparr>wd_disk := ?d'\<rparr>"
    have "\<forall>c \<in> set bs. sv_branches S ?w1 (br_id c) = Some c"
    proof
      fix c assume c: "c \<in> set bs"
      then have "br_id c \<notin> {br_id b}" using Cons.prems(3) by (auto simp: image_iff)
      then show "sv_branches S ?w1 (br_id c) = Some c"
        using purged_keeps [OF w1(3)] c Cons.prems(2) by simp
    qed
    moreover have "world_ok S ?w1" using w1(3) by (simp add: purged_def)
    ultimately obtain w' where w': "purge_loop S clock cutoff (Suc k) ?w1 (deleted + 1) bs =
        (w', Inr (deleted + 1 + of_nat (length (filter (discarded_before cutoff) bs))))"
      "purged S (br_id ` {b \<in> set bs. discarded_before cutoff b}) ?w1 w'"
      using Cons.IH [of ?w1 "Suc k" "deleted + 1"] Cons.prems(3,4) by force
    have "{br_id b} \<union> br_id ` {b \<in> set bs. discarded_before cutoff b} = br_id ` {c \<in> set (b # bs). discarded_before cutoff c}"
      using due by auto
    with purged_trans [OF w1(3) w'(2)] have "purged S (br_id ` {c \<in> set (b # bs). discarded_before cutoff c}) w w'" by simp
    then show ?thesis using due w1(1,2) w'(1) by (simp add: purge_loop_step [OF dir] algebra_simps del: purge_loop.simps)
  qed
qed

section \<open>Collections in a world\<close>

lemma workspace_branches:
  assumes ok: "services_ok S" and w: "world_ok S w" and p: "placed S w"
  obtains bs where "store_list (sv_codec S) (sv_text S) (sv_order S) (wd_registry w) ws None = Inr bs"
    and "set bs = {b. sv_branches S w (br_id b) = Some b \<and> br_workspace_id b = ws}"
    and "distinct (map br_id bs)"
    and "\<forall>b \<in> set bs. sv_branches S w (br_id b) = Some b"
    and "\<forall>b \<in> set bs. br_db_path b = snapshot_path_for (sv_codec S) (sv_config S) (br_id b)"
proof -
  obtain bs where bs: "store_list (sv_codec S) (sv_text S) (sv_order S) (wd_registry w) ws None = Inr bs"
    "set bs = {b. sv_branches S w (br_id b) = Some b \<and> br_workspace_id b = ws}" "distinct (map br_id bs)"
    using store_env.list_spec [OF services_okD(1) [OF ok] world_okD(1) [OF w], of ws None] by auto
  have "\<forall>b \<in> set bs. sv_branches S w (br_id b) = Some b"
    "\<forall>b \<in> set bs. br_db_path b = snapshot_path_for (sv_codec S) (sv_config S) (br_id b)"
    using bs(2) p by (simp_all add: placed_def)
  then show ?thesis by (rule that [OF bs])
qed

text \<open>The identifiers of the branches of the workspace that satisfy a condition.\<close>

definition ids_with :: "('g, 'h) services \<Rightarrow> 'g world \<Rightarrow> (branch \<Rightarrow> bool) \<Rightarrow> uuid set" where
  "ids_with S w Q = {i. \<exists>b. sv_branches S w i = Some b \<and> br_workspace_id b = cf_workspace_id (sv_config S) \<and> Q b}"

lemma ids_with_list:
  assumes ok: "services_ok S" and w: "world_ok S w"
    and "set bs = {b. sv_branches S w (br_id b) = Some b \<and> br_workspace_id b = cf_workspace_id (sv_config S)}"
    and "distinct (map br_id bs)"
  shows "br_id ` {b \<in> set bs. Q b} = ids_with S w Q"
    and "length (filter Q bs) = card (ids_with S w Q)"
proof -
  have id': "br_id b = i" if i: "sv_branches S w i = Some b" for i b
    by (rule store_env.branches_of_id [OF services_okD(1) [OF ok] world_okD(1) [OF w] i])
  show img: "br_id ` {b \<in> set bs. Q b} = ids_with S w Q"
  proof
    show "ids_with S w Q \<subseteq> br_id ` {b \<in> set bs. Q b}"
    proof
      fix i assume "i \<in> ids_with S w Q"
      then obtain b where b: "sv_branches S w i = Some b" "br_workspace_id b = cf_workspace_id (sv_config S)" "Q b"
        unfolding ids_with_def by blast
      then have "br_id b = i" by (intro id')
      then show "i \<in> br_id ` {b \<in> set bs. Q b}" using b assms(3) by auto
    qed
  qed (use assms(3) in \<open>auto simp: ids_with_def\<close>)
  have "distinct (map br_id (filter Q bs))" using assms(4) by (simp add: distinct_map_filter)
  then have "length (filter Q bs) = card (br_id ` set (filter Q bs))"
    using distinct_card [of "map br_id (filter Q bs)"] by simp
  then show "length (filter Q bs) = card (ids_with S w Q)" using img by simp
qed

lemma gc_run_spec:
  assumes ok: "services_ok S" and w: "world_ok S w" and p: "placed S w"
    and c: "sub_secs (clock 0) (sint (cf_gc_orphan_threshold_secs (sv_config S))) = Some cutoff"
  shows "\<exists>w' report. gc_run S sub_secs clock elapsed w = Some (w', Inr report) \<and>
    purged S (ids_with S w (should_purge cutoff)) w w' \<and>
    gr_branches_purged report = of_nat (card (ids_with S w (should_purge cutoff)))"
proof -
  from workspace_branches [OF ok w p, of "cf_workspace_id (sv_config S)"] obtain bs where
    bs: "store_list (sv_codec S) (sv_text S) (sv_order S) (wd_registry w) (cf_workspace_id (sv_config S)) None = Inr bs"
    "set bs = {b. sv_branches S w (br_id b) = Some b \<and> br_workspace_id b = cf_workspace_id (sv_config S)}"
    "distinct (map br_id bs)" "\<forall>b \<in> set bs. sv_branches S w (br_id b) = Some b"
    "\<forall>b \<in> set bs. br_db_path b = snapshot_path_for (sv_codec S) (sv_config S) (br_id b)" by blast
  from gc_loop_spec [OF ok w bs(4,3,5), of clock cutoff 1 "\<lparr>gr_branches_purged = 0, gr_bytes_freed = 0, gr_duration_ms = 0\<rparr>"]
  show ?thesis
    unfolding ids_with_list [OF ok w bs(2,3)] by (auto simp: gc_run_def bs(1) c)
qed

lemma purge_discarded_spec:
  assumes ok: "services_ok S" and w: "world_ok S w" and p: "placed S w"
    and c: "sub_secs (clock 0) (uint days * 86400) = Some cutoff"
  shows "\<exists>w'. purge_discarded S sub_secs clock w days =
      Some (w', Inr (of_nat (card (ids_with S w (discarded_before cutoff))))) \<and>
    purged S (ids_with S w (discarded_before cutoff)) w w'"
proof -
  from workspace_branches [OF ok w p, of "cf_workspace_id (sv_config S)"] obtain bs where
    bs: "store_list (sv_codec S) (sv_text S) (sv_order S) (wd_registry w) (cf_workspace_id (sv_config S)) None = Inr bs"
    "set bs = {b. sv_branches S w (br_id b) = Some b \<and> br_workspace_id b = cf_workspace_id (sv_config S)}"
    "distinct (map br_id bs)" "\<forall>b \<in> set bs. sv_branches S w (br_id b) = Some b"
    "\<forall>b \<in> set bs. br_db_path b = snapshot_path_for (sv_codec S) (sv_config S) (br_id b)" by blast
  from purge_loop_spec [OF ok w bs(4,3,5), of clock cutoff 1 0]
  show ?thesis
    unfolding ids_with_list [OF ok w bs(2,3)] by (auto simp: purge_discarded_def bs(1) c)
qed

section \<open>Collections among the lifecycle steps\<close>

inductive system_step :: "('g, 'h) services \<Rightarrow> 'g world \<Rightarrow> 'g world \<Rightarrow> bool" for S where
  life: "lifecycle_step S w w' \<Longrightarrow> system_step S w w'"
| collect: "gc_run S sub_secs clock elapsed w = Some (w', r) \<Longrightarrow> system_step S w w'"
| purge: "purge_discarded S sub_secs clock w days = Some (w', r') \<Longrightarrow> system_step S w w'"

lemma lineage_purged:
  assumes "lineage S w" and "purged S I w w'"
  shows "lineage S w'"
proof -
  obtain T where T: "\<forall>i. sv_branches S w' i =
      (if i \<in> I then map_option (\<lambda>b. b\<lparr>br_status := Purged, br_updated_at := T i\<rparr>) (sv_branches S w i) else sv_branches S w i)"
    and w: "world_ok S w'" "wd_dag w' = wd_dag w"
    using assms(2) unfolding purged_def by blast
  have "sv_branches S w' i = None \<longleftrightarrow> sv_branches S w i = None" for i by (simp add: T)
  moreover have "(\<exists>b. sv_branches S w' i = Some b \<and> br_parent_id b = Some p) \<longleftrightarrow>
      (\<exists>b. sv_branches S w i = Some b \<and> br_parent_id b = Some p)" for i p by (auto simp: T)
  ultimately show ?thesis using assms(1) w by (simp add: lineage_def)
qed

lemma placed_purged: "placed S w \<Longrightarrow> purged S I w w' \<Longrightarrow> placed S w'"
  unfolding placed_def purged_def by (auto split: if_splits)

lemma placed_step:
  assumes "placed S w" and "unmoved S w w' \<or> status_moved S w w' \<or> branch_added S w w'"
  shows "placed S w'"
  using assms(2)
proof (elim disjE)
  assume "unmoved S w w'"
  then show ?thesis using assms(1) by (simp add: placed_def unmoved_def)
next
  assume "status_moved S w w'"
  then obtain i b s t where m: "sv_branches S w i = Some b"
    "sv_branches S w' = (sv_branches S w)(i \<mapsto> b\<lparr>br_status := s, br_updated_at := t\<rparr>)"
    unfolding status_moved_def by blast
  have b: "br_db_path b = snapshot_path_for (sv_codec S) (sv_config S) i" using assms(1) m(1) by (simp add: placed_def)
  show ?thesis unfolding placed_def
  proof (intro allI impI)
    fix j c assume c: "sv_branches S w' j = Some c"
    show "br_db_path c = snapshot_path_for (sv_codec S) (sv_config S) j"
    proof (cases "j = i")
      case True
      then have "c = b\<lparr>br_status := s, br_updated_at := t\<rparr>" using c unfolding m(2) by simp
      then show ?thesis using b True by simp
    next
      case False
      then have "sv_branches S w j = Some c" using c unfolding m(2) by simp
      then show ?thesis using assms(1) by (simp add: placed_def)
    qed
  qed
next
  assume "branch_added S w w'"
  then obtain u b where a: "br_db_path b = snapshot_path_for (sv_codec S) (sv_config S) u"
    "sv_branches S w' = (sv_branches S w)(u \<mapsto> b)"
    unfolding branch_added_def by blast
  show ?thesis unfolding placed_def
  proof (intro allI impI)
    fix j c assume c: "sv_branches S w' j = Some c"
    show "br_db_path c = snapshot_path_for (sv_codec S) (sv_config S) j"
    proof (cases "j = u")
      case True
      then show ?thesis using c a by simp
    next
      case False
      then have "sv_branches S w j = Some c" using c unfolding a(2) by simp
      then show ?thesis using assms(1) by (simp add: placed_def)
    qed
  qed
qed

lemma system_step_ok:
  assumes ok: "services_ok S" and l: "lineage S w" and p: "placed S w" and s: "system_step S w w'"
  shows "lineage S w' \<and> placed S w'"
proof -
  have w: "world_ok S w" using l by (simp add: lineage_def)
  show ?thesis using s
  proof (cases rule: system_step.cases)
    case life
    note e = step_effect [OF ok w this]
    then have w': "world_ok S w'" and moved: "unmoved S w w' \<or> status_moved S w w' \<or> branch_added S w w'"
      by (rule conjunct1, rule conjunct2)
    from moved have "lineage S w'"
      by (elim disjE) (rule lineage_unmoved [OF l _ w'] lineage_moved [OF l _ w'] lineage_added [OF l _ w'], assumption)+
    then show ?thesis using placed_step [OF p moved] by (rule conjI)
  next
    case (collect sub_secs clock elapsed r)
    show ?thesis
    proof (cases "sub_secs (clock 0) (sint (cf_gc_orphan_threshold_secs (sv_config S)))")
      case None
      obtain bs where
        "store_list (sv_codec S) (sv_text S) (sv_order S) (wd_registry w) (cf_workspace_id (sv_config S)) None = Inr bs"
        by (rule workspace_branches [OF ok w p])
      then show ?thesis using collect None by (simp add: gc_run_def)
    next
      case (Some cutoff)
      from gc_run_spec [where sub_secs = sub_secs and clock = clock and elapsed = elapsed, OF ok w p Some] collect
      have "purged S (ids_with S w (should_purge cutoff)) w w'" by auto
      then show ?thesis by (intro conjI lineage_purged [OF l] placed_purged [OF p])
    qed
  next
    case (purge sub_secs clock days r)
    then show ?thesis
    proof (cases "sub_secs (clock 0) (uint days * 86400)")
      case None
      then show ?thesis using purge by (simp add: purge_discarded_def)
    next
      case (Some cutoff)
      from purge_discarded_spec [where sub_secs = sub_secs and clock = clock, OF ok w p Some] purge
      have "purged S (ids_with S w (discarded_before cutoff)) w w'" by auto
      then show ?thesis by (intro conjI lineage_purged [OF l] placed_purged [OF p])
    qed
  qed
qed

text \<open>The directories of different branches hold different files.\<close>

lemma dirs_apart:
  assumes ok: "services_ok S" and "in_dir (dir_of S i) (snapshot_path_for (sv_codec S) (sv_config S) j)"
  shows "i = j"
proof -
  have "uuid_str (sv_codec S) i = uuid_str (sv_codec S) j"
    using assms(2) by (simp add: in_dir_def snapshot_path_for_def snapshot_dir_for_def path_join_def)
  then show ?thesis using store_env.uuid_str_inj [OF services_okD(1) [OF ok]] by simp
qed

lemma purged_database:
  assumes ok: "services_ok S" and p: "placed S w" and g: "purged S I w w'" and b: "sv_branches S w i = Some b"
  shows "read_file (wd_disk w') (br_db_path b) = (if i \<in> I then None else read_file (wd_disk w) (br_db_path b))"
proof -
  have path: "br_db_path b = snapshot_path_for (sv_codec S) (sv_config S) i" using p b by (simp add: placed_def)
  have "(\<exists>j \<in> I. in_dir (dir_of S j) (br_db_path b)) \<longleftrightarrow> i \<in> I"
    using dirs_apart [OF ok] in_dir_append [of "dir_of S i"] unfolding path by (metis branch_paths(3))
  then show ?thesis using g by (simp add: purged_def)
qed

text \<open>A world to collect: a discarded branch in its own directory.\<close>

definition discarded_example :: branch where
  "discarded_example = blank_branch\<lparr>br_id := 8, br_status := Discarded 5,
     br_db_path := snapshot_path_for decimal_codec (sv_config sample_services) 8\<rparr>"

definition discarded_world :: "list_graph world" where
  "discarded_world = world_of discarded_example [(snapshot_path_for decimal_codec (sv_config sample_services) 8, ''ab'')]"

definition exact_sub :: "datetime \<Rightarrow> int \<Rightarrow> datetime option" where
  "exact_sub now secs = Some (now - secs * 1000000000)"

lemma discarded_example_sel [simp]:
  "br_id discarded_example = 8" "br_status discarded_example = Discarded 5" "br_workspace_id discarded_example = 0"
  "br_db_path discarded_example = snapshot_path_for decimal_codec (sv_config sample_services) 8"
  by (simp_all add: discarded_example_def blank_branch_def)

lemma discarded_world_spec:
  "world_ok sample_services discarded_world"
  "sv_branches sample_services discarded_world = [8 \<mapsto> discarded_example]"
  "placed sample_services discarded_world"
proof -
  have b: "printable (br_metadata discarded_example)" "br_parent_id discarded_example = None"
    by (simp_all add: discarded_example_def blank_branch_def)
  show "world_ok sample_services discarded_world"
    unfolding discarded_world_def by (rule world_of_spec(1) [OF b])
  show br: "sv_branches sample_services discarded_world = [8 \<mapsto> discarded_example]"
    using world_of_spec(2) [OF b] unfolding discarded_world_def by simp
  show "placed sample_services discarded_world"
    unfolding placed_def br by simp
qed

section \<open>Properties\<close>

text \<open>
  in every world that lifecycle operations and collections reach, whatever their order and errors,
  the registry is in order, the DAG is exactly the parent relation of the registered branches, without
  a cycle, and every branch has its database in its own directory.
\<close>

theorem system_lineage:
  assumes "services_ok S" and "(system_step S)\<^sup>*\<^sup>* (empty_world S d) w"
  shows "world_ok S w \<and> placed S w \<and> dag_nodes (sv_graph S) (wd_dag w) = {i. sv_branches S w i \<noteq> None} \<and>
    dag_rel (sv_graph S) (wd_dag w) = {(p, i). \<exists>b. sv_branches S w i = Some b \<and> br_parent_id b = Some p} \<and>
    acyclic {(p, i). \<exists>b. sv_branches S w i = Some b \<and> br_parent_id b = Some p}"
proof -
  have "lineage S w \<and> placed S w" using assms(2)
  proof (induction rule: rtranclp_induct)
    case base
    then show ?case using empty_lineage [OF assms(1)]
      by (simp add: placed_def empty_world_def empty_registry_branches)
  next
    case (step w w')
    then show ?case by (intro system_step_ok [OF assms(1), of w]) simp_all
  qed
  moreover from this have "world_ok S w" by (simp add: lineage_def)
  then have "acyclic (dag_rel (sv_graph S) (wd_dag w))" by (intro rel_acyclic world_okD(2))
  ultimately show ?thesis by (simp add: lineage_def)
qed

theorem system_lineage_witness:
  "world_ok sample_services (fst (perform sample_services (\<lambda>_. 5) (empty_world sample_services []) 7 Archive))"
proof -
  obtain w' r where run: "perform sample_services (\<lambda>_. 5) (empty_world sample_services []) 7 Archive = (w', r)" by force
  have "(system_step sample_services)\<^sup>*\<^sup>* (empty_world sample_services []) w'"
    by (rule r_into_rtranclp) (rule system_step.life, rule lifecycle_step.acts [OF run])
  from system_lineage [OF sample_services_ok this] show ?thesis unfolding run fst_conv by blast
qed




definition forever_services :: "(list_graph, string) services" where
  "forever_services = sample_services\<lparr>sv_config := (sv_config sample_services)\<lparr>cf_gc_orphan_threshold_secs := 2 ^ 64 - 1\<rparr>\<rparr>"


text \<open>
  \<open>purge_discarded\<close> purges exactly the branches of the workspace discarded before the cutoff, with the
  files in their directories, counts them, and leaves every other branch, its database and the lineage.
\<close>

theorem purge_discarded_correct:
  assumes "services_ok S" and "world_ok S w" and "placed S w"
    and "sub_secs (clock 0) (uint days * 86400) = Some cutoff"
  shows "\<exists>w'. purge_discarded S sub_secs clock w days =
      Some (w', Inr (of_nat (card (ids_with S w (discarded_before cutoff))))) \<and> world_ok S w' \<and> wd_dag w' = wd_dag w \<and>
    (\<forall>i b. sv_branches S w i = Some b \<longrightarrow>
       (if i \<in> ids_with S w (discarded_before cutoff)
        then read_file (wd_disk w') (br_db_path b) = None \<and> (\<exists>c. sv_branches S w' i = Some c \<and> br_status c = Purged)
        else sv_branches S w' i = Some b \<and>
          read_file (wd_disk w') (br_db_path b) = read_file (wd_disk w) (br_db_path b)))"
proof -
  from purge_discarded_spec [where sub_secs = sub_secs and clock = clock, OF assms] obtain w' where
    run: "purge_discarded S sub_secs clock w days = Some (w', Inr (of_nat (card (ids_with S w (discarded_before cutoff)))))"
    and g: "purged S (ids_with S w (discarded_before cutoff)) w w'" by blast
  let ?I = "ids_with S w (discarded_before cutoff)"
  have "if i \<in> ?I
        then read_file (wd_disk w') (br_db_path b) = None \<and> (\<exists>c. sv_branches S w' i = Some c \<and> br_status c = Purged)
        else sv_branches S w' i = Some b \<and>
          read_file (wd_disk w') (br_db_path b) = read_file (wd_disk w) (br_db_path b)"
    if b: "sv_branches S w i = Some b" for i b
  proof (cases "i \<in> ?I")
    case True
    then show ?thesis using purged_database [OF assms(1,3) g b] g b by (auto simp: purged_def)
  next
    case False
    then show ?thesis using purged_database [OF assms(1,3) g b] purged_keeps [OF g False] b by simp
  qed
  then show ?thesis using run g unfolding purged_def by blast
qed

theorem purge_discarded_correct_witness:
  "\<exists>w' n c. purge_discarded sample_services exact_sub (\<lambda>_. 90000000000000) discarded_world 1 = Some (w', Inr n) \<and>
     sv_branches sample_services w' 8 = Some c \<and> br_status c = Purged"
proof -
  have c: "exact_sub 90000000000000 (uint (1 :: u32) * 86400) = Some 3600000000000" by (simp add: exact_sub_def)
  have i: "8 \<in> ids_with sample_services discarded_world (discarded_before 3600000000000)"
    unfolding ids_with_def discarded_world_spec(2) by (simp add: discarded_before_def)
  have b: "sv_branches sample_services discarded_world 8 = Some discarded_example"
    unfolding discarded_world_spec(2) by simp
  from purge_discarded_correct [where sub_secs = exact_sub and clock = "\<lambda>_. 90000000000000", OF sample_services_ok discarded_world_spec(1,3) c]
  obtain w' n where run: "purge_discarded sample_services exact_sub (\<lambda>_. 90000000000000) discarded_world 1 = Some (w', Inr n)"
    and all: "\<forall>i b. sv_branches sample_services discarded_world i = Some b \<longrightarrow>
       (if i \<in> ids_with sample_services discarded_world (discarded_before 3600000000000)
        then read_file (wd_disk w') (br_db_path b) = None \<and> (\<exists>c. sv_branches sample_services w' i = Some c \<and> br_status c = Purged)
        else sv_branches sample_services w' i = Some b \<and>
          read_file (wd_disk w') (br_db_path b) = read_file (wd_disk discarded_world) (br_db_path b))" by blast
  from all [rule_format, OF b] i
  have "\<exists>c. sv_branches sample_services w' 8 = Some c \<and> br_status c = Purged" by (simp only: if_True)
  then show ?thesis using run by blast
qed

text \<open>
  the orphans listed are the sub-directories of the branches directory whose name is no identifier
  of a registered branch of the workspace.
\<close>

theorem collect_orphans_correct:
  assumes "services_ok S" and "world_ok S w"
    and "set (read_dir (sub_dirs (cf_branches_dir (sv_config S)) (wd_disk w))) = sub_dirs (cf_branches_dir (sv_config S)) (wd_disk w)"
  shows "\<exists>ps. collect_orphans S read_dir w = Inr ps \<and>
    set ps = path_join (cf_branches_dir (sv_config S)) ` {name \<in> sub_dirs (cf_branches_dir (sv_config S)) (wd_disk w).
      \<not> (\<exists>i b. uuid_parse (sv_codec S) name = Some i \<and> sv_branches S w i = Some b \<and>
           br_workspace_id b = cf_workspace_id (sv_config S))}"
proof -
  let ?root = "cf_branches_dir (sv_config S)"
  have "(case parse_branch_dir_uuid (sv_codec S) (path_join ?root name) of
      Inr branch_id \<Rightarrow>
        (case sv_get S (wd_registry w) (cf_workspace_id (sv_config S)) branch_id of
           Inl e \<Rightarrow> is_not_found e
         | Inr _ \<Rightarrow> False)
    | Inl _ \<Rightarrow> True) \<longleftrightarrow>
    \<not> (\<exists>i b. uuid_parse (sv_codec S) name = Some i \<and> sv_branches S w i = Some b \<and>
           br_workspace_id b = cf_workspace_id (sv_config S))" for name
  proof (cases "uuid_parse (sv_codec S) name")
    case None
    then show ?thesis by (simp add: parse_branch_dir_uuid_def path_join_def ok_or_def)
  next
    case (Some i)
    then show ?thesis
      by (auto simp: parse_branch_dir_uuid_def path_join_def ok_or_def sv_get_eq [OF assms(1,2)] split: option.split)
  qed
  then show ?thesis unfolding collect_orphans_def Let_def using assms(3) by auto
qed

theorem collect_orphans_correct_witness:
  "collect_orphans sample_services (\<lambda>_. [uuid_str decimal_codec 8]) discarded_world = Inr []"
proof -
  let ?root = "cf_branches_dir (sv_config sample_services)"
  have "{(p, s) \<in> set (wd_disk discarded_world). in_dir ?root p \<and> length p > Suc (length ?root)} =
      {(?root @ [uuid_str decimal_codec 8, ''branch.db''], ''ab'')}"
    by (auto simp: discarded_world_def world_of_def in_dir_def snapshot_path_for_def snapshot_dir_for_def path_join_def)
  then have d: "sub_dirs ?root (wd_disk discarded_world) = {uuid_str decimal_codec 8}"
    by (simp add: sub_dirs_def nth_append)
  have r: "set ((\<lambda>_. [uuid_str decimal_codec 8]) (sub_dirs ?root (wd_disk discarded_world))) =
      sub_dirs ?root (wd_disk discarded_world)"
    by (simp add: d)
  let ?Q = "\<lambda>name. \<exists>i b. uuid_parse (sv_codec sample_services) name = Some i \<and>
      sv_branches sample_services discarded_world i = Some b \<and> br_workspace_id b = cf_workspace_id (sv_config sample_services)"
  have q: "?Q (uuid_str decimal_codec 8)"
    unfolding discarded_world_spec(2)
    by (intro exI [of _ 8] exI [of _ discarded_example]) (simp add: decimal.uuid_roundtrip)
  obtain ps where "collect_orphans sample_services (\<lambda>_. [uuid_str decimal_codec 8]) discarded_world = Inr ps"
    and ps: "set ps = path_join ?root ` {name \<in> sub_dirs ?root (wd_disk discarded_world). \<not> ?Q name}"
    using collect_orphans_correct [where read_dir = "\<lambda>_. [uuid_str decimal_codec 8]", OF sample_services_ok discarded_world_spec(1) r]
    by blast
  moreover have "{name \<in> {uuid_str decimal_codec 8}. \<not> ?Q name} = {}" using q by blast
  then have "set ps = {}" unfolding ps d by (simp only: image_empty)
  ultimately show ?thesis by simp
qed

end
