(* ===== verification/Persist.thy ===== *)
theory Persist
  imports Dag Store
begin

text \<open>
  \<open>src/dag/serializer.rs\<close> and \<open>src/dag/dot.rs\<close>: the two tables in which the lineage is persisted, the
  reconstruction of the graph from them, and its Graphviz text. The order of the rows of a query and of
  the keys of a hash map are arguments.
\<close>

section \<open>The tables\<close>

record node_row =
  nr_branch_id :: string
  nr_workspace_id :: string
  nr_added_at :: string

record edge_row =
  eg_parent_id :: string
  eg_child_id :: string
  eg_forked_at :: string
  eg_merge_cursor :: "string option"

record dag_tables =
  dt_nodes :: "node_row list"
  dt_edges :: "edge_row list"

text \<open>\<open>INSERT OR IGNORE\<close>: a row with the same key stays; a foreign key that fails is still an error.\<close>

definition save_node :: "codec \<Rightarrow> datetime \<Rightarrow> dag_tables \<Rightarrow> uuid \<Rightarrow> uuid \<Rightarrow> dag_tables \<times> unit branch_result" where
  "save_node C now T branch_id workspace_id =
     (if \<exists>r \<in> set (dt_nodes T). nr_branch_id r = uuid_str C branch_id then (T, Inr ())
      else (T\<lparr>dt_nodes := dt_nodes T @ [\<lparr>nr_branch_id = uuid_str C branch_id,
              nr_workspace_id = uuid_str C workspace_id, nr_added_at = dt_rfc3339 C now\<rparr>]\<rparr>, Inr ()))"

definition save_edge :: "codec \<Rightarrow> dag_tables \<Rightarrow> uuid \<Rightarrow> uuid \<Rightarrow> datetime \<Rightarrow> dag_tables \<times> unit branch_result" where
  "save_edge C T parent_id child_id forked_at =
     (if \<exists>r \<in> set (dt_edges T). eg_parent_id r = uuid_str C parent_id \<and> eg_child_id r = uuid_str C child_id
      then (T, Inr ())
      else if \<not> (\<exists>r \<in> set (dt_nodes T). nr_branch_id r = uuid_str C parent_id) \<or>
              \<not> (\<exists>r \<in> set (dt_nodes T). nr_branch_id r = uuid_str C child_id)
      then (T, Inl foreign_key_failed)
      else (T\<lparr>dt_edges := dt_edges T @ [\<lparr>eg_parent_id = uuid_str C parent_id, eg_child_id = uuid_str C child_id,
              eg_forked_at = dt_rfc3339 C forked_at, eg_merge_cursor = None\<rparr>]\<rparr>, Inr ()))"

definition delete_node :: "codec \<Rightarrow> dag_tables \<Rightarrow> uuid \<Rightarrow> dag_tables \<times> unit branch_result" where
  "delete_node C T branch_id =
     (let id_str = uuid_str C branch_id;
          T = T\<lparr>dt_edges := filter (\<lambda>r. \<not> (eg_parent_id r = id_str \<or> eg_child_id r = id_str)) (dt_edges T)\<rparr>
      in (T\<lparr>dt_nodes := filter (\<lambda>r. nr_branch_id r \<noteq> id_str) (dt_nodes T)\<rparr>, Inr ()))"

definition update_edge_cursor ::
    "codec \<Rightarrow> dag_tables \<Rightarrow> uuid \<Rightarrow> uuid \<Rightarrow> string \<Rightarrow> dag_tables \<times> unit branch_result" where
  "update_edge_cursor C T parent_id child_id cursor =
     (T\<lparr>dt_edges := map (\<lambda>r. if eg_parent_id r = uuid_str C parent_id \<and> eg_child_id r = uuid_str C child_id
         then r\<lparr>eg_merge_cursor := Some cursor\<rparr> else r) (dt_edges T)\<rparr>, Inr ())"

section \<open>Reconstruction\<close>

record edge_record =
  er_parent_id :: uuid
  er_child_id :: uuid
  er_meta :: edge_meta

record row_order =
  ro_nodes :: "node_row list \<Rightarrow> node_row list"
  ro_edges :: "edge_row list \<Rightarrow> edge_row list"
  ro_keys :: "uuid set \<Rightarrow> uuid list"

text \<open>The error text of a failed parse ends with the message of the parser, an argument.\<close>

definition edge_record_of :: "codec \<Rightarrow> (string \<Rightarrow> string) \<Rightarrow> edge_row \<Rightarrow> edge_record branch_result" where
  "edge_record_of C msg row =
     res_bind (ok_or (SandboxError (''invalid parent UUID: '' @ msg (eg_parent_id row))) (uuid_parse C (eg_parent_id row)))
       (\<lambda>parent_id.
     res_bind (ok_or (SandboxError (''invalid child UUID: '' @ msg (eg_child_id row))) (uuid_parse C (eg_child_id row)))
       (\<lambda>child_id.
     res_bind (ok_or (SandboxError (''invalid forked_at: '' @ msg (eg_forked_at row))) (dt_parse C (eg_forked_at row)))
       (\<lambda>forked_at.
       Inr \<lparr>er_parent_id = parent_id, er_child_id = child_id,
            er_meta = \<lparr>em_forked_at = forked_at, em_merge_cursor = eg_merge_cursor row\<rparr>\<rparr>)))"

text \<open>The entries of \<open>out_edges\<close> and \<open>in_degree\<close>, edge by edge.\<close>

definition push_out :: "nat \<times> edge_record \<Rightarrow> (uuid \<times> nat list) list \<Rightarrow> (uuid \<times> nat list) list" where
  "push_out = (\<lambda>(i, e) out.
     (case map_of out (er_parent_id e) of
        None \<Rightarrow> out @ [(er_parent_id e, [i])]
      | Some _ \<Rightarrow> map (\<lambda>(p, is'). if p = er_parent_id e then (p, is' @ [i]) else (p, is')) out))"

definition count_in :: "edge_record \<Rightarrow> (uuid \<rightharpoonup> nat) \<Rightarrow> (uuid \<rightharpoonup> nat)" where
  "count_in e deg =
     (let deg = deg(er_child_id e \<mapsto> (case deg (er_child_id e) of Some d \<Rightarrow> d + 1 | None \<Rightarrow> 1))
      in case deg (er_parent_id e) of None \<Rightarrow> deg(er_parent_id e \<mapsto> 0) | Some _ \<Rightarrow> deg)"

text \<open>The children of one parent: each index is emitted, a child without open edges is queued.\<close>

definition visit :: "edge_record list \<Rightarrow> nat \<Rightarrow> (uuid \<rightharpoonup> nat) \<times> uuid list \<Rightarrow> (uuid \<rightharpoonup> nat) \<times> uuid list" where
  "visit edges idx = (\<lambda>(deg, queue).
     let child = er_child_id (edges ! idx);
         d = (case deg child of Some d \<Rightarrow> d | None \<Rightarrow> 1) - 1;
         deg = deg(child \<mapsto> d)
     in (deg, if d = 0 then queue @ [child] else queue))"

lemma remove_entry_shorter: "map_of out p = Some is' \<Longrightarrow> length (filter (\<lambda>(q, _). q \<noteq> p) out) < length out"
  by (induction out) (auto simp: less_Suc_eq_le split: if_splits)

function kahn_loop ::
    "edge_record list \<Rightarrow> (uuid \<times> nat list) list \<Rightarrow> (uuid \<rightharpoonup> nat) \<Rightarrow> uuid list \<Rightarrow> nat list \<Rightarrow> nat list" where
  "kahn_loop edges out deg [] insert_order = insert_order"
| "kahn_loop edges out deg (parent # queue) insert_order =
     (case map_of out parent of
        None \<Rightarrow> kahn_loop edges out deg queue insert_order
      | Some child_indices \<Rightarrow>
          (let (deg, queue) = fold (visit edges) child_indices (deg, queue)
           in kahn_loop edges (filter (\<lambda>(p, _). p \<noteq> parent) out) deg queue (insert_order @ child_indices)))"
  by pat_completeness auto

termination kahn_loop
  by (relation "measures [\<lambda>(edges, out, deg, queue, ord). length out, \<lambda>(edges, out, deg, queue, ord). length queue]")
    (auto dest: remove_entry_shorter)

definition add_rest :: "nat \<Rightarrow> nat list \<Rightarrow> nat list" where
  "add_rest n insert_order = fold (\<lambda>i ord. if i \<in> set ord then ord else ord @ [i]) [0..<n] insert_order"

fun add_edges ::
    "'g petgraph \<Rightarrow> edge_record list \<Rightarrow> 'g dag \<Rightarrow> nat list \<Rightarrow> 'g dag branch_result option" where
  "add_edges P edges g [] = Some (Inr g)"
| "add_edges P edges g (idx # order) =
     (let e = edges ! idx
      in case add_edge_meta P g (er_parent_id e) (er_child_id e) (er_meta e) of
           None \<Rightarrow> None
         | Some (_, Inl err) \<Rightarrow> Some (Inl err)
         | Some (g, Inr _) \<Rightarrow> add_edges P edges g order)"

definition load_nodes ::
    "'g petgraph \<Rightarrow> codec \<Rightarrow> (string \<Rightarrow> string) \<Rightarrow> node_row list \<Rightarrow> 'g dag branch_result" where
  "load_nodes P C msg rows =
     res_foldM (\<lambda>g row.
       res_bind (ok_or (SandboxError (''invalid UUID in dag_nodes: '' @ msg (nr_branch_id row)))
         (uuid_parse C (nr_branch_id row))) (\<lambda>id'.
       res_bind (snd (add_node P g id')) (\<lambda>_. Inr (fst (add_node P g id')))))
     (dag_new P) rows"

definition load_graph ::
    "'g petgraph \<Rightarrow> codec \<Rightarrow> row_order \<Rightarrow> (string \<Rightarrow> string) \<Rightarrow> dag_tables \<Rightarrow> uuid \<Rightarrow> 'g dag branch_result option" where
  "load_graph P C order msg T workspace_id =
     (let workspace_str = uuid_str C workspace_id;
          node_rows = ro_nodes order (filter (\<lambda>r. nr_workspace_id r = workspace_str) (dt_nodes T));
          in_workspace = (\<lambda>id'. \<exists>r \<in> set (dt_nodes T). nr_branch_id r = id' \<and> nr_workspace_id r = workspace_str);
          edge_rows = ro_edges order (filter (\<lambda>e. in_workspace (eg_parent_id e) \<and> in_workspace (eg_child_id e)) (dt_edges T))
      in case load_nodes P C msg node_rows of
           Inl e \<Rightarrow> Some (Inl e)
         | Inr graph \<Rightarrow>
             (case res_foldM (\<lambda>edges row. res_bind (edge_record_of C msg row) (\<lambda>e. Inr (edges @ [e]))) [] edge_rows of
                Inl e \<Rightarrow> Some (Inl e)
              | Inr edges \<Rightarrow>
                  let out_edges = fold push_out (enumerate 0 edges) [];
                      in_degree = fold count_in edges Map.empty;
                      queue = filter (\<lambda>id'. in_degree id' = Some 0) (ro_keys order (dom in_degree));
                      insert_order = add_rest (length edges) (kahn_loop edges out_edges in_degree queue [])
                  in add_edges P edges graph insert_order))"

section \<open>The edges of a graph with their data\<close>

context digraph begin

lemma rel_all_edges: "dag_rel P d = (\<lambda>(a, b, m). (a, b)) ` set (all_edges P d)"
  by (force simp: dag_rel_def all_edges_def erel_def ends_def image_image)

lemma all_edges_ensure:
  assumes wf: "dag_wf P d" and e: "ensure_or_insert P d u = (d', i)"
  shows "set (all_edges P d') = set (all_edges P d)"
proof (cases "dg_index d u")
  case (Some j)
  then show ?thesis using e by (simp add: ensure_or_insert_def)
next
  case None
  have eds: "pg_edges P (dg_graph d') = pg_edges P (dg_graph d)" and w: "weights P d' = weights P d @ [u]"
    using e None by (auto simp: ensure_or_insert_def case_prod_unfold Let_def add_node_edges add_node_weights)
  have "a < length (weights P d) \<and> b < length (weights P d)" if m: "(a, b, m) \<in> set (pg_edges P (dg_graph d))" for a b m
    using wf_range [OF wf] m by (force simp: erel_def ends_def)
  then show ?thesis unfolding all_edges_def eds w
    by (auto simp: nth_append image_iff Bex_def split: prod.splits intro!: image_cong)
qed

text \<open>An edge that closes no cycle is added with its data, unless the edge is there already.\<close>

lemma add_edge_meta_edges:
  assumes wf: "dag_wf P d" and pc: "p \<noteq> c" and acyc: "(c, p) \<notin> (dag_rel P d)\<^sup>+"
  shows "\<exists>d'. add_edge_meta P d p c m = Some (d', Inr ()) \<and> dag_wf P d' \<and>
    dag_nodes P d' = insert c (insert p (dag_nodes P d)) \<and>
    set (all_edges P d') = (if (p, c) \<in> dag_rel P d then set (all_edges P d) else insert (p, c, m) (set (all_edges P d)))"
proof -
  from add_edge_meta_spec [OF wf pc, of m] acyc obtain d' where
    d': "add_edge_meta P d p c m = Some (d', Inr ())" "dag_wf P d'" "dag_nodes P d' = insert c (insert p (dag_nodes P d))"
    by auto
  obtain d1 i where e1: "ensure_or_insert P d p = (d1, i)" by fastforce
  obtain d2 j where e2: "ensure_or_insert P d1 c = (d2, j)" by fastforce
  note s1 = ensure_spec [OF wf e1]
  note s2 = ensure_spec [OF s1(1) e2]
  have "dg_index d1 p = Some i" using s1 wf_index by blast
  then have i: "i < length (weights P d2)" "weights P d2 ! i = p"
    using s2(6) wf_index [OF s2(1)] by blast+
  have j: "j < length (weights P d2)" "weights P d2 ! j = c" by (rule s2(2), rule s2(3))
  have same: "set (all_edges P d2) = set (all_edges P d)"
    using all_edges_ensure [OF wf e1] all_edges_ensure [OF s1(1) e2] by simp
  have mem: "(i, j) \<in> erel P (dg_graph d2) \<longleftrightarrow> (p, c) \<in> dag_rel P d"
    using rel_nth [OF s2(1) i(1) j(1)] i j s1(5) s2(5) by simp
  let ?g = "pg_add_edge P (dg_graph d2) i j m"
  have eq: "add_edge_meta P d p c m = (if pg_find_edge P (dg_graph d2) i j \<noteq> None then Some (d2, Inr ())
       else if pg_is_cyclic P ?g
            then Some (d2\<lparr>dg_graph := (case pg_find_edge P ?g i j of
                              Some e \<Rightarrow> pg_remove_edge P ?g e | None \<Rightarrow> ?g)\<rparr>, Inl (DagCycle p c))
            else Some (d2\<lparr>dg_graph := ?g\<rparr>, Inr ()))"
    using pc i(1) j(1) by (simp add: add_edge_meta_def e1 e2 Let_def)
  note run = eq [unfolded d'(1)]
  have "set (all_edges P d') = (if (p, c) \<in> dag_rel P d then set (all_edges P d) else insert (p, c, m) (set (all_edges P d)))"
  proof (cases "(p, c) \<in> dag_rel P d")
    case True
    then have "d' = d2" using run mem find_edge_None [of "dg_graph d2" i j] by simp
    then show ?thesis using True same by simp
  next
    case False
    then have "d' = d2\<lparr>dg_graph := ?g\<rparr>"
      using run mem find_edge_None [of "dg_graph d2" i j] by (simp split: if_splits)
    then have "set (all_edges P d') = insert (p, c, m) (set (all_edges P d2))"
      using i j by (simp add: all_edges_def add_edge_weights add_edge_edges)
    then show ?thesis using False same by simp
  qed
  then show ?thesis using d' by blast
qed

text \<open>Adding a list of edges with consistent data to a graph, all together without a cycle.\<close>

lemma add_edges_spec:
  assumes "dag_wf P d" and "\<forall>i \<in> set order. i < length edges"
    and "acyclic (dag_rel P d \<union> (\<lambda>i. (er_parent_id (edges ! i), er_child_id (edges ! i))) ` set order)"
    and "inj_on (\<lambda>(a, b, m). (a, b)) (set (all_edges P d) \<union>
      (\<lambda>i. (er_parent_id (edges ! i), er_child_id (edges ! i), er_meta (edges ! i))) ` set order)"
  shows "\<exists>d'. add_edges P edges d order = Some (Inr d') \<and> dag_wf P d' \<and>
    dag_nodes P d' = dag_nodes P d \<union> (\<Union>i \<in> set order. {er_parent_id (edges ! i), er_child_id (edges ! i)}) \<and>
    set (all_edges P d') = set (all_edges P d) \<union>
      (\<lambda>i. (er_parent_id (edges ! i), er_child_id (edges ! i), er_meta (edges ! i))) ` set order"
  using assms
proof (induction order arbitrary: d)
  case Nil
  then show ?case by simp
next
  case (Cons i order)
  let ?p = "er_parent_id (edges ! i)" and ?c = "er_child_id (edges ! i)" and ?m = "er_meta (edges ! i)"
  let ?R = "dag_rel P d \<union> (\<lambda>i. (er_parent_id (edges ! i), er_child_id (edges ! i))) ` set (i # order)"
  let ?E = "set (all_edges P d) \<union>
      (\<lambda>i. (er_parent_id (edges ! i), er_child_id (edges ! i), er_meta (edges ! i))) ` set (i # order)"
  have pcR: "(?p, ?c) \<in> ?R" by simp
  have pc: "?p \<noteq> ?c"
    using Cons.prems(3) r_into_trancl [OF pcR] by (auto simp only: acyclic_def)
  have acyc: "(?c, ?p) \<notin> (dag_rel P d)\<^sup>+"
  proof
    assume "(?c, ?p) \<in> (dag_rel P d)\<^sup>+"
    then have "(?c, ?p) \<in> ?R\<^sup>+" by (rule trancl_mono) blast
    then have "(?p, ?p) \<in> ?R\<^sup>+" by (rule trancl_into_trancl2 [OF pcR])
    then show False using Cons.prems(3) by (simp only: acyclic_def)
  qed
  from add_edge_meta_edges [OF Cons.prems(1) pc acyc, of ?m] obtain d1 where
    d1: "add_edge_meta P d ?p ?c ?m = Some (d1, Inr ())" "dag_wf P d1" "dag_nodes P d1 = insert ?c (insert ?p (dag_nodes P d))"
      "set (all_edges P d1) = (if (?p, ?c) \<in> dag_rel P d then set (all_edges P d) else insert (?p, ?c, ?m) (set (all_edges P d)))"
    by blast
  have all1: "set (all_edges P d1) = insert (?p, ?c, ?m) (set (all_edges P d))"
  proof (cases "(?p, ?c) \<in> dag_rel P d")
    case True
    then obtain m where m: "(?p, ?c, m) \<in> set (all_edges P d)" unfolding rel_all_edges by auto
    have "(?p, ?c, m) = (?p, ?c, ?m)"
      by (rule inj_onD [OF Cons.prems(4)]) (use m in auto)
    then show ?thesis using True m d1(4) by auto
  qed (use d1(4) in simp)
  have R1: "dag_rel P d1 \<union> (\<lambda>i. (er_parent_id (edges ! i), er_child_id (edges ! i))) ` set order = ?R"
    unfolding rel_all_edges all1 by auto
  have E1: "set (all_edges P d1) \<union> (\<lambda>i. (er_parent_id (edges ! i), er_child_id (edges ! i), er_meta (edges ! i))) ` set order = ?E"
    unfolding all1 by auto
  from Cons.IH [OF d1(2)] Cons.prems(2-4) obtain d' where
    "add_edges P edges d1 order = Some (Inr d')" "dag_wf P d'"
    "dag_nodes P d' = dag_nodes P d1 \<union> (\<Union>i \<in> set order. {er_parent_id (edges ! i), er_child_id (edges ! i)})"
    "set (all_edges P d') = ?E"
    unfolding R1 E1 by auto
  then show ?case using d1(1,3) by (intro exI [of _ d']) (simp add: Let_def insert_commute)
qed

end

section \<open>The order of insertion\<close>

lemma kahn_loop_from:
  "set (kahn_loop edges out deg queue ord) \<subseteq> set ord \<union> (\<Union>(p, is') \<in> set out. set is')"
proof (induction edges out deg queue ord rule: kahn_loop.induct)
  case (2 edges out deg parent queue ord)
  show ?case
  proof (cases "map_of out parent")
    case None
    then show ?thesis using 2(1) by simp
  next
    case (Some is')
    obtain deg' queue' where v: "fold (visit edges) is' (deg, queue) = (deg', queue')" by force
    have "set is' \<subseteq> (\<Union>(p, is') \<in> set out. set is')" using map_of_SomeD [OF Some] by auto
    moreover have "(\<Union>(p, is') \<in> set (filter (\<lambda>(p, _). p \<noteq> parent) out). set is') \<subseteq> (\<Union>(p, is') \<in> set out. set is')"
      by auto
    ultimately show ?thesis using 2(2) [OF Some refl v [symmetric]] Some v by (simp add: Let_def) blast
  qed
qed simp

lemma push_out_indices:
  "(\<Union>(p, is') \<in> set (push_out (i, e) out). set is') \<subseteq> insert i (\<Union>(p, is') \<in> set out. set is')"
  by (auto simp: push_out_def split: option.splits if_splits)

lemma out_edges_indices:
  "(\<Union>(p, is') \<in> set (fold push_out es out). set is') \<subseteq> fst ` set es \<union> (\<Union>(p, is') \<in> set out. set is')"
proof (induction es arbitrary: out)
  case (Cons x es)
  obtain i e where x: "x = (i, e)" by force
  show ?case using Cons.IH [of "push_out x out"] push_out_indices [of i e out] by (auto simp: x)
qed simp

lemma set_add_rest: "set (add_rest n ord) = set ord \<union> {..<n}"
  by (induction n) (auto simp: add_rest_def lessThan_Suc)

lemma insert_order_set:
  "set (add_rest (length edges) (kahn_loop edges (fold push_out (enumerate 0 edges) []) deg queue [])) = {..<length edges}"
proof -
  let ?out = "fold push_out (enumerate 0 edges) []"
  have "fst ` set (enumerate 0 edges) = set (map fst (enumerate 0 edges))" by (simp only: list.set_map)
  then have "fst ` set (enumerate 0 edges) = {..<length edges}" by (simp add: lessThan_atLeast0)
  then have "(\<Union>(p, is') \<in> set ?out. set is') \<subseteq> {..<length edges}"
    using out_edges_indices [of "enumerate 0 edges" "[]"] by simp
  moreover have "set (kahn_loop edges ?out deg queue []) \<subseteq> (\<Union>(p, is') \<in> set ?out. set is')"
    using kahn_loop_from [of edges ?out deg queue "[]"] by simp
  ultimately show ?thesis unfolding set_add_rest by blast
qed

section \<open>What the tables hold\<close>

definition edge_row_ok :: "codec \<Rightarrow> edge_row \<Rightarrow> bool" where
  "edge_row_ok C e \<longleftrightarrow> (\<exists>p c t. eg_parent_id e = uuid_str C p \<and> eg_child_id e = uuid_str C c \<and>
     eg_forked_at e = dt_rfc3339 C t)"

definition tables_ok :: "codec \<Rightarrow> dag_tables \<Rightarrow> bool" where
  "tables_ok C T \<longleftrightarrow>
     distinct (map nr_branch_id (dt_nodes T)) \<and> distinct (map (\<lambda>e. (eg_parent_id e, eg_child_id e)) (dt_edges T)) \<and>
     (\<forall>r \<in> set (dt_nodes T). \<exists>u ws. nr_branch_id r = uuid_str C u \<and> nr_workspace_id r = uuid_str C ws) \<and>
     (\<forall>e \<in> set (dt_edges T). edge_row_ok C e) \<and>
     eg_parent_id ` set (dt_edges T) \<union> eg_child_id ` set (dt_edges T) \<subseteq> nr_branch_id ` set (dt_nodes T)"

definition stored_nodes :: "codec \<Rightarrow> dag_tables \<Rightarrow> uuid \<Rightarrow> uuid set" where
  "stored_nodes C T ws =
     {u. \<exists>r \<in> set (dt_nodes T). nr_branch_id r = uuid_str C u \<and> nr_workspace_id r = uuid_str C ws}"

definition row_of :: "codec \<Rightarrow> uuid \<times> uuid \<times> edge_meta \<Rightarrow> edge_row" where
  "row_of C = (\<lambda>(p, c, m). \<lparr>eg_parent_id = uuid_str C p, eg_child_id = uuid_str C c,
     eg_forked_at = dt_rfc3339 C (em_forked_at m), eg_merge_cursor = em_merge_cursor m\<rparr>)"

definition stored_edges :: "codec \<Rightarrow> dag_tables \<Rightarrow> (uuid \<times> uuid \<times> edge_meta) set" where
  "stored_edges C T = {e. row_of C e \<in> set (dt_edges T)}"

definition row_order_ok :: "row_order \<Rightarrow> bool" where
  "row_order_ok order \<longleftrightarrow> (\<forall>xs. mset (ro_nodes order xs) = mset xs) \<and> (\<forall>xs. mset (ro_edges order xs) = mset xs)"

lemma fold_records:
  "(\<And>x. x \<in> set xs \<Longrightarrow> f x = Inr (g x)) \<Longrightarrow>
   res_foldM (\<lambda>acc x. res_bind (f x) (\<lambda>e. Inr (acc @ [e]))) acc xs = Inr (acc @ map g xs)"
  by (induction xs arbitrary: acc) simp_all

lemma load_nodes_spec:
  assumes D: "digraph P" and C: "codec_laws C"
    and rows: "\<forall>r \<in> set rows. \<exists>u. nr_branch_id r = uuid_str C u"
  shows "\<exists>g. load_nodes P C msg rows = Inr g \<and> dag_wf P g \<and> set (all_edges P g) = {} \<and>
    dag_nodes P g = {u. \<exists>r \<in> set rows. nr_branch_id r = uuid_str C u}"
proof -
  let ?step = "\<lambda>g row.
       res_bind (ok_or (SandboxError (''invalid UUID in dag_nodes: '' @ msg (nr_branch_id row)))
         (uuid_parse C (nr_branch_id row))) (\<lambda>id'.
       res_bind (snd (add_node P g id')) (\<lambda>_. Inr (fst (add_node P g id'))))"
  have "\<exists>g. res_foldM ?step g0 rows = Inr g \<and> dag_wf P g \<and> set (all_edges P g) = {} \<and>
    dag_nodes P g = dag_nodes P g0 \<union> {u. \<exists>r \<in> set rows. nr_branch_id r = uuid_str C u}"
    if "dag_wf P g0" "set (all_edges P g0) = {}" for g0
    using that rows
  proof (induction rows arbitrary: g0)
    case (Cons r rows)
    obtain u where u: "nr_branch_id r = uuid_str C u" using Cons.prems(3) by auto
    obtain g1 i where e: "ensure_or_insert P g0 u = (g1, i)" by force
    note s = digraph.ensure_spec [OF D Cons.prems(1) e]
    have step: "?step g0 r = Inr g1"
      by (simp add: u codec_laws.uuid_roundtrip [OF C] ok_or_def digraph.add_node_eq [OF D] e)
    have "set (all_edges P g1) = {}" using digraph.all_edges_ensure [OF D Cons.prems(1) e] Cons.prems(2) by simp
    from Cons.IH [OF s(1) this] Cons.prems(3) obtain g where
      "res_foldM ?step g1 rows = Inr g" "dag_wf P g" "set (all_edges P g) = {}"
      "dag_nodes P g = dag_nodes P g1 \<union> {u. \<exists>r \<in> set rows. nr_branch_id r = uuid_str C u}" by auto
    moreover have "uuid_str C u = uuid_str C v \<longleftrightarrow> v = u" for v
      using codec_laws.uuid_roundtrip [OF C] by (metis option.inject)
    then have "dag_nodes P g1 \<union> {u. \<exists>r \<in> set rows. nr_branch_id r = uuid_str C u} =
        dag_nodes P g0 \<union> {u. \<exists>r \<in> set (r # rows). nr_branch_id r = uuid_str C u}"
      using s(4) u by auto
    moreover have "res_foldM ?step g0 (r # rows) = res_foldM ?step g1 rows"
      by (simp only: res_foldM.simps step res_bind_simps)
    ultimately show ?case by (intro exI [of _ g]) (simp only: simp_thms)
  qed simp
  from this [OF digraph.new_wf [OF D]] show ?thesis
    using digraph.new_empty(1) [OF D] digraph.edges_new [OF D]
    by (simp add: load_nodes_def all_edges_def dag_new_def)
qed

section \<open>Loading\<close>

definition decoded_edge :: "codec \<Rightarrow> edge_row \<Rightarrow> edge_record" where
  "decoded_edge C row =
     \<lparr>er_parent_id = the (uuid_parse C (eg_parent_id row)), er_child_id = the (uuid_parse C (eg_child_id row)),
      er_meta = \<lparr>em_forked_at = the (dt_parse C (eg_forked_at row)), em_merge_cursor = eg_merge_cursor row\<rparr>\<rparr>"

definition triple :: "edge_record \<Rightarrow> uuid \<times> uuid \<times> edge_meta" where
  "triple e = (er_parent_id e, er_child_id e, er_meta e)"

context codec_laws begin

lemma uuid_inj: "uuid_str C u = uuid_str C v \<longleftrightarrow> u = v"
  using uuid_roundtrip by (metis option.inject)

lemma rfc3339_inj: "dt_rfc3339 C s = dt_rfc3339 C t \<longleftrightarrow> s = t"
  using rfc3339_roundtrip by (metis option.inject)

lemma row_of_inj: "row_of C x = row_of C y \<longleftrightarrow> x = y"
  by (auto simp: row_of_def uuid_inj rfc3339_inj split: prod.splits)

lemma decoded_row:
  assumes "tables_ok C T" and "row \<in> set (dt_edges T)"
  shows "edge_record_of C msg row = Inr (decoded_edge C row)" and "row_of C (triple (decoded_edge C row)) = row"
proof -
  obtain p c t where "eg_parent_id row = uuid_str C p" "eg_child_id row = uuid_str C c" "eg_forked_at row = dt_rfc3339 C t"
    using assms by (auto simp: tables_ok_def edge_row_ok_def)
  then show "edge_record_of C msg row = Inr (decoded_edge C row)" "row_of C (triple (decoded_edge C row)) = row"
    by (simp_all add: edge_record_of_def decoded_edge_def triple_def row_of_def ok_or_def uuid_roundtrip rfc3339_roundtrip)
qed

lemma stored_edges_key:
  assumes "tables_ok C T" and "(p, c, m) \<in> stored_edges C T" and "(p, c, m') \<in> stored_edges C T"
  shows "m = m'"
proof -
  have "row_of C (p, c, m) = row_of C (p, c, m')"
  proof (rule inj_onD [of "\<lambda>e. (eg_parent_id e, eg_child_id e)" "set (dt_edges T)"])
    show "inj_on (\<lambda>e. (eg_parent_id e, eg_child_id e)) (set (dt_edges T))"
      using assms(1) by (simp add: tables_ok_def distinct_map)
  qed (use assms(2,3) in \<open>auto simp: stored_edges_def row_of_def\<close>)
  then show ?thesis by (simp add: row_of_inj)
qed

end

text \<open>The edges between the nodes of one workspace.\<close>

definition workspace_edges :: "codec \<Rightarrow> dag_tables \<Rightarrow> uuid \<Rightarrow> (uuid \<times> uuid \<times> edge_meta) set" where
  "workspace_edges C T ws =
     {(p, c, m) \<in> stored_edges C T. p \<in> stored_nodes C T ws \<and> c \<in> stored_nodes C T ws}"

lemma load_graph_spec:
  assumes D: "digraph P" and C: "codec_laws C" and O: "row_order_ok order" and T: "tables_ok C T"
    and acyc: "acyclic {(p, c). \<exists>m. (p, c, m) \<in> workspace_edges C T ws}"
  shows "\<exists>g. load_graph P C order msg T ws = Some (Inr g) \<and> dag_wf P g \<and>
    dag_nodes P g = stored_nodes C T ws \<and> set (all_edges P g) = workspace_edges C T ws"
proof -
  note inj = codec_laws.uuid_inj [OF C]
  let ?w = "uuid_str C ws"
  let ?in = "\<lambda>id'. \<exists>r \<in> set (dt_nodes T). nr_branch_id r = id' \<and> nr_workspace_id r = ?w"
  define nrows where "nrows = ro_nodes order (filter (\<lambda>r. nr_workspace_id r = ?w) (dt_nodes T))"
  define erows where "erows = ro_edges order (filter (\<lambda>e. ?in (eg_parent_id e) \<and> ?in (eg_child_id e)) (dt_edges T))"
  have set_order: "set (ro_nodes order xs) = set xs" "set (ro_edges order ys) = set ys" for xs ys
    using O unfolding row_order_ok_def by (metis set_mset_mset)+
  have snr: "set nrows = {r \<in> set (dt_nodes T). nr_workspace_id r = ?w}" by (simp add: nrows_def set_order)
  have ser: "set erows = {e \<in> set (dt_edges T). ?in (eg_parent_id e) \<and> ?in (eg_child_id e)}" by (simp add: erows_def set_order)
  have ids: "\<forall>r \<in> set nrows. \<exists>u. nr_branch_id r = uuid_str C u"
    using T by (auto simp: snr tables_ok_def)
  obtain g where g: "load_nodes P C msg nrows = Inr g" "dag_wf P g" "set (all_edges P g) = {}"
    "dag_nodes P g = {u. \<exists>r \<in> set nrows. nr_branch_id r = uuid_str C u}"
    using load_nodes_spec [OF D C ids, of msg] by blast
  have gn: "dag_nodes P g = stored_nodes C T ws" by (auto simp: g(4) snr stored_nodes_def)
  define edges where "edges = map (decoded_edge C) erows"
  have recs: "res_foldM (\<lambda>edges row. res_bind (edge_record_of C msg row) (\<lambda>e. Inr (edges @ [e]))) [] erows = Inr edges"
    using fold_records [of erows "edge_record_of C msg" "decoded_edge C" "[]"] codec_laws.decoded_row(1) [OF C T]
    by (auto simp: edges_def ser)
  have node_in: "?in (uuid_str C u) \<longleftrightarrow> u \<in> stored_nodes C T ws" for u by (auto simp: stored_nodes_def)
  have triples: "triple ` set edges = workspace_edges C T ws"
  proof
    show "triple ` set edges \<subseteq> workspace_edges C T ws"
    proof
      fix x assume "x \<in> triple ` set edges"
      then obtain row where row: "row \<in> set erows" "x = triple (decoded_edge C row)" by (auto simp: edges_def)
      obtain p c m where x: "x = (p, c, m)" by (cases x)
      have "row_of C x = row" using codec_laws.decoded_row(2) [OF C T] row by (simp add: ser)
      then show "x \<in> workspace_edges C T ws"
        using row(1) by (auto simp: x workspace_edges_def stored_edges_def stored_nodes_def ser row_of_def)
    qed
    show "workspace_edges C T ws \<subseteq> triple ` set edges"
    proof
      fix x assume x: "x \<in> workspace_edges C T ws"
      obtain p c m where pcm: "x = (p, c, m)" by (cases x)
      have row: "row_of C x \<in> set (dt_edges T)" using x by (auto simp: workspace_edges_def stored_edges_def)
      have "row_of C x \<in> set erows"
        using x row by (auto simp: ser pcm workspace_edges_def stored_nodes_def row_of_def)
      moreover have "triple (decoded_edge C (row_of C x)) = x"
        using codec_laws.decoded_row(2) [OF C T row] codec_laws.row_of_inj [OF C] by blast
      ultimately show "x \<in> triple ` set edges" by (force simp: edges_def)
    qed
  qed
  let ?order = "add_rest (length edges) (kahn_loop edges (fold push_out (enumerate 0 edges) []) (fold count_in edges Map.empty)
     (filter (\<lambda>id'. fold count_in edges Map.empty id' = Some 0) (ro_keys order (dom (fold count_in edges Map.empty)))) [])"
  have so: "set ?order = {..<length edges}" by (rule insert_order_set)
  have img: "(\<lambda>i. (er_parent_id (edges ! i), er_child_id (edges ! i), er_meta (edges ! i))) ` set ?order = workspace_edges C T ws"
  proof -
    have "set edges = nth edges ` {..<length edges}" by (auto simp: set_conv_nth)
    then have "triple ` set edges = (\<lambda>i. triple (edges ! i)) ` {..<length edges}" by (simp only: image_image)
    then show ?thesis unfolding so triples [symmetric] by (simp only: triple_def)
  qed
  have pairs: "(\<lambda>i. (er_parent_id (edges ! i), er_child_id (edges ! i))) ` set ?order =
      {(p, c). \<exists>m. (p, c, m) \<in> workspace_edges C T ws}"
    unfolding img [symmetric] by force
  have "\<exists>d'. add_edges P edges g ?order = Some (Inr d') \<and> dag_wf P d' \<and>
    dag_nodes P d' = dag_nodes P g \<union> (\<Union>i \<in> set ?order. {er_parent_id (edges ! i), er_child_id (edges ! i)}) \<and>
    set (all_edges P d') = set (all_edges P g) \<union>
      (\<lambda>i. (er_parent_id (edges ! i), er_child_id (edges ! i), er_meta (edges ! i))) ` set ?order"
  proof (rule digraph.add_edges_spec [OF D g(2)])
    show "\<forall>i \<in> set ?order. i < length edges" by (simp add: so)
    show "acyclic (dag_rel P g \<union> (\<lambda>i. (er_parent_id (edges ! i), er_child_id (edges ! i))) ` set ?order)"
      using acyc unfolding pairs digraph.rel_all_edges [OF D] g(3) by simp
    show "inj_on (\<lambda>(a, b, m). (a, b)) (set (all_edges P g) \<union>
      (\<lambda>i. (er_parent_id (edges ! i), er_child_id (edges ! i), er_meta (edges ! i))) ` set ?order)"
      unfolding img g(3) using codec_laws.stored_edges_key [OF C T]
      by (auto simp: inj_on_def workspace_edges_def)
  qed
  then obtain d' where d': "add_edges P edges g ?order = Some (Inr d')" "dag_wf P d'"
    "dag_nodes P d' = dag_nodes P g \<union> (\<Union>i \<in> set ?order. {er_parent_id (edges ! i), er_child_id (edges ! i)})"
    "set (all_edges P d') = workspace_edges C T ws"
    unfolding img g(3) by auto
  have "(\<Union>i \<in> set ?order. {er_parent_id (edges ! i), er_child_id (edges ! i)}) \<subseteq> stored_nodes C T ws"
    using img by (auto simp: workspace_edges_def set_eq_iff image_iff)
  then have "dag_nodes P d' = stored_nodes C T ws" using d'(3) gn by auto
  moreover have "load_graph P C order msg T ws = Some (Inr d')"
    unfolding load_graph_def Let_def nrows_def [symmetric] erows_def [symmetric] g(1) recs sum.case
    by (rule d'(1))
  ultimately show ?thesis using d' by blast
qed

section \<open>The operations on the tables\<close>

text \<open>An edge row stands for exactly one edge; a key is taken when some edge has it.\<close>

context codec_laws begin

lemma edge_taken:
  assumes "tables_ok C T"
  shows "(\<exists>r \<in> set (dt_edges T). eg_parent_id r = uuid_str C p \<and> eg_child_id r = uuid_str C c) \<longleftrightarrow>
    (\<exists>m. (p, c, m) \<in> stored_edges C T)"
proof
  assume "\<exists>r \<in> set (dt_edges T). eg_parent_id r = uuid_str C p \<and> eg_child_id r = uuid_str C c"
  then obtain r where r: "r \<in> set (dt_edges T)" "eg_parent_id r = uuid_str C p" "eg_child_id r = uuid_str C c" by blast
  let ?m = "er_meta (decoded_edge C r)"
  have "triple (decoded_edge C r) = (p, c, ?m)"
    using r(2,3) by (simp add: triple_def decoded_edge_def uuid_roundtrip)
  then have "row_of C (p, c, ?m) = r" using decoded_row(2) [OF assms r(1)] by simp
  then have "(p, c, ?m) \<in> stored_edges C T" using r(1) by (simp add: stored_edges_def)
  then show "\<exists>m. (p, c, m) \<in> stored_edges C T" by blast
qed (force simp: stored_edges_def row_of_def)

lemma node_taken:
  assumes "tables_ok C T"
  shows "(\<exists>r \<in> set (dt_nodes T). nr_branch_id r = uuid_str C u) \<longleftrightarrow> (\<exists>ws. u \<in> stored_nodes C T ws)"
  using assms by (fastforce simp: tables_ok_def stored_nodes_def)

lemma save_node_spec:
  assumes T: "tables_ok C T" and run: "save_node C now T u ws = (T', r)"
  shows "r = Inr () \<and> tables_ok C T' \<and> stored_edges C T' = stored_edges C T \<and>
    stored_nodes C T' ws' = (if ws' = ws \<and> (\<forall>v. u \<notin> stored_nodes C T v) then insert u (stored_nodes C T ws')
      else stored_nodes C T ws')"
proof (cases "\<exists>r \<in> set (dt_nodes T). nr_branch_id r = uuid_str C u")
  case True
  then show ?thesis using T run node_taken [OF T, of u] by (auto simp: save_node_def)
next
  case False
  let ?row = "\<lparr>nr_branch_id = uuid_str C u, nr_workspace_id = uuid_str C ws, nr_added_at = dt_rfc3339 C now\<rparr>"
  have T': "T' = T\<lparr>dt_nodes := dt_nodes T @ [?row]\<rparr>" "r = Inr ()" using False run by (simp_all add: save_node_def)
  have "tables_ok C T'"
    using T False unfolding tables_ok_def T' by auto
  moreover have "stored_nodes C T' ws' = stored_nodes C T ws' \<union> (if ws' = ws then {u} else {})"
    by (auto simp: stored_nodes_def T' uuid_inj)
  ultimately show ?thesis using False T'(2) node_taken [OF T, of u] by (auto simp: stored_edges_def T')
qed

lemma save_edge_spec:
  assumes T: "tables_ok C T" and run: "save_edge C T p c t = (T', r)"
  shows "tables_ok C T' \<and> dt_nodes T' = dt_nodes T \<and>
    (if \<exists>m. (p, c, m) \<in> stored_edges C T then T' = T \<and> r = Inr ()
     else if (\<forall>ws. p \<notin> stored_nodes C T ws) \<or> (\<forall>ws. c \<notin> stored_nodes C T ws) then T' = T \<and> r = Inl foreign_key_failed
     else r = Inr () \<and> stored_edges C T' = insert (p, c, \<lparr>em_forked_at = t, em_merge_cursor = None\<rparr>) (stored_edges C T))"
proof (cases "\<exists>m. (p, c, m) \<in> stored_edges C T")
  case True
  then show ?thesis using T run edge_taken [OF T, of p c] by (auto simp: save_edge_def)
next
  case free: False
  then have no_row: "\<not> (\<exists>r \<in> set (dt_edges T). eg_parent_id r = uuid_str C p \<and> eg_child_id r = uuid_str C c)"
    using edge_taken [OF T, of p c] by blast
  show ?thesis
  proof (cases "(\<forall>ws. p \<notin> stored_nodes C T ws) \<or> (\<forall>ws. c \<notin> stored_nodes C T ws)")
    case True
    then show ?thesis using T run free no_row node_taken [OF T, of p] node_taken [OF T, of c]
      by (auto simp: save_edge_def)
  next
    case False
    let ?e = "(p, c, \<lparr>em_forked_at = t, em_merge_cursor = None\<rparr>)"
    have known: "\<exists>r \<in> set (dt_nodes T). nr_branch_id r = uuid_str C p" "\<exists>r \<in> set (dt_nodes T). nr_branch_id r = uuid_str C c"
      using False node_taken [OF T] by blast+
    have T': "T' = T\<lparr>dt_edges := dt_edges T @ [row_of C ?e]\<rparr>" "r = Inr ()"
      using run no_row known unfolding save_edge_def by (auto simp: row_of_def)
    have key: "(uuid_str C p, uuid_str C c) \<notin> (\<lambda>e. (eg_parent_id e, eg_child_id e)) ` set (dt_edges T)"
      using no_row by auto
    have sel: "eg_parent_id (row_of C ?e) = uuid_str C p" "eg_child_id (row_of C ?e) = uuid_str C c"
      "eg_forked_at (row_of C ?e) = dt_rfc3339 C t" by (simp_all add: row_of_def)
    have row: "edge_row_ok C (row_of C ?e)" unfolding edge_row_ok_def sel by blast
    have known': "uuid_str C p \<in> nr_branch_id ` set (dt_nodes T)" "uuid_str C c \<in> nr_branch_id ` set (dt_nodes T)"
      using known by (metis image_eqI)+
    have edges: "dt_edges T' = dt_edges T @ [row_of C ?e]" and nodes: "dt_nodes T' = dt_nodes T" by (simp_all add: T')
    have "tables_ok C T'"
      using T key row known' unfolding tables_ok_def edges nodes by (simp add: sel)
    moreover have "stored_edges C T' = insert ?e (stored_edges C T)"
      by (auto simp: stored_edges_def T' row_of_inj)
    ultimately show ?thesis using False free T' by (simp only: if_False simp_thms) (simp add: T')
  qed
qed

lemma delete_node_spec:
  assumes T: "tables_ok C T" and run: "delete_node C T u = (T', r)"
  shows "r = Inr () \<and> tables_ok C T' \<and> stored_nodes C T' ws = stored_nodes C T ws - {u} \<and>
    stored_edges C T' = {(p, c, m) \<in> stored_edges C T. p \<noteq> u \<and> c \<noteq> u}"
proof -
  have T': "T' = T\<lparr>dt_edges := filter (\<lambda>r. \<not> (eg_parent_id r = uuid_str C u \<or> eg_child_id r = uuid_str C u)) (dt_edges T),
      dt_nodes := filter (\<lambda>r. nr_branch_id r \<noteq> uuid_str C u) (dt_nodes T)\<rparr>" "r = Inr ()"
    using run by (auto simp: delete_node_def Let_def)
  have "tables_ok C T'"
    using T unfolding tables_ok_def T' by (force simp: distinct_map_filter)
  moreover have "stored_nodes C T' ws = stored_nodes C T ws - {u}"
    by (auto simp: stored_nodes_def T' uuid_inj)
  moreover have "stored_edges C T' = {(p, c, m) \<in> stored_edges C T. p \<noteq> u \<and> c \<noteq> u}"
    by (auto simp: stored_edges_def T' row_of_def uuid_inj)
  ultimately show ?thesis using T'(2) by blast
qed

lemma update_cursor_spec:
  assumes T: "tables_ok C T" and run: "update_edge_cursor C T p c cursor = (T', r)"
  shows "r = Inr () \<and> tables_ok C T' \<and> dt_nodes T' = dt_nodes T \<and>
    stored_edges C T' = (\<lambda>(a, b, m). if a = p \<and> b = c then (a, b, m\<lparr>em_merge_cursor := Some cursor\<rparr>) else (a, b, m)) ` stored_edges C T"
proof -
  let ?f = "\<lambda>r. if eg_parent_id r = uuid_str C p \<and> eg_child_id r = uuid_str C c then r\<lparr>eg_merge_cursor := Some cursor\<rparr> else r"
  let ?g = "\<lambda>(a, b, m). if a = p \<and> b = c then (a, b, m\<lparr>em_merge_cursor := Some cursor\<rparr>) else (a, b, m)"
  have T': "T' = T\<lparr>dt_edges := map ?f (dt_edges T)\<rparr>" "r = Inr ()" using run by (auto simp: update_edge_cursor_def)
  have fields: "eg_parent_id (?f r) = eg_parent_id r" "eg_child_id (?f r) = eg_child_id r"
    "eg_forked_at (?f r) = eg_forked_at r" for r by simp_all
  have edges: "dt_edges T' = map ?f (dt_edges T)" and nodes: "dt_nodes T' = dt_nodes T" by (simp_all add: T')
  have "tables_ok C T'"
    using T unfolding tables_ok_def edges nodes edge_row_ok_def list.set_map image_image fields map_map comp_def ball_simps
    by blast
  moreover have fg: "?f (row_of C x) = row_of C (?g x)" for x
    by (cases x) (auto simp: row_of_def uuid_inj)
  have "stored_edges C T' = ?g ` stored_edges C T"
  proof
    show "?g ` stored_edges C T \<subseteq> stored_edges C T'"
    proof
      fix y assume "y \<in> ?g ` stored_edges C T"
      then obtain x where x: "y = ?g x" "row_of C x \<in> set (dt_edges T)" by (auto simp only: stored_edges_def image_iff Bex_def mem_Collect_eq)
      then have "row_of C y \<in> ?f ` set (dt_edges T)" unfolding x(1) fg [symmetric] by (intro imageI x(2))
      then show "y \<in> stored_edges C T'" by (simp add: stored_edges_def T')
    qed
    show "stored_edges C T' \<subseteq> ?g ` stored_edges C T"
    proof
      fix y assume "y \<in> stored_edges C T'"
      then obtain r where r: "r \<in> set (dt_edges T)" "row_of C y = ?f r" unfolding stored_edges_def edges list.set_map by blast
      let ?x = "triple (decoded_edge C r)"
      have x: "row_of C ?x = r" by (rule decoded_row(2) [OF T r(1)])
      have "row_of C y = row_of C (?g ?x)" by (rule trans [OF r(2) fg [of ?x, unfolded x]])
      then have "y = ?g ?x" by (simp only: row_of_inj)
      moreover have "?x \<in> stored_edges C T" using x r(1) by (simp add: stored_edges_def)
      ultimately show "y \<in> ?g ` stored_edges C T" by blast
    qed
  qed
  ultimately show ?thesis using T' by simp
qed

end

section \<open>Graphviz\<close>

definition newline :: string where
  "newline = [CHR 0x0A]"

definition quoted :: "string \<Rightarrow> string" where
  "quoted s = CHR 0x22 # s @ [CHR 0x22]"

definition status_colors :: "branch_status \<Rightarrow> string \<times> string" where
  "status_colors s =
     (case s of
        Active \<Rightarrow> (''green'', ''lightgreen'')
      | Dormant \<Rightarrow> (''goldenrod'', ''lightyellow'')
      | Merged _ _ \<Rightarrow> (''blue'', ''lightblue'')
      | Discarded _ \<Rightarrow> (''red'', ''lightpink'')
      | Archived \<Rightarrow> (''gray'', ''lightgray'')
      | Orphan \<Rightarrow> (''orange'', ''moccasin'')
      | Purged \<Rightarrow> (''black'', ''white''))"

definition sanitize_dot_label :: "string \<Rightarrow> string" where
  "sanitize_dot_label s =
     map (\<lambda>c. if c = CHR 0x5C then CHR ''/'' else c) (map (\<lambda>c. if c = CHR 0x22 then CHR 0x27 else c) s)"

text \<open>A sanitised label cannot end the quoted attribute it stands in.\<close>

lemma sanitized: "CHR 0x22 \<notin> set (sanitize_dot_label s) \<and> CHR 0x5C \<notin> set (sanitize_dot_label s)"
  by (auto simp: sanitize_dot_label_def)

definition dot_node :: "codec \<Rightarrow> branch branch_result \<Rightarrow> uuid \<Rightarrow> string" where
  "dot_node C found node_id =
     (let (label, color, fill_color) =
        (case found of
           Inr b \<Rightarrow>
             let (color, fill) = status_colors (br_status b)
             in (sanitize_dot_label (br_name b) @ '' ('' @ kind (br_status b) @ '')'', color, fill)
         | Inl _ \<Rightarrow> (uuid_str C node_id, ''black'', ''white''))
      in ''    '' @ quoted (uuid_str C node_id) @ '' [label='' @ quoted label @ '' color='' @ color @
         '' style=filled fillcolor='' @ fill_color @ ''];'' @ newline)"

definition dot_edge :: "codec \<Rightarrow> (datetime \<Rightarrow> string) \<Rightarrow> uuid \<times> uuid \<times> edge_meta \<Rightarrow> string" where
  "dot_edge C date = (\<lambda>(parent_id, child_id, meta).
     ''    '' @ quoted (uuid_str C parent_id) @ '' -> '' @ quoted (uuid_str C child_id) @
     '' [label='' @ quoted (date (em_forked_at meta)) @ ''];'' @ newline)"

definition export_dot ::
    "'g petgraph \<Rightarrow> codec \<Rightarrow> text_codec \<Rightarrow> sql_order \<Rightarrow> (datetime \<Rightarrow> string) \<Rightarrow> uuid \<Rightarrow> 'g dag \<Rightarrow> registry \<Rightarrow>
     string branch_result" where
  "export_dot P C K Q date workspace_id g R =
     Inr (''digraph claw_branch_lineage {'' @ newline @
       ''    graph [label='' @ quoted (''workspace: '' @ uuid_str C workspace_id) @ '' fontsize=12];'' @ newline @
       ''    node [shape=box fontsize=10];'' @ newline @ newline @
       concat (map (\<lambda>node_id. dot_node C (store_get C K Q R workspace_id node_id) node_id) (all_nodes P g)) @
       newline @ concat (map (dot_edge C date) (all_edges P g)) @ ''}'' @ newline)"

section \<open>Properties\<close>

text \<open>
  C38: loading a workspace from its tables succeeds and gives a well-formed graph with exactly the stored
  nodes of the workspace and the stored edges between them, with their data, whatever the order of the
  rows and of the hash map that drives the insertion, when those edges have no cycle.
\<close>

theorem load_graph_correct:
  assumes "digraph P" and "codec_laws C" and "row_order_ok order" and "tables_ok C T"
    and "acyclic {(p, c). \<exists>m. (p, c, m) \<in> workspace_edges C T ws}"
  shows "\<exists>g. load_graph P C order msg T ws = Some (Inr g) \<and> dag_wf P g \<and>
    dag_nodes P g = stored_nodes C T ws \<and> set (all_edges P g) = workspace_edges C T ws"
  by (rule load_graph_spec [OF assms])

definition sample_tables :: dag_tables where
  "sample_tables =
     \<lparr>dt_nodes = [\<lparr>nr_branch_id = uuid_str decimal_codec 1, nr_workspace_id = uuid_str decimal_codec 0, nr_added_at = []\<rparr>,
        \<lparr>nr_branch_id = uuid_str decimal_codec 2, nr_workspace_id = uuid_str decimal_codec 0, nr_added_at = []\<rparr>],
      dt_edges = [row_of decimal_codec (1, 2, \<lparr>em_forked_at = 5, em_merge_cursor = None\<rparr>)]\<rparr>"

definition plain_order :: row_order where
  "plain_order = \<lparr>ro_nodes = (\<lambda>xs. xs), ro_edges = rev, ro_keys = (\<lambda>_. [])\<rparr>"

lemma sample_tables_spec:
  "tables_ok decimal_codec sample_tables" "stored_nodes decimal_codec sample_tables 0 = {1, 2}"
  "stored_edges decimal_codec sample_tables = {(1, 2, \<lparr>em_forked_at = 5, em_merge_cursor = None\<rparr>)}"
proof -
  show "tables_ok decimal_codec sample_tables"
    by (auto simp: tables_ok_def edge_row_ok_def sample_tables_def row_of_def decimal.uuid_inj decimal.rfc3339_inj)
  show "stored_nodes decimal_codec sample_tables 0 = {1, 2}"
    by (auto simp: stored_nodes_def sample_tables_def decimal.uuid_inj)
  show "stored_edges decimal_codec sample_tables = {(1, 2, \<lparr>em_forked_at = 5, em_merge_cursor = None\<rparr>)}"
    by (auto simp: stored_edges_def sample_tables_def decimal.row_of_inj simp del: split_paired_All)
qed

theorem load_graph_correct_witness:
  "\<exists>g. load_graph list_pg decimal_codec plain_order (\<lambda>s. s) sample_tables 0 = Some (Inr g) \<and> dag_nodes list_pg g = {1, 2} \<and>
     set (all_edges list_pg g) = {(1, 2, \<lparr>em_forked_at = 5, em_merge_cursor = None\<rparr>)}"
proof -
  have o: "row_order_ok plain_order" by (simp add: row_order_ok_def plain_order_def)
  have e: "workspace_edges decimal_codec sample_tables 0 = {(1, 2, \<lparr>em_forked_at = 5, em_merge_cursor = None\<rparr>)}"
    by (auto simp: workspace_edges_def sample_tables_spec)
  have "{(p, c). \<exists>m. (p, c, m) \<in> workspace_edges decimal_codec sample_tables 0} = {(1, 2)}" by (auto simp: e)
  moreover have "acyclic {(1 :: uuid, 2 :: uuid)}" unfolding acyclic_insert by (simp add: acyclic_def)
  ultimately have a: "acyclic {(p, c). \<exists>m. (p, c, m) \<in> workspace_edges decimal_codec sample_tables 0}" by (simp only:)
  show ?thesis
    using load_graph_correct [OF lists.digraph_axioms decimal.codec_laws_axioms o sample_tables_spec(1) a, of "\<lambda>s. s"]
    by (auto simp: e sample_tables_spec(2))
qed

text \<open>
  C39: the tables implement a set of nodes per workspace and a set of edges with their data. Saving adds
  what is new, keeps what is there, and refuses an edge to an unknown node; deleting a node removes it
  with its edges; a cursor update changes the data of one edge. The tables stay in order.
\<close>

theorem persistence_refines:
  assumes "codec_laws C" and "tables_ok C T"
  shows "(case save_node C now T u ws of (T', r) \<Rightarrow> r = Inr () \<and> tables_ok C T' \<and> stored_edges C T' = stored_edges C T \<and>
      stored_nodes C T' ws' = (if ws' = ws \<and> (\<forall>v. u \<notin> stored_nodes C T v) then insert u (stored_nodes C T ws')
        else stored_nodes C T ws')) \<and>
    (case save_edge C T p c t of (T', r) \<Rightarrow> tables_ok C T' \<and> dt_nodes T' = dt_nodes T \<and>
      (if \<exists>m. (p, c, m) \<in> stored_edges C T then T' = T \<and> r = Inr ()
       else if (\<forall>ws. p \<notin> stored_nodes C T ws) \<or> (\<forall>ws. c \<notin> stored_nodes C T ws) then T' = T \<and> r = Inl foreign_key_failed
       else r = Inr () \<and> stored_edges C T' = insert (p, c, \<lparr>em_forked_at = t, em_merge_cursor = None\<rparr>) (stored_edges C T))) \<and>
    (case delete_node C T u of (T', r) \<Rightarrow> r = Inr () \<and> tables_ok C T' \<and> stored_nodes C T' ws = stored_nodes C T ws - {u} \<and>
      stored_edges C T' = {(p, c, m) \<in> stored_edges C T. p \<noteq> u \<and> c \<noteq> u}) \<and>
    (case update_edge_cursor C T p c cursor of (T', r) \<Rightarrow> r = Inr () \<and> tables_ok C T' \<and> dt_nodes T' = dt_nodes T \<and>
      stored_edges C T' = (\<lambda>(a, b, m). if a = p \<and> b = c then (a, b, m\<lparr>em_merge_cursor := Some cursor\<rparr>) else (a, b, m)) `
        stored_edges C T)"
proof -
  obtain T1 r1 T2 r2 T3 r3 T4 r4 where
    runs: "save_node C now T u ws = (T1, r1)" "save_edge C T p c t = (T2, r2)" "delete_node C T u = (T3, r3)"
      "update_edge_cursor C T p c cursor = (T4, r4)" by (metis surj_pair)
  show ?thesis unfolding runs prod.case
    by (intro codec_laws.save_node_spec [OF assms runs(1)] codec_laws.save_edge_spec [OF assms runs(2)]
        codec_laws.delete_node_spec [OF assms runs(3)] codec_laws.update_cursor_spec [OF assms runs(4)]
        conjI [OF codec_laws.save_node_spec [OF assms runs(1)]] conjI [OF codec_laws.save_edge_spec [OF assms runs(2)]]
        conjI [OF codec_laws.delete_node_spec [OF assms runs(3)]])
qed

theorem persistence_refines_witness:
  "(case save_edge decimal_codec sample_tables 1 3 7 of (T', r) \<Rightarrow> T' = sample_tables \<and> r = Inl foreign_key_failed) \<and>
   (case delete_node decimal_codec sample_tables 1 of (T', r) \<Rightarrow> stored_edges decimal_codec T' = {})"
proof -
  have no: "3 \<notin> stored_nodes decimal_codec sample_tables ws" for ws
    by (auto simp: stored_nodes_def sample_tables_def decimal.uuid_inj)
  note ops = persistence_refines [OF decimal.codec_laws_axioms sample_tables_spec(1)]
  from ops [where p = 1 and c = 3 and t = 7, THEN conjunct2, THEN conjunct1]
  have "case save_edge decimal_codec sample_tables 1 3 7 of (T', r) \<Rightarrow> T' = sample_tables \<and> r = Inl foreign_key_failed"
    by (auto simp: no sample_tables_spec(3) split: if_splits)
  moreover from ops [where u = 1, THEN conjunct2, THEN conjunct2, THEN conjunct1]
  have "case delete_node decimal_codec sample_tables 1 of (T', r) \<Rightarrow> stored_edges decimal_codec T' = {}"
    by (auto simp: sample_tables_spec(3))
  ultimately show ?thesis ..
qed

end
