(* ===== verification/Formatter.thy ===== *)
theory Formatter
  imports Merge
begin

text \<open>
  The texts of \<open>src/diff/formatter.rs\<close>. A string is its UTF-8 bytes. The printed forms of identifiers (the
  codec), of JSON values (the printer), of dates and of numbers with a given count of decimals are arguments;
  \<open>format_diff_json\<close> is the derived serializer and is not modelled.
\<close>

record number_format =
  nf_date :: "datetime \<Rightarrow> string"
  nf_fixed :: "nat \<Rightarrow> real \<Rightarrow> string"

definition newline :: string where
  "newline = [CHR 0x0A]"

text \<open>The arrow between two sides.\<close>

definition arrow :: string where
  "arrow = '' '' @ map char_of [226 :: nat, 134, 146] @ '' ''"

definition show_u32 :: "u32 \<Rightarrow> string" where
  "show_u32 n = show_nat (unat n)"

definition format_field_diff :: "json_printer \<Rightarrow> field_diff \<Rightarrow> string" where
  "format_field_diff J fd = fd_field fd @ '': '' @ jp_value J (fd_before fd) @ arrow @ jp_value J (fd_after fd)"

definition human_header :: "codec \<Rightarrow> number_format \<Rightarrow> diff_result \<Rightarrow> string" where
  "human_header C N d =
     ''diff '' @ uuid_str C (dr_branch_a_id d) @ arrow @ uuid_str C (dr_branch_b_id d) @ newline @
     ''  compared_at : '' @ nf_date N (dr_compared_at d) @ newline @
     ''  divergence  : '' @ nf_fixed N 4 (dr_divergence_score d) @ newline @
     ''  stats       : +'' @ show_u32 (ds_added (dr_stats d)) @ '' -'' @ show_u32 (ds_removed (dr_stats d)) @
     ''  ~'' @ show_u32 (ds_modified (dr_stats d)) @ ''  ='' @ show_u32 (ds_unchanged (dr_stats d)) @ newline @ newline"

definition human_entity :: "json_printer \<Rightarrow> entity_diff \<Rightarrow> string" where
  "human_entity J ed =
     (if ed_diff_kind ed = Unchanged then []
      else
        let tag = (case ed_diff_kind ed of
              Added \<Rightarrow> ''[+]'' | Removed \<Rightarrow> ''[-]'' | Modified \<Rightarrow> ''[~]'' | Unchanged \<Rightarrow> ''[=]'')
        in tag @ '' '' @ ed_entity_id ed @ '' ('' @ debug_name (ed_entity_type ed) @ '')'' @ newline @
           concat (map (\<lambda>fd. ''    '' @ format_field_diff J fd @ newline) (ed_field_diffs ed)))"

definition format_diff_human :: "codec \<Rightarrow> json_printer \<Rightarrow> number_format \<Rightarrow> diff_result \<Rightarrow> string" where
  "format_diff_human C J N d =
     foldl (\<lambda>out ed. out @ human_entity J ed) (human_header C N d) (dr_entity_diffs d)"

definition format_text :: "codec \<Rightarrow> number_format \<Rightarrow> diff_result \<Rightarrow> string" where
  "format_text C N d =
     ''diff '' @ uuid_str C (dr_branch_a_id d) @ arrow @ uuid_str C (dr_branch_b_id d) @ '': '' @
     show_u32 (ds_total_entities (dr_stats d)) @ '' entities, divergence '' @ nf_fixed N 3 (dr_divergence_score d)"

section \<open>What the texts show\<close>

lemma foldl_append: "foldl (\<lambda>out x. out @ f x) out xs = out @ concat (map f xs)"
  by (induction xs arbitrary: out) simp_all

lemma human_entity_shown: "human_entity J ed = [] \<longleftrightarrow> ed_diff_kind ed = Unchanged"
  by (simp add: human_entity_def newline_def)

text \<open>
  Of the diff of two existing databases the human text is the bare header exactly when the summary calls the
  branches identical, which is exactly when no entity of either differs.
\<close>

theorem human_text_identical:
  assumes "hash_order ho"
    and "fs (br_db_path branch_a) = Some db_a" and "fs (br_db_path branch_b) = Some db_b"
    and "diff ho now fs branch_a branch_b types = Some (Inr d)" and "length (dr_entity_diffs d) < 2 ^ 32"
  shows "(format_diff_human C J N d = human_header C N d \<longleftrightarrow> sm_is_identical (summarise_diff d)) \<and>
    (sm_is_identical (summarise_diff d) \<longleftrightarrow> (\<forall>ed \<in> set (dr_entity_diffs d). ed_diff_kind ed = Unchanged))"
proof -
  have c: "counted (dr_entity_diffs d) (dr_stats d)"
    using diff_eq [where types = types and now = now, OF assms(1-3)] assms(4) by auto
  have "sm_is_identical (summarise_diff d) \<longleftrightarrow> (\<forall>ed \<in> set (dr_entity_diffs d). ed_diff_kind ed = Unchanged)"
    unfolding counted_zero [OF c assms(5), symmetric] by (auto simp: summarise_diff_def Let_def)
  moreover have "format_diff_human C J N d = human_header C N d \<longleftrightarrow>
      (\<forall>ed \<in> set (dr_entity_diffs d). ed_diff_kind ed = Unchanged)"
    by (simp add: format_diff_human_def foldl_append human_entity_shown)
  ultimately show ?thesis by blast
qed

end
