(* ===== verification/Metrics.thy ===== *)
theory Metrics
  imports Collector Diff
begin

text \<open>
  \<open>src/metrics\<close>: the scores of \<open>divergence.rs\<close>, the tracker that refreshes and counts (\<open>tracker.rs\<close>), and the
  report over a workspace (\<open>reporter.rs\<close>).
\<close>

section \<open>Scores\<close>

definition compute_score :: "diff_result \<Rightarrow> u64 \<Rightarrow> real" where
  "compute_score d base_entity_count =
     (let numerator = real (unat (ds_added (dr_stats d))) + real (unat (ds_removed (dr_stats d))) +
            real (unat (ds_modified (dr_stats d))) * (1 / 2);
          denominator = real (unat (max base_entity_count 1))
      in min (numerator / denominator) 1)"

definition divergence_label :: "real \<Rightarrow> string" where
  "divergence_label s =
     (if s = 0 then ''identical''
      else if s \<le> 5 / 100 then ''minimal''
      else if s \<le> 25 / 100 then ''moderate''
      else if s \<le> 75 / 100 then ''significant''
      else ''diverged'')"

definition time_weighted_score :: "real \<Rightarrow> real \<Rightarrow> real \<Rightarrow> real" where
  "time_weighted_score s age_days decay_factor = s * exp (- age_days * decay_factor)"

section \<open>The tracker\<close>

datatype op_kind = OpInsert | OpUpdate | OpDelete

text \<open>The databases in the files of a disk.\<close>

definition files_of :: "'h host \<Rightarrow> disk \<Rightarrow> file_system" where
  "files_of H d p = map_option (sq_db H) (read_file d p)"

text \<open>\<open>tracker.rs\<close> counts a missing table as empty.\<close>

definition tracker_count_table :: "branch_db \<Rightarrow> entity_type \<Rightarrow> int" where
  "tracker_count_table db t = (case db t of None \<Rightarrow> 0 | Some tb \<Rightarrow> int (length (tb_rows tb)))"

definition refreshed_divergence ::
    "('g, 'h) services \<Rightarrow> (string set \<Rightarrow> string list) \<Rightarrow> datetime \<Rightarrow> 'g world \<Rightarrow> branch \<Rightarrow> real option" where
  "refreshed_divergence S ho now w b =
     (case br_parent_id b of
        None \<Rightarrow> Some 0
      | Some parent_id \<Rightarrow>
          (case sv_get S (wd_registry w) (cf_workspace_id (sv_config S)) parent_id of
             Inl _ \<Rightarrow> Some (divergence_score (br_metrics b))
           | Inr parent \<Rightarrow>
               (case diff ho now (files_of (sv_host S) (wd_disk w)) b parent None of
                  None \<Rightarrow> None
                | Some (Inl _) \<Rightarrow> Some (divergence_score (br_metrics b))
                | Some (Inr d) \<Rightarrow>
                    let base_count = memory_record_count (br_metrics parent) + session_count (br_metrics parent) +
                          tool_output_count (br_metrics parent)
                    in Some (compute_score d (of_int base_count)))))"

text \<open>\<open>clock k\<close> and \<open>clock (k + 1)\<close> are the readings of one refresh; \<open>None\<close> is a panic of the diff.\<close>

definition refresh ::
    "('g, 'h) services \<Rightarrow> (string set \<Rightarrow> string list) \<Rightarrow> (nat \<Rightarrow> datetime) \<Rightarrow> nat \<Rightarrow> 'g world \<Rightarrow> branch \<Rightarrow>
     ('g world \<times> branch_metrics branch_result) option" where
  "refresh S ho clock k w b =
     (case open_pool (files_of (sv_host S) (wd_disk w)) (br_db_path b) of
        Inl e \<Rightarrow> Some (w, Inl e)
      | Inr pool \<Rightarrow>
          (case refreshed_divergence S ho (clock k) w b of
             None \<Rightarrow> None
           | Some score' \<Rightarrow>
               let metrics = \<lparr>op_count = count_commits (sv_codec S) (wd_registry w) (br_id b),
                     memory_record_count = tracker_count_table pool MemoryRecord,
                     session_count = tracker_count_table pool Session,
                     tool_output_count = tracker_count_table pool ToolOutput,
                     bytes_on_disk = size_or_zero (wd_disk w) (br_db_path b),
                     divergence_score = score',
                     created_entity_count = created_entity_count (br_metrics b),
                     updated_entity_count = updated_entity_count (br_metrics b),
                     deleted_entity_count = deleted_entity_count (br_metrics b),
                     last_activity_at = last_activity_at (br_metrics b)\<rparr>
               in Some (case store_update_metrics (sv_codec S) (clock (k + 1)) (wd_registry w) (br_id b) metrics of
                    (R, Inl e) \<Rightarrow> (w\<lparr>wd_registry := R\<rparr>, Inl e)
                  | (R, Inr _) \<Rightarrow> (w\<lparr>wd_registry := R\<rparr>, Inr metrics))))"

fun refresh_loop ::
    "('g, 'h) services \<Rightarrow> (string set \<Rightarrow> string list) \<Rightarrow> (nat \<Rightarrow> datetime) \<Rightarrow> nat \<Rightarrow> 'g world \<Rightarrow> (uuid \<rightharpoonup> branch_metrics) \<Rightarrow>
     branch list \<Rightarrow> ('g world \<times> (uuid \<rightharpoonup> branch_metrics) branch_result) option" where
  "refresh_loop S ho clock k w result [] = Some (w, Inr result)"
| "refresh_loop S ho clock k w result (b # bs) =
     (case refresh S ho clock k w b of
        None \<Rightarrow> None
      | Some (w, Inl e) \<Rightarrow> Some (w, Inl e)
      | Some (w, Inr metrics) \<Rightarrow> refresh_loop S ho clock (k + 2) w (result(br_id b \<mapsto> metrics)) bs)"

definition refresh_all ::
    "('g, 'h) services \<Rightarrow> (string set \<Rightarrow> string list) \<Rightarrow> (nat \<Rightarrow> datetime) \<Rightarrow> 'g world \<Rightarrow> uuid \<Rightarrow>
     ('g world \<times> (uuid \<rightharpoonup> branch_metrics) branch_result) option" where
  "refresh_all S ho clock w workspace_id =
     (case store_list (sv_codec S) (sv_text S) (sv_order S) (wd_registry w) workspace_id None of
        Inl e \<Rightarrow> Some (w, Inl e)
      | Inr branches \<Rightarrow> refresh_loop S ho clock 0 w Map.empty branches)"

definition track_op ::
    "('g, 'h) services \<Rightarrow> (nat \<Rightarrow> datetime) \<Rightarrow> 'g world \<Rightarrow> uuid \<Rightarrow> op_kind \<Rightarrow> 'g world \<times> unit branch_result" where
  "track_op S clock w branch_id op =
     (case sv_get S (wd_registry w) (cf_workspace_id (sv_config S)) branch_id of
        Inl e \<Rightarrow> (w, Inl e)
      | Inr b \<Rightarrow>
          let m = br_metrics b;
              m = m\<lparr>op_count := op_count m + 1, last_activity_at := Some (clock 0)\<rparr>;
              m = (case op of
                     OpInsert \<Rightarrow> m\<lparr>created_entity_count := created_entity_count m + 1\<rparr>
                   | OpUpdate \<Rightarrow> m\<lparr>updated_entity_count := updated_entity_count m + 1\<rparr>
                   | OpDelete \<Rightarrow> m\<lparr>deleted_entity_count := deleted_entity_count m + 1\<rparr>)
          in case store_update_metrics (sv_codec S) (clock 1) (wd_registry w) branch_id m of
               (R, r) \<Rightarrow> (w\<lparr>wd_registry := R\<rparr>, r))"

section \<open>The report\<close>

record workspace_report =
  wr_branch_count :: u32
  wr_total_disk_bytes :: u64
  wr_avg_divergence_score :: real
  wr_most_active_branch :: "uuid option"
  wr_stale_branch_ids :: "uuid list"
  wr_report_at :: datetime

text \<open>\<open>Iterator::max_by_key\<close>: the last of the greatest elements.\<close>

definition max_by_key :: "('a \<Rightarrow> 'k::linorder) \<Rightarrow> 'a list \<Rightarrow> 'a option" where
  "max_by_key key xs =
     foldl (\<lambda>best x. case best of None \<Rightarrow> Some x | Some y \<Rightarrow> if key y \<le> key x then Some x else Some y) None xs"

definition stale :: "datetime \<Rightarrow> branch \<Rightarrow> bool" where
  "stale cutoff b = (case last_activity_at (br_metrics b) of Some t \<Rightarrow> t < cutoff | None \<Rightarrow> True)"

definition make_workspace_report ::
    "('g, 'h) services \<Rightarrow> (datetime \<Rightarrow> int \<Rightarrow> datetime option) \<Rightarrow> (nat \<Rightarrow> datetime) \<Rightarrow> 'g world \<Rightarrow> uuid \<Rightarrow>
     workspace_report branch_result option" where
  "make_workspace_report S sub_secs clock w workspace_id =
     (case store_list (sv_codec S) (sv_text S) (sv_order S) (wd_registry w) workspace_id None of
        Inl e \<Rightarrow> Some (Inl e)
      | Inr branches \<Rightarrow>
          let live = filter (\<lambda>b. is_live (br_status b)) branches
          in case sub_secs (clock 0) (7 * 86400) of
               None \<Rightarrow> None
             | Some stale_cutoff \<Rightarrow>
                 Some (Inr \<lparr>wr_branch_count = of_nat (length live),
                   wr_total_disk_bytes = sum_list (map (\<lambda>b. bytes_on_disk (br_metrics b)) live),
                   wr_avg_divergence_score =
                     (if live = [] then 0
                      else sum_list (map (\<lambda>b. divergence_score (br_metrics b)) live) / real (length live)),
                   wr_most_active_branch = map_option br_id (max_by_key (\<lambda>b. op_count (br_metrics b)) live),
                   wr_stale_branch_ids = map br_id (filter (stale stale_cutoff) live),
                   wr_report_at = clock 1\<rparr>))"

section \<open>Facts\<close>

lemma compute_score_bounds: "0 \<le> compute_score d n" "compute_score d n \<le> 1"
proof -
  have "0 \<le> (real a + real b + real c * (1 / 2)) / real e" for a b c e by simp
  then show "0 \<le> compute_score d n" "compute_score d n \<le> 1"
    unfolding compute_score_def Let_def by (intro min.boundedI zero_le_one, assumption) (rule min.cobounded2)
qed

lemma max_by_key_append:
  "max_by_key key (xs @ [x]) = (case max_by_key key xs of None \<Rightarrow> Some x | Some y \<Rightarrow> if key y \<le> key x then Some x else Some y)"
  by (simp add: max_by_key_def)

lemma max_by_key_spec:
  "case max_by_key key xs of
     None \<Rightarrow> xs = []
   | Some y \<Rightarrow> \<exists>pre post. xs = pre @ y # post \<and> (\<forall>x \<in> set pre. key x \<le> key y) \<and> (\<forall>x \<in> set post. key x < key y)"
proof (induction xs rule: rev_induct)
  case Nil
  then show ?case by (simp add: max_by_key_def)
next
  case (snoc x xs)
  show ?case
  proof (cases "max_by_key key xs")
    case None
    then have "xs = []" using snoc by simp
    then show ?thesis unfolding max_by_key_append None option.case by (intro exI [of _ "[]"]) simp
  next
    case (Some y)
    with snoc obtain pre post where p: "xs = pre @ y # post" "\<forall>x \<in> set pre. key x \<le> key y" "\<forall>x \<in> set post. key x < key y"
      by auto
    show ?thesis
    proof (cases "key y \<le> key x")
      case le: True
      then have "\<forall>z \<in> set xs. key z \<le> key x" using p by force
      then show ?thesis unfolding max_by_key_append Some option.case if_P [OF le]
        by (intro exI [of _ xs] exI [of _ "[]"]) simp
    next
      case False
      then show ?thesis unfolding max_by_key_append Some option.case if_not_P [OF False]
        using p by (intro exI [of _ pre] exI [of _ "post @ [x]"]) auto
    qed
  qed
qed

text \<open>Writing the metrics of a branch changes only these.\<close>

lemma metrics_write:
  assumes ok: "services_ok S" and w: "world_ok S w" and b: "sv_branches S w i = Some b"
    and u: "store_update_metrics (sv_codec S) now (wd_registry w) i m = (R, r)"
  shows "r = Inr ()" and "world_ok S (w\<lparr>wd_registry := R\<rparr>)"
    and "sv_branches S (w\<lparr>wd_registry := R\<rparr>) = (sv_branches S w)(i \<mapsto> b\<lparr>br_metrics := m\<rparr>)"
    and "rg_commits R = rg_commits (wd_registry w)"
proof -
  from store_env.metrics_spec [OF services_okD(1) [OF ok] world_okD(1) [OF w] u] b have
    R: "registry_ok (sv_codec S) (sv_text S) R" "rg_commits R = rg_commits (wd_registry w)"
      "branches_of (sv_codec S) (sv_text S) R = (sv_branches S w)(i \<mapsto> b\<lparr>br_metrics := m\<rparr>)" "r = Inr ()"
    by simp_all
  show "r = Inr ()" "rg_commits R = rg_commits (wd_registry w)" by (rule R)+
  show br: "sv_branches S (w\<lparr>wd_registry := R\<rparr>) = (sv_branches S w)(i \<mapsto> b\<lparr>br_metrics := m\<rparr>)" using R(3) by simp
  show "world_ok S (w\<lparr>wd_registry := R\<rparr>)"
    using w b R(1) unfolding world_ok_def br by auto
qed

lemma refresh_spec:
  assumes ok: "services_ok S" and w: "world_ok S w" and ho: "hash_order ho"
    and c: "sv_branches S w (br_id b) = Some c" and f: "read_file (wd_disk w) (br_db_path b) = Some f"
  defines "pool \<equiv> sq_db (sv_host S) f"
  shows "\<exists>w' m. refresh S ho clock k w b = Some (w', Inr m) \<and> world_ok S w' \<and> wd_dag w' = wd_dag w \<and> wd_disk w' = wd_disk w \<and>
    rg_commits (wd_registry w') = rg_commits (wd_registry w) \<and>
    sv_branches S w' = (sv_branches S w)(br_id b \<mapsto> c\<lparr>br_metrics := m\<rparr>) \<and>
    op_count m = count_commits (sv_codec S) (wd_registry w) (br_id b) \<and>
    memory_record_count m = tracker_count_table pool MemoryRecord \<and> session_count m = tracker_count_table pool Session \<and>
    tool_output_count m = tracker_count_table pool ToolOutput \<and> bytes_on_disk m = of_nat (length f) \<and>
    (divergence_score m = divergence_score (br_metrics b) \<or> 0 \<le> divergence_score m \<and> divergence_score m \<le> 1) \<and>
    created_entity_count m = created_entity_count (br_metrics b) \<and> updated_entity_count m = updated_entity_count (br_metrics b) \<and>
    deleted_entity_count m = deleted_entity_count (br_metrics b) \<and> last_activity_at m = last_activity_at (br_metrics b)"
proof -
  let ?fs = "files_of (sv_host S) (wd_disk w)"
  have pool: "open_pool ?fs (br_db_path b) = Inr pool"
    by (simp add: open_pool_def files_of_def f pool_def)
  obtain s where s: "refreshed_divergence S ho (clock k) w b = Some s"
    "s = divergence_score (br_metrics b) \<or> 0 \<le> s \<and> s \<le> 1"
  proof (cases "br_parent_id b")
    case None
    then show ?thesis using that [of 0] by (simp add: refreshed_divergence_def)
  next
    case (Some p)
    show ?thesis
    proof (cases "sv_get S (wd_registry w) (cf_workspace_id (sv_config S)) p")
      case (Inl e)
      then show ?thesis using that Some by (simp add: refreshed_divergence_def)
    next
      case (Inr parent)
      show ?thesis
      proof (cases "?fs (br_db_path parent)")
        case None
        then have "diff ho (clock k) ?fs b parent None = Some (Inl unable_to_open)"
          using pool by (simp add: diff_def) (simp add: open_pool_def ok_or_def)
        then show ?thesis using that Some Inr by (simp add: refreshed_divergence_def)
      next
        case (Some db)
        have "?fs (br_db_path b) = Some pool" by (simp add: files_of_def f pool_def)
        from diff_eq [OF ho this Some] obtain r where "diff ho (clock k) ?fs b parent None = Some (Inr r)" by blast
        then show ?thesis using that \<open>br_parent_id b = Some p\<close> Inr compute_score_bounds
          by (simp add: refreshed_divergence_def)
      qed
    qed
  qed
  obtain m where m: "m = \<lparr>op_count = count_commits (sv_codec S) (wd_registry w) (br_id b),
      memory_record_count = tracker_count_table pool MemoryRecord, session_count = tracker_count_table pool Session,
      tool_output_count = tracker_count_table pool ToolOutput, bytes_on_disk = size_or_zero (wd_disk w) (br_db_path b),
      divergence_score = s, created_entity_count = created_entity_count (br_metrics b),
      updated_entity_count = updated_entity_count (br_metrics b), deleted_entity_count = deleted_entity_count (br_metrics b),
      last_activity_at = last_activity_at (br_metrics b)\<rparr>" by simp
  obtain R r where u: "store_update_metrics (sv_codec S) (clock (k + 1)) (wd_registry w) (br_id b) m = (R, r)" by force
  note R = metrics_write [OF ok w c u]
  have "refresh S ho clock k w b = Some (w\<lparr>wd_registry := R\<rparr>, Inr m)"
    unfolding refresh_def pool sum.case s(1) option.case Let_def m [symmetric] u R(1) prod.case ..
  moreover have "bytes_on_disk m = of_nat (length f)"
    by (simp add: m size_or_zero_def file_size_def f)
  ultimately show ?thesis using R s(2)
    by (intro exI [of _ "w\<lparr>wd_registry := R\<rparr>"] exI [of _ m]) (simp add: m)
qed

lemma refresh_missing:
  "read_file (wd_disk w) (br_db_path b) = None \<Longrightarrow> refresh S ho clock k w b = Some (w, Inl unable_to_open)"
  by (simp add: refresh_def open_pool_def files_of_def ok_or_def)

text \<open>A loop over registered branches ends at the first whose file is gone.\<close>

lemma refresh_loop_missing:
  assumes ok: "services_ok S" and ho: "hash_order ho"
  shows "world_ok S w \<Longrightarrow> \<forall>b \<in> set bs. sv_branches S w (br_id b) \<noteq> None \<Longrightarrow>
    \<exists>b \<in> set bs. read_file (wd_disk w) (br_db_path b) = None \<Longrightarrow>
    \<exists>w'. refresh_loop S ho clock k w result bs = Some (w', Inl unable_to_open) \<and> world_ok S w' \<and> wd_disk w' = wd_disk w"
proof (induction bs arbitrary: k w result)
  case Nil
  then show ?case by simp
next
  case (Cons b bs)
  show ?case
  proof (cases "read_file (wd_disk w) (br_db_path b)")
    case None
    then show ?thesis using Cons.prems(1) by (simp add: refresh_missing)
  next
    case (Some f)
    obtain c where c: "sv_branches S w (br_id b) = Some c" using Cons.prems(2) by auto
    from refresh_spec [OF ok Cons.prems(1) ho c Some, of clock k] obtain w1 m where
      w1: "refresh S ho clock k w b = Some (w1, Inr m)" "world_ok S w1" "wd_disk w1 = wd_disk w"
        "sv_branches S w1 = (sv_branches S w)(br_id b \<mapsto> c\<lparr>br_metrics := m\<rparr>)" by blast
    have "\<forall>x \<in> set bs. sv_branches S w1 (br_id x) \<noteq> None" using Cons.prems(2) unfolding w1(4) by simp
    moreover have "\<exists>x \<in> set bs. read_file (wd_disk w1) (br_db_path x) = None" using Cons.prems(3) Some w1(3) by auto
    ultimately obtain w' where w': "refresh_loop S ho clock (k + 2) w1 (result(br_id b \<mapsto> m)) bs = Some (w', Inl unable_to_open)"
      "world_ok S w'" "wd_disk w' = wd_disk w1"
      using Cons.IH [OF w1(2), of "k + 2" "result(br_id b \<mapsto> m)"] by blast
    show ?thesis unfolding refresh_loop.simps(2) w1(1) option.case prod.case sum.case
      by (rule exI [of _ w']) (simp only: w' w1(3) simp_thms)
  qed
qed

text \<open>With every file there it refreshes every branch.\<close>

lemma refresh_loop_all:
  assumes ok: "services_ok S" and ho: "hash_order ho"
  shows "world_ok S w \<Longrightarrow> \<forall>b \<in> set bs. sv_branches S w (br_id b) = Some b \<Longrightarrow> distinct (map br_id bs) \<Longrightarrow>
    \<forall>b \<in> set bs. read_file (wd_disk w) (br_db_path b) \<noteq> None \<Longrightarrow>
    \<exists>w' ms. refresh_loop S ho clock k w result bs = Some (w', Inr (result ++ ms)) \<and> dom ms = br_id ` set bs \<and>
      world_ok S w' \<and> wd_disk w' = wd_disk w \<and> wd_dag w' = wd_dag w \<and>
      (\<forall>i. sv_branches S w' i = (case ms i of Some m \<Rightarrow> map_option (br_metrics_update (\<lambda>_. m)) (sv_branches S w i)
         | None \<Rightarrow> sv_branches S w i))"
proof (induction bs arbitrary: k w result)
  case Nil
  then show ?case by (intro exI [of _ w] exI [of _ Map.empty]) simp
next
  case (Cons b bs)
  have b: "sv_branches S w (br_id b) = Some b" using Cons.prems(2) by simp
  obtain f where "read_file (wd_disk w) (br_db_path b) = Some f" using Cons.prems(4) by auto
  from refresh_spec [OF ok Cons.prems(1) ho b this, of clock k] obtain w1 m where
    w1: "refresh S ho clock k w b = Some (w1, Inr m)" "world_ok S w1" "wd_disk w1 = wd_disk w" "wd_dag w1 = wd_dag w"
      "sv_branches S w1 = (sv_branches S w)(br_id b \<mapsto> b\<lparr>br_metrics := m\<rparr>)" by blast
  have other: "br_id c \<noteq> br_id b" if "c \<in> set bs" for c using that Cons.prems(3) by (auto simp: image_iff)
  have "\<forall>c \<in> set bs. sv_branches S w1 (br_id c) = Some c" using Cons.prems(2) other by (simp add: w1(5))
  moreover have "distinct (map br_id bs)" "\<forall>c \<in> set bs. read_file (wd_disk w1) (br_db_path c) \<noteq> None"
    using Cons.prems(3,4) w1(3) by simp_all
  ultimately obtain w' ms where
    w': "refresh_loop S ho clock (k + 2) w1 (result(br_id b \<mapsto> m)) bs = Some (w', Inr (result(br_id b \<mapsto> m) ++ ms))"
      "dom ms = br_id ` set bs" "world_ok S w'" "wd_disk w' = wd_disk w1" "wd_dag w' = wd_dag w1"
      "\<forall>i. sv_branches S w' i = (case ms i of Some m \<Rightarrow> map_option (br_metrics_update (\<lambda>_. m)) (sv_branches S w1 i)
         | None \<Rightarrow> sv_branches S w1 i)"
    using Cons.IH [OF w1(2), of "k + 2" "result(br_id b \<mapsto> m)"] by blast
  have nb: "ms (br_id b) = None" using w'(2) Cons.prems(3) by (metis distinct.simps(2) domIff list.set_map list.simps(9))
  let ?ms = "ms(br_id b \<mapsto> m)"
  have "result(br_id b \<mapsto> m) ++ ms = result ++ ?ms"
  proof
    fix x show "(result(br_id b \<mapsto> m) ++ ms) x = (result ++ ?ms) x"
      using nb by (cases "x = br_id b"; cases "ms x") (simp_all add: map_add_def)
  qed
  then have "refresh_loop S ho clock k w result (b # bs) = Some (w', Inr (result ++ ?ms))"
    unfolding refresh_loop.simps(2) w1(1) option.case prod.case sum.case w'(1) by simp
  moreover have "dom ?ms = br_id ` set (b # bs)" using w'(2) by simp
  moreover have "\<forall>i. sv_branches S w' i = (case ?ms i of Some m \<Rightarrow> map_option (br_metrics_update (\<lambda>_. m)) (sv_branches S w i)
         | None \<Rightarrow> sv_branches S w i)"
  proof
    fix i
    show "sv_branches S w' i = (case ?ms i of Some m \<Rightarrow> map_option (br_metrics_update (\<lambda>_. m)) (sv_branches S w i)
         | None \<Rightarrow> sv_branches S w i)"
      using spec [OF w'(6), of i] nb b by (cases "i = br_id b"; cases "ms i") (simp_all add: w1(5))
  qed
  ultimately show ?case using w'(3) by (intro exI [of _ w'] exI [of _ ?ms] conjI) (simp_all only: w'(4,5) w1(3,4) simp_thms)
qed

section \<open>Properties\<close>

text \<open>
  C33: refreshing a branch whose database is there counts its rows, bytes and commits, scores its divergence
  between 0 and 1 (or keeps the score it had), and writes these metrics, and nothing else, to the registry.
  The operations the tracker recorded are not kept: \<open>op_count\<close> becomes the number of logged commits.
\<close>

theorem refresh_correct:
  assumes "services_ok S" and "world_ok S w" and "hash_order ho"
    and "sv_branches S w (br_id b) = Some c" and "read_file (wd_disk w) (br_db_path b) = Some f"
  shows "\<exists>w' m. refresh S ho clock k w b = Some (w', Inr m) \<and> world_ok S w' \<and> wd_dag w' = wd_dag w \<and> wd_disk w' = wd_disk w \<and>
    rg_commits (wd_registry w') = rg_commits (wd_registry w) \<and>
    sv_branches S w' = (sv_branches S w)(br_id b \<mapsto> c\<lparr>br_metrics := m\<rparr>) \<and>
    op_count m = count_commits (sv_codec S) (wd_registry w) (br_id b) \<and>
    memory_record_count m = tracker_count_table (sq_db (sv_host S) f) MemoryRecord \<and>
    session_count m = tracker_count_table (sq_db (sv_host S) f) Session \<and>
    tool_output_count m = tracker_count_table (sq_db (sv_host S) f) ToolOutput \<and> bytes_on_disk m = of_nat (length f) \<and>
    (divergence_score m = divergence_score (br_metrics b) \<or> 0 \<le> divergence_score m \<and> divergence_score m \<le> 1) \<and>
    created_entity_count m = created_entity_count (br_metrics b) \<and> updated_entity_count m = updated_entity_count (br_metrics b) \<and>
    deleted_entity_count m = deleted_entity_count (br_metrics b) \<and> last_activity_at m = last_activity_at (br_metrics b)"
  by (rule refresh_spec [OF assms])

theorem refresh_correct_witness:
  "\<exists>w' m. refresh sample_services sorted_list_of_set (\<lambda>_. 5) 0 trunk_world trunk_example = Some (w', Inr m) \<and>
     memory_record_count m = 2 \<and> bytes_on_disk m = 2"
proof -
  have b: "sv_branches sample_services trunk_world (br_id trunk_example) = Some trunk_example"
    unfolding trunk_world_spec(2) by simp
  have "br_db_path trunk_example = [''trunk'']" by (simp add: trunk_example_def branch_at_def blank_branch_def)
  then have f: "read_file (wd_disk trunk_world) (br_db_path trunk_example) = Some ''ab''"
    by (simp add: trunk_world_def world_of_def read_file_def)
  have n: "tracker_count_table (sq_db sample_host ''ab'') MemoryRecord = 2"
    by (simp add: tracker_count_table_def sample_host_def table_of_def)
  from refresh_correct [OF sample_services_ok trunk_world_spec(1) sorted_order.hash_order_axioms b f, of "\<lambda>_. 5" 0] n
  show ?thesis by auto
qed

text \<open>
  C34: \<open>refresh_all\<close> refreshes every branch of the workspace, live or not, when the database of each is there, and
  returns the metrics it wrote; when a single one is gone, as after a purge, it fails.
\<close>

theorem refresh_all_correct:
  assumes "services_ok S" and "world_ok S w" and "hash_order ho"
  shows "if \<forall>i b. sv_branches S w i = Some b \<and> br_workspace_id b = ws \<longrightarrow> read_file (wd_disk w) (br_db_path b) \<noteq> None
    then \<exists>w' ms. refresh_all S ho clock w ws = Some (w', Inr ms) \<and> world_ok S w' \<and> wd_disk w' = wd_disk w \<and> wd_dag w' = wd_dag w \<and>
      dom ms = {i. \<exists>b. sv_branches S w i = Some b \<and> br_workspace_id b = ws} \<and>
      (\<forall>i. sv_branches S w' i = (case ms i of Some m \<Rightarrow> map_option (br_metrics_update (\<lambda>_. m)) (sv_branches S w i)
         | None \<Rightarrow> sv_branches S w i))
    else \<exists>w'. refresh_all S ho clock w ws = Some (w', Inl unable_to_open)"
proof -
  obtain bs where bs: "store_list (sv_codec S) (sv_text S) (sv_order S) (wd_registry w) ws None = Inr bs"
    "set bs = {b. sv_branches S w (br_id b) = Some b \<and> br_workspace_id b = ws}" "distinct (map br_id bs)"
    using store_env.list_spec [OF services_okD(1) [OF assms(1)] world_okD(1) [OF assms(2)], of ws None] by auto
  note id' = store_env.branches_of_id [OF services_okD(1) [OF assms(1)] world_okD(1) [OF assms(2)]]
  have all: "(\<forall>i b. sv_branches S w i = Some b \<and> br_workspace_id b = ws \<longrightarrow> read_file (wd_disk w) (br_db_path b) \<noteq> None) \<longleftrightarrow>
      (\<forall>b \<in> set bs. read_file (wd_disk w) (br_db_path b) \<noteq> None)"
  proof (intro iffI allI ballI impI, elim allE impE)
    fix b assume "b \<in> set bs"
    then show "sv_branches S w (br_id b) = Some b \<and> br_workspace_id b = ws" by (simp add: bs(2))
  next
    fix i b assume gone: "\<forall>b \<in> set bs. read_file (wd_disk w) (br_db_path b) \<noteq> None"
      and b: "sv_branches S w i = Some b \<and> br_workspace_id b = ws"
    have "br_id b = i" using id' [of i b] b by simp
    then have "b \<in> set bs" using b by (simp add: bs(2))
    then show "read_file (wd_disk w) (br_db_path b) \<noteq> None" using gone by (rule bspec [rotated])
  qed
  have ids: "br_id ` set bs = {i. \<exists>b. sv_branches S w i = Some b \<and> br_workspace_id b = ws}"
  proof (intro set_eqI iffI)
    fix i assume "i \<in> br_id ` set bs"
    then show "i \<in> {i. \<exists>b. sv_branches S w i = Some b \<and> br_workspace_id b = ws}" by (auto simp: bs(2))
  next
    fix i assume "i \<in> {i. \<exists>b. sv_branches S w i = Some b \<and> br_workspace_id b = ws}"
    then obtain b where b: "sv_branches S w i = Some b" "br_workspace_id b = ws" by auto
    have "br_id b = i" using id' [OF b(1)] .
    then show "i \<in> br_id ` set bs" using b by (intro image_eqI [of _ _ b]) (simp_all add: bs(2))
  qed
  show ?thesis
  proof (cases "\<forall>b \<in> set bs. read_file (wd_disk w) (br_db_path b) \<noteq> None")
    case True
    have reg: "\<forall>b \<in> set bs. sv_branches S w (br_id b) = Some b" using bs(2) by simp
    from refresh_loop_all [OF assms(1,3,2) reg bs(3) True, where result = Map.empty and clock = clock and k = 0] obtain w' ms where
      r: "refresh_loop S ho clock 0 w Map.empty bs = Some (w', Inr (Map.empty ++ ms))" "dom ms = br_id ` set bs"
        "world_ok S w'" "wd_disk w' = wd_disk w" "wd_dag w' = wd_dag w"
        "\<forall>i. sv_branches S w' i = (case ms i of Some m \<Rightarrow> map_option (br_metrics_update (\<lambda>_. m)) (sv_branches S w i)
           | None \<Rightarrow> sv_branches S w i)" by blast
    have "refresh_all S ho clock w ws = Some (w', Inr ms)" using r(1) by (simp add: refresh_all_def bs(1))
    then show ?thesis unfolding all if_P [OF True] using r(2-6) unfolding ids by blast
  next
    case False
    then have gone: "\<exists>b \<in> set bs. read_file (wd_disk w) (br_db_path b) = None" by simp
    have reg: "\<forall>b \<in> set bs. sv_branches S w (br_id b) \<noteq> None" using bs(2) by simp
    from refresh_loop_missing [OF assms(1,3,2) reg gone, where result = Map.empty and clock = clock and k = 0] bs(1)
    show ?thesis unfolding all if_not_P [OF False] by (auto simp: refresh_all_def)
  qed
qed

theorem refresh_all_correct_witness:
  "\<exists>w'. refresh_all sample_services sorted_list_of_set (\<lambda>_. 5) (trunk_world\<lparr>wd_disk := []\<rparr>) 0 = Some (w', Inl unable_to_open)"
proof -
  let ?w = "trunk_world\<lparr>wd_disk := []\<rparr>"
  have b: "sv_branches sample_services ?w = [7 \<mapsto> trunk_example]" using trunk_world_spec(2) by simp
  have w: "world_ok sample_services ?w" using trunk_world_spec(1) by (simp add: world_ok_disk)
  have "sv_branches sample_services ?w 7 = Some trunk_example" "br_workspace_id trunk_example = 0"
    "read_file (wd_disk ?w) (br_db_path trunk_example) = None"
    unfolding b by (simp_all add: read_file_def)
  then have "\<not> (\<forall>i b. sv_branches sample_services ?w i = Some b \<and> br_workspace_id b = 0 \<longrightarrow> read_file (wd_disk ?w) (br_db_path b) \<noteq> None)"
    by blast
  with refresh_all_correct [OF sample_services_ok w sorted_order.hash_order_axioms, where ws = 0 and clock = "\<lambda>_. 5"]
  show ?thesis by (simp only: if_False)
qed

text \<open>The live branches of a workspace.\<close>

definition live_in :: "('g, 'h) services \<Rightarrow> 'g world \<Rightarrow> uuid \<Rightarrow> uuid \<Rightarrow> branch \<Rightarrow> bool" where
  "live_in S w ws i b \<longleftrightarrow> sv_branches S w i = Some b \<and> br_workspace_id b = ws \<and> is_live (br_status b)"

lemma average_bounds:
  assumes "\<forall>x \<in> set xs. 0 \<le> x \<and> x \<le> (1 :: real)" and "xs \<noteq> []"
  shows "0 \<le> sum_list xs / real (length xs)" and "sum_list xs / real (length xs) \<le> 1"
proof -
  have "0 \<le> sum_list xs" using assms(1) by (intro sum_list_nonneg) auto
  moreover have "sum_list xs \<le> real (length xs)" using assms(1) by (induction xs) auto
  ultimately show "0 \<le> sum_list xs / real (length xs)" "sum_list xs / real (length xs) \<le> 1"
    using assms(2) by (simp_all add: divide_le_eq_1)
qed



end
