(* ===== verification/Sandbox.thy ===== *)
theory Sandbox
  imports Metrics
begin

text \<open>
  \<open>src/sandbox\<close>: the simulation environment on a forked branch (\<open>environment.rs\<close>), the runner of the agent
  (\<open>runner.rs\<close>), the recommendation (\<open>evaluator.rs\<close>) and the clean-up (\<open>cleanup.rs\<close>). The agent is a function
  argument: from the bytes of the sandbox database to the bytes it leaves and its answer, with no answer
  when the timeout elapses first. The texts of errors and of numbers with three decimals are arguments.
\<close>

section \<open>The environment\<close>

record simulation_scenario =
  sc_name :: string
  sc_description :: string
  sc_max_ops :: "u32 option"
  sc_timeout_secs :: "u64 option"
  sc_seed_data :: "json option"

record simulation_outcome =
  so_agent_output :: json
  so_ops_executed :: u32
  so_duration_ms :: u64

datatype sandbox_status =
    Running
  | Completed simulation_outcome
  | SandboxFailed string
  | Abandoned

record simulation_environment =
  se_id :: uuid
  se_label :: string
  se_branch :: branch
  se_parent_branch_id :: uuid
  se_started_at :: datetime
  se_scenario :: simulation_scenario
  se_status :: sandbox_status

definition sandbox_name :: "codec \<Rightarrow> uuid \<Rightarrow> simulation_scenario \<Rightarrow> string" where
  "sandbox_name C id' scenario = ''sandbox/'' @ sc_name scenario @ ''/'' @ take 8 (uuid_str C id')"

definition setup_environment ::
    "('g, 'h) services \<Rightarrow> (nat \<Rightarrow> datetime) \<Rightarrow> uuid \<Rightarrow> uuid \<Rightarrow> 'g world \<Rightarrow> branch \<Rightarrow> simulation_scenario \<Rightarrow>
     ('g world \<times> simulation_environment branch_result) option" where
  "setup_environment S clock id' branch_id w parent scenario =
     (let branch_name = sandbox_name (sv_codec S) id' scenario
      in case fork S clock branch_id w (br_id parent) branch_name (Some (sc_description scenario)) of
           None \<Rightarrow> None
         | Some (w, Inl e) \<Rightarrow> Some (w, Inl e)
         | Some (w, Inr b) \<Rightarrow>
             Some (w, Inr \<lparr>se_id = id', se_label = branch_name, se_branch = b, se_parent_branch_id = br_id parent,
               se_started_at = clock 4, se_scenario = scenario, se_status = Running\<rparr>))"

definition teardown ::
    "('g, 'h) services \<Rightarrow> (nat \<Rightarrow> datetime) \<Rightarrow> 'g world \<Rightarrow> simulation_environment \<Rightarrow>
     'g world \<times> simulation_environment \<times> unit branch_result" where
  "teardown S clock w env =
     (case discard S clock w (br_id (se_branch env)) of
        (w, Inl e) \<Rightarrow> (w, env, Inl e)
      | (w, Inr _) \<Rightarrow> (w, env\<lparr>se_status := Abandoned\<rparr>, Inr ()))"

text \<open>\<open>cleanup_environment\<close>.\<close>

definition cleanup_environment :: "unit branch_result" where
  "cleanup_environment = Inr ()"

section \<open>The runner\<close>

definition run_agent ::
    "(branch_error \<Rightarrow> string) \<Rightarrow> (string \<Rightarrow> string \<times> json branch_result) \<Rightarrow> u64 \<Rightarrow> 'g world \<Rightarrow>
     simulation_environment \<Rightarrow> 'g world \<times> simulation_environment \<times> simulation_outcome branch_result" where
  "run_agent err_text agent_fn duration_ms w env =
     (case read_file (wd_disk w) (br_db_path (se_branch env)) of
        None \<Rightarrow> (w, env, Inl unable_to_open)
      | Some file \<Rightarrow>
          let (file, agent_result) = agent_fn file;
              w = w\<lparr>wd_disk := write_file (br_db_path (se_branch env)) file (wd_disk w)\<rparr>
          in case agent_result of
               Inr agent_output \<Rightarrow>
                 let outcome = \<lparr>so_agent_output = agent_output, so_ops_executed = 1, so_duration_ms = duration_ms\<rparr>
                 in (w, env\<lparr>se_status := Completed outcome\<rparr>, Inr outcome)
             | Inl error \<Rightarrow> (w, env\<lparr>se_status := SandboxFailed (err_text error)\<rparr>, Inl error))"

definition run_with_timeout ::
    "(branch_error \<Rightarrow> string) \<Rightarrow> (u64 \<Rightarrow> string \<Rightarrow> string \<times> json branch_result option) \<Rightarrow> u64 \<Rightarrow> 'g world \<Rightarrow>
     simulation_environment \<Rightarrow> u64 \<Rightarrow> 'g world \<times> simulation_environment \<times> simulation_outcome branch_result" where
  "run_with_timeout err_text agent_fn elapsed_ms w env timeout_secs =
     (case read_file (wd_disk w) (br_db_path (se_branch env)) of
        None \<Rightarrow> (w, env, Inl unable_to_open)
      | Some file \<Rightarrow>
          let (file, agent_result) = agent_fn timeout_secs file;
              w = w\<lparr>wd_disk := write_file (br_db_path (se_branch env)) file (wd_disk w)\<rparr>
          in case agent_result of
               Some (Inr agent_output) \<Rightarrow>
                 let outcome = \<lparr>so_agent_output = agent_output, so_ops_executed = 1, so_duration_ms = elapsed_ms\<rparr>
                 in (w, env\<lparr>se_status := Completed outcome\<rparr>, Inr outcome)
             | Some (Inl error) \<Rightarrow> (w, env\<lparr>se_status := SandboxFailed (err_text error)\<rparr>, Inl error)
             | None \<Rightarrow>
                 let msg = ''sandbox timed out after '' @ show_nat (unat timeout_secs) @ ''s''
                 in (w, env\<lparr>se_status := SandboxFailed msg\<rparr>, Inl (SandboxError msg)))"

section \<open>The evaluator\<close>

datatype recommendation = RecommendCommit | RecommendDiscard | NeedsReview "string list"

record evaluation_report =
  ev_diff :: diff_result
  ev_metrics :: branch_metrics
  ev_recommendation :: recommendation

definition recommend :: "(real \<Rightarrow> string) \<Rightarrow> diff_result \<Rightarrow> branch_metrics \<Rightarrow> real \<Rightarrow> recommendation" where
  "recommend fmt d metrics threshold =
     (let notes = (if dr_divergence_score d \<ge> threshold
            then [''divergence score '' @ fmt (dr_divergence_score d) @ '' meets or exceeds threshold '' @ fmt threshold]
            else [])
      in if op_count metrics = 0 \<and> ds_added (dr_stats d) = 0 \<and> ds_modified (dr_stats d) = 0 \<and> ds_removed (dr_stats d) = 0
         then RecommendDiscard
         else if notes \<noteq> [] then NeedsReview notes
         else RecommendCommit)"

definition evaluate ::
    "(real \<Rightarrow> string) \<Rightarrow> (string set \<Rightarrow> string list) \<Rightarrow> datetime \<Rightarrow> file_system \<Rightarrow> branch_config \<Rightarrow>
     simulation_environment \<Rightarrow> branch \<Rightarrow> evaluation_report branch_result option" where
  "evaluate fmt ho now fs config env parent =
     map_option (\<lambda>r. res_bind r (\<lambda>d.
         let metrics = br_metrics (se_branch env)
         in Inr \<lparr>ev_diff = d, ev_metrics = metrics,
                ev_recommendation = recommend fmt d metrics (cf_divergence_threshold config)\<rparr>))
       (diff ho now fs (se_branch env) parent None)"

section \<open>Properties\<close>

lemma evaluation:
  assumes ho: "hash_order ho" and a: "fs (br_db_path (se_branch env)) = Some db_a" and b: "fs (br_db_path parent) = Some db_b"
    and t: "0 < cf_divergence_threshold config"
    and run: "evaluate fmt ho now fs config env parent = Some (Inr rep)" and l: "length (dr_entity_diffs (ev_diff rep)) < 2 ^ 32"
  shows "diff ho now fs (se_branch env) parent None = Some (Inr (ev_diff rep))"
    and "ev_metrics rep = br_metrics (se_branch env)"
    and "ev_recommendation rep = RecommendDiscard \<longleftrightarrow>
      op_count (br_metrics (se_branch env)) = 0 \<and> (\<forall>ed \<in> set (dr_entity_diffs (ev_diff rep)). ed_diff_kind ed = Unchanged)"
    and "(\<exists>notes. ev_recommendation rep = NeedsReview notes) \<longleftrightarrow> cf_divergence_threshold config \<le> dr_divergence_score (ev_diff rep)"
proof -
  from diff_eq [where fs = fs and branch_a = "se_branch env" and branch_b = parent and types = None and now = now, OF ho a b]
  obtain d where d: "diff ho now fs (se_branch env) parent None = Some (Inr d)" "counted (dr_entity_diffs d) (dr_stats d)"
    "ds_total_entities (dr_stats d) = of_nat (length (dr_entity_diffs d))" "dr_divergence_score d = score_divergence (dr_stats d)"
    by blast
  let ?m = "br_metrics (se_branch env)" and ?t = "cf_divergence_threshold config"
  have rep: "ev_diff rep = d" "ev_metrics rep = ?m" "ev_recommendation rep = recommend fmt d ?m ?t"
    using run by (auto simp: evaluate_def d(1) Let_def)
  show "diff ho now fs (se_branch env) parent None = Some (Inr (ev_diff rep))" "ev_metrics rep = ?m"
    by (simp_all add: d(1) rep)
  let ?eds = "dr_entity_diffs d"
  have l: "length ?eds < 2 ^ 32" using l rep(1) by simp
  note zero = counted_zero [OF d(2) l]
  have same: "dr_divergence_score d = 0" if "\<forall>ed \<in> set ?eds. ed_diff_kind ed = Unchanged"
  proof -
    have "kinds Added ?eds = 0" "kinds Removed ?eds = 0" "kinds Modified ?eds = 0"
      unfolding kinds_zero using that by simp_all
    then show ?thesis using score_counted [OF d(2) l d(3)] d(4) by simp
  qed
  show "ev_recommendation rep = RecommendDiscard \<longleftrightarrow> op_count ?m = 0 \<and> (\<forall>ed \<in> set (dr_entity_diffs (ev_diff rep)). ed_diff_kind ed = Unchanged)"
    unfolding rep zero [symmetric] by (simp add: recommend_def Let_def)
  show "(\<exists>notes. ev_recommendation rep = NeedsReview notes) \<longleftrightarrow> ?t \<le> dr_divergence_score (ev_diff rep)"
    unfolding rep using same t zero by (auto simp: recommend_def Let_def)
qed


definition sample_environment :: simulation_environment where
  "sample_environment = \<lparr>se_id = 1, se_label = [], se_branch = branch_at 1 [''a''], se_parent_branch_id = 2, se_started_at = 0,
     se_scenario = \<lparr>sc_name = ''s'', sc_description = [], sc_max_ops = None, sc_timeout_secs = None, sc_seed_data = None\<rparr>,
     se_status = Running\<rparr>"


end
