(* ===== verification/Commit.thy ===== *)
theory Commit
  imports Merge Registry
begin

text \<open>
  \<open>src/commit\<close>: cherry-picks (\<open>cherry.rs\<close>), their validation (\<open>validator.rs\<close>), the selective commit
  (\<open>selective.rs\<close>) and the commit history (\<open>history.rs\<close>), over the databases of the source and the
  target branch and the registry. The order of the keys of a hash map is an argument.
\<close>

section \<open>Selections\<close>

record entity_selection =
  es_entity_type :: entity_type
  es_entity_ids :: "string list"
  es_fields :: "string list option"

record cherry_pick =
  cp_source_branch_id :: uuid
  cp_target_branch_id :: uuid
  cp_entity_selections :: "entity_selection list"
  cp_message :: "string option"

definition all_of_type :: "uuid \<Rightarrow> uuid \<Rightarrow> entity_type \<Rightarrow> cherry_pick" where
  "all_of_type source target t =
     \<lparr>cp_source_branch_id = source, cp_target_branch_id = target,
      cp_entity_selections = [\<lparr>es_entity_type = t, es_entity_ids = [], es_fields = None\<rparr>], cp_message = None\<rparr>"

definition specific_entities :: "uuid \<Rightarrow> uuid \<Rightarrow> entity_type \<Rightarrow> string list \<Rightarrow> cherry_pick" where
  "specific_entities source target t ids =
     \<lparr>cp_source_branch_id = source, cp_target_branch_id = target,
      cp_entity_selections = [\<lparr>es_entity_type = t, es_entity_ids = ids, es_fields = None\<rparr>], cp_message = None\<rparr>"

definition specific_fields :: "string list \<Rightarrow> cherry_pick \<Rightarrow> cherry_pick" where
  "specific_fields names c =
     (case cp_entity_selections c of
        [] \<Rightarrow> c
      | sels \<Rightarrow> c\<lparr>cp_entity_selections := butlast sels @ [(last sels)\<lparr>es_fields := Some names\<rparr>]\<rparr>)"

definition with_message :: "string \<Rightarrow> cherry_pick \<Rightarrow> cherry_pick" where
  "with_message message c = c\<lparr>cp_message := Some message\<rparr>"

section \<open>Validation\<close>

record validation_report =
  vr_ok :: bool
  vr_violations :: "string list"
  vr_warnings :: "string list"

definition debug_kind :: "branch_status \<Rightarrow> string" where
  "debug_kind s = [CHR 0x22] @ kind s @ [CHR 0x22]"

definition not_found_text :: "codec \<Rightarrow> uuid \<Rightarrow> entity_type \<Rightarrow> string \<Rightarrow> string" where
  "not_found_text C source_id t entity_id =
     ''entity '' @ [CHR 0x27] @ entity_id @ [CHR 0x27] @ '' of type '' @ debug_name t @
     '' not found in source branch '' @ uuid_str C source_id"

definition check_selection ::
    "codec \<Rightarrow> branch_db \<Rightarrow> uuid \<Rightarrow> entity_selection \<Rightarrow> string list \<times> string list \<Rightarrow> string list \<times> string list" where
  "check_selection C pool source_id sel = (\<lambda>(violations, warnings).
     if es_entity_ids sel = [] then (violations, warnings)
     else case pool (es_entity_type sel) of
        None \<Rightarrow> (violations, warnings @ [''table '' @ [CHR 0x27] @ table_name (es_entity_type sel) @ [CHR 0x27] @
                  '' does not exist in source; skipping entity existence check''])
      | Some tb \<Rightarrow>
          (violations @ map (not_found_text C source_id (es_entity_type sel))
             (filter (\<lambda>entity_id. entity_id \<notin> fst ` set (tb_rows tb)) (es_entity_ids sel)), warnings))"

definition validate_cherry :: "codec \<Rightarrow> branch_db \<Rightarrow> cherry_pick \<Rightarrow> branch \<Rightarrow> branch \<Rightarrow> validation_report" where
  "validate_cherry C pool cherry source target =
     (let v1 = (case br_status source of
                  Active \<Rightarrow> [] | Dormant \<Rightarrow> []
                | other \<Rightarrow> [''source branch '' @ uuid_str C (br_id source) @ '' is '' @ debug_kind other @
                            '', must be Active or Dormant'']);
          v2 = (case br_status target of
                  Active \<Rightarrow> []
                | other \<Rightarrow> [''target branch '' @ uuid_str C (br_id target) @ '' is '' @ debug_kind other @
                            '', must be Active'']);
          (violations, warnings) =
            fold (check_selection C pool (br_id source)) (cp_entity_selections cherry) (v1 @ v2, [])
      in \<lparr>vr_ok = (violations = []), vr_violations = violations, vr_warnings = warnings\<rparr>)"

section \<open>The commit\<close>

record commit_result =
  co_committed_entity_count :: u32
  co_fields_updated :: u32
  co_duration_ms :: u64
  co_target_branch_id :: uuid
  co_committed_at :: datetime

fun json_to_str :: "json_printer \<Rightarrow> json \<Rightarrow> string option" where
  "json_to_str J JNull = None"
| "json_to_str J (JBool b) = Some (if b then ''1'' else ''0'')"
| "json_to_str J (JNumber n) = Some (jp_number J n)"
| "json_to_str J (JString s) = Some s"
| "json_to_str J v = Some (jp_value J v)"

definition upsert_entity_tx ::
    "json_printer \<Rightarrow> branch_db \<Rightarrow> entity_type \<Rightarrow> string \<Rightarrow> json \<Rightarrow> branch_db branch_result" where
  "upsert_entity_tx J tx t entity_id v =
     (case as_object v of
        None \<Rightarrow> Inr tx
      | Some obj \<Rightarrow>
          exec_replace tx t entity_id
            ((''id'', Some entity_id) # map (\<lambda>(k, v). (k, json_to_str J v)) (filter (\<lambda>(k, v). k \<noteq> ''id'') obj)))"

text \<open>The fields of the source copied into the entity the target holds, and their number.\<close>

definition copy_fields ::
    "string list \<Rightarrow> (string \<times> json) list \<Rightarrow> (string \<times> json) list \<times> u32 \<Rightarrow> (string \<times> json) list \<times> u32" where
  "copy_fields names source_obj = fold (\<lambda>f (merged_obj, n).
     case obj_get source_obj f of Some v \<Rightarrow> (obj_insert f v merged_obj, n + 1) | None \<Rightarrow> (merged_obj, n)) names"

definition final_value :: "branch_db \<Rightarrow> entity_selection \<Rightarrow> string \<Rightarrow> json \<Rightarrow> json \<times> u32" where
  "final_value target_pool sel entity_id source_val =
     (case es_fields sel of
        Some names \<Rightarrow>
          (let target_map = fetch_all_entities target_pool (es_entity_type sel);
               merged = (case obj_get target_map entity_id of Some v \<Rightarrow> v | None \<Rightarrow> JObject [])
           in case (as_object merged, as_object source_val) of
                (Some merged_obj, Some source_obj) \<Rightarrow>
                  (let (obj, n) = copy_fields names source_obj (merged_obj, 0) in (JObject obj, n))
              | _ \<Rightarrow> (merged, 0))
      | None \<Rightarrow> (source_val, case as_object source_val of Some obj \<Rightarrow> of_nat (length obj) | None \<Rightarrow> 0))"

type_synonym commit_state = "branch_db \<times> u32 \<times> u32 \<times> string list"

definition commit_entity ::
    "json_printer \<Rightarrow> branch_db \<Rightarrow> entity_selection \<Rightarrow> (string \<times> json) list \<Rightarrow> commit_state \<Rightarrow> string \<Rightarrow>
     commit_state branch_result" where
  "commit_entity J target_pool sel source_map = (\<lambda>(tx, committed, updated, ids) entity_id.
     (case obj_get source_map entity_id of
        None \<Rightarrow> Inr (tx, committed, updated, ids)
      | Some source_val \<Rightarrow>
          (let (final_val, n) = final_value target_pool sel entity_id source_val
           in res_bind (upsert_entity_tx J tx (es_entity_type sel) entity_id final_val)
                (\<lambda>tx. Inr (tx, committed + 1, updated + n, ids @ [entity_id])))))"

definition ids_to_process :: "(string set \<Rightarrow> string list) \<Rightarrow> entity_selection \<Rightarrow> (string \<times> json) list \<Rightarrow> string list" where
  "ids_to_process ho sel source_map =
     (if es_entity_ids sel = [] then ho (set (obj_keys source_map)) else es_entity_ids sel)"

definition commit_selection ::
    "json_printer \<Rightarrow> (string set \<Rightarrow> string list) \<Rightarrow> branch_db \<Rightarrow> branch_db \<Rightarrow> commit_state \<Rightarrow> entity_selection \<Rightarrow>
     commit_state branch_result" where
  "commit_selection J ho source_pool target_pool st sel =
     (let source_map = fetch_all_entities source_pool (es_entity_type sel)
      in res_foldM (commit_entity J target_pool sel source_map) st (ids_to_process ho sel source_map))"

text \<open>
  \<open>SelectiveCommit::commit\<close>: the target database and the registry after it, and its result. The pools
  read what is committed, so the loop reads the target as it was before the transaction.
\<close>

definition commit ::
    "codec \<Rightarrow> text_codec \<Rightarrow> sql_order \<Rightarrow> json_printer \<Rightarrow> (string set \<Rightarrow> string list) \<Rightarrow> datetime \<Rightarrow> uuid \<Rightarrow> u64 \<Rightarrow>
     uuid \<Rightarrow> branch_db \<Rightarrow> branch_db \<Rightarrow> registry \<Rightarrow> cherry_pick \<Rightarrow>
     branch_db \<times> registry \<times> commit_result branch_result" where
  "commit C K Q J ho now entry_id elapsed workspace_id source_pool target_pool R cherry =
     (case store_get C K Q R workspace_id (cp_source_branch_id cherry) of
        Inl e \<Rightarrow> (target_pool, R, Inl e)
      | Inr source \<Rightarrow>
     (case store_get C K Q R workspace_id (cp_target_branch_id cherry) of
        Inl e \<Rightarrow> (target_pool, R, Inl e)
      | Inr target \<Rightarrow>
          let report = validate_cherry C source_pool cherry source target
          in if \<not> vr_ok report
             then (target_pool, R, Inl (CommitValidationFailed (cp_target_branch_id cherry) (vr_violations report)))
             else case res_foldM (commit_selection J ho source_pool target_pool) (target_pool, 0, 0, [])
                    (cp_entity_selections cherry) of
               Inl e \<Rightarrow> (target_pool, R, Inl e)
             | Inr (tx, committed, updated, all_entity_ids) \<Rightarrow>
                 let entry = \<lparr>cl_id = entry_id, cl_branch_id = cp_target_branch_id cherry,
                       cl_entity_type = (case cp_entity_selections cherry of [] \<Rightarrow> None | s # _ \<Rightarrow> Some (es_entity_type s)),
                       cl_entity_ids = all_entity_ids, cl_op_kind = ''cherry_pick'', cl_committed_at = now,
                       cl_message = cp_message cherry\<rparr>
                 in case insert_commit_log C K R entry of
                      (R, Inl e) \<Rightarrow> (tx, R, Inl e)
                    | (R, Inr _) \<Rightarrow>
                        (tx, R, Inr \<lparr>co_committed_entity_count = committed, co_fields_updated = updated,
                           co_duration_ms = elapsed, co_target_branch_id = cp_target_branch_id cherry,
                           co_committed_at = now\<rparr>)))"

definition whole_type :: "entity_type \<Rightarrow> entity_selection" where
  "whole_type t = \<lparr>es_entity_type = t, es_entity_ids = [], es_fields = None\<rparr>"

definition commit_all ::
    "codec \<Rightarrow> text_codec \<Rightarrow> sql_order \<Rightarrow> json_printer \<Rightarrow> (string set \<Rightarrow> string list) \<Rightarrow> datetime \<Rightarrow> uuid \<Rightarrow> u64 \<Rightarrow>
     uuid \<Rightarrow> branch_db \<Rightarrow> branch_db \<Rightarrow> registry \<Rightarrow> uuid \<Rightarrow> uuid \<Rightarrow>
     branch_db \<times> registry \<times> commit_result branch_result" where
  "commit_all C K Q J ho now entry_id elapsed workspace_id source_pool target_pool R source_branch_id target_branch_id =
     commit C K Q J ho now entry_id elapsed workspace_id source_pool target_pool R
       \<lparr>cp_source_branch_id = source_branch_id, cp_target_branch_id = target_branch_id,
        cp_entity_selections = [whole_type MemoryRecord, whole_type Session, whole_type ToolOutput],
        cp_message = Some ''commit_all''\<rparr>"

text \<open>\<open>SelectiveCommit::from_store\<close>: the two databases.\<close>

definition from_store ::
    "codec \<Rightarrow> text_codec \<Rightarrow> sql_order \<Rightarrow> file_system \<Rightarrow> registry \<Rightarrow> uuid \<Rightarrow> uuid \<Rightarrow> uuid \<Rightarrow>
     (branch_db \<times> branch_db) branch_result" where
  "from_store C K Q fs R source_id target_id workspace_id =
     res_bind (store_get C K Q R workspace_id source_id) (\<lambda>source.
     res_bind (store_get C K Q R workspace_id target_id) (\<lambda>target.
     res_bind (open_pool fs (br_db_path source)) (\<lambda>source_pool.
     res_bind (open_pool fs (br_db_path target)) (\<lambda>target_pool.
       Inr (source_pool, target_pool)))))"

text \<open>\<open>history.rs\<close>.\<close>

definition recent_commits ::
    "codec \<Rightarrow> text_codec \<Rightarrow> sql_order \<Rightarrow> registry \<Rightarrow> uuid \<Rightarrow> u32 \<Rightarrow> commit_log_entry list branch_result" where
  "recent_commits C K Q R branch_id limit = list_commits C K Q R branch_id limit"

section \<open>What a commit writes\<close>

text \<open>A pick is one write of the loop: its entity, the value, and the number of fields it counts.\<close>

type_synonym pick = "entity_type \<times> string \<times> json \<times> u32"

definition pick_of :: "branch_db \<Rightarrow> branch_db \<Rightarrow> entity_selection \<Rightarrow> string \<Rightarrow> pick option" where
  "pick_of source_pool target_pool sel i =
     map_option (\<lambda>v. (es_entity_type sel, i, final_value target_pool sel i v))
       (obj_get (fetch_all_entities source_pool (es_entity_type sel)) i)"

definition picks :: "(string set \<Rightarrow> string list) \<Rightarrow> branch_db \<Rightarrow> branch_db \<Rightarrow> entity_selection \<Rightarrow> pick list" where
  "picks ho source_pool target_pool sel =
     List.map_filter (pick_of source_pool target_pool sel)
       (ids_to_process ho sel (fetch_all_entities source_pool (es_entity_type sel)))"

abbreviation all_picks where
  "all_picks ho source_pool target_pool sels \<equiv> concat (map (picks ho source_pool target_pool) sels)"

definition apply_pick :: "json_printer \<Rightarrow> branch_db \<Rightarrow> pick \<Rightarrow> branch_db branch_result" where
  "apply_pick J tx = (\<lambda>(t, i, v, n). upsert_entity_tx J tx t i v)"

definition tally_picks :: "pick list \<Rightarrow> u32 \<times> u32 \<times> string list \<Rightarrow> u32 \<times> u32 \<times> string list" where
  "tally_picks ps = (\<lambda>(committed, updated, ids).
     (committed + of_nat (length ps), updated + sum_list (map (\<lambda>(t, i, v, n). n) ps), ids @ map (\<lambda>(t, i, v, n). i) ps))"

lemma json_to_str_eq: "json_to_str J v = json_to_sqlite_str J v"
  by (cases v) simp_all

lemma upsert_tx_eq: "upsert_entity_tx J tx t i v = upsert_entity J tx t i v"
  by (simp add: upsert_entity_tx_def upsert_entity_def build_upsert_sql_def json_to_str_eq cong: option.case_cong)

lemma tally_append: "tally_picks (ps @ qs) st = tally_picks qs (tally_picks ps st)"
  by (cases st) (simp add: tally_picks_def algebra_simps)

lemma commit_entity_eq:
  "commit_entity J target_pool sel (fetch_all_entities source_pool (es_entity_type sel)) (tx, st) i =
     (case pick_of source_pool target_pool sel i of
        None \<Rightarrow> Inr (tx, st)
      | Some p \<Rightarrow> res_bind (apply_pick J tx p) (\<lambda>tx. Inr (tx, tally_picks [p] st)))"
  by (cases st) (simp add: commit_entity_def pick_of_def apply_pick_def tally_picks_def case_prod_unfold Let_def split: option.split)

lemma commit_entities_eq:
  "res_foldM (commit_entity J target_pool sel (fetch_all_entities source_pool (es_entity_type sel))) (tx, st) is' =
     res_bind (res_foldM (apply_pick J) tx (List.map_filter (pick_of source_pool target_pool sel) is'))
       (\<lambda>tx. Inr (tx, tally_picks (List.map_filter (pick_of source_pool target_pool sel) is') st))"
proof (induction is' arbitrary: tx st)
  case Nil
  then show ?case by (cases st) (simp add: List.map_filter_simps tally_picks_def)
next
  case (Cons i is')
  show ?case
  proof (cases "pick_of source_pool target_pool sel i")
    case None
    then show ?thesis using Cons by (simp add: commit_entity_eq List.map_filter_simps)
  next
    case (Some p)
    let ?ps = "List.map_filter (pick_of source_pool target_pool sel) is'"
    have "tally_picks (p # ?ps) st = tally_picks ?ps (tally_picks [p] st)"
      using tally_append [of "[p]" ?ps st] by simp
    then show ?thesis using Cons Some
      by (cases "apply_pick J tx p") (simp_all add: commit_entity_eq List.map_filter_simps)
  qed
qed

lemma commit_loop_eq:
  "res_foldM (commit_selection J ho source_pool target_pool) (tx, st) sels =
     res_bind (res_foldM (apply_pick J) tx (all_picks ho source_pool target_pool sels))
       (\<lambda>tx. Inr (tx, tally_picks (all_picks ho source_pool target_pool sels) st))"
proof (induction sels arbitrary: tx st)
  case Nil
  then show ?case by (cases st) (simp add: tally_picks_def)
next
  case (Cons sel sels)
  have s: "commit_selection J ho source_pool target_pool (tx, st) sel =
      res_bind (res_foldM (apply_pick J) tx (picks ho source_pool target_pool sel))
        (\<lambda>tx. Inr (tx, tally_picks (picks ho source_pool target_pool sel) st))"
    unfolding commit_selection_def Let_def picks_def by (rule commit_entities_eq)
  show ?case
    by (cases "res_foldM (apply_pick J) tx (picks ho source_pool target_pool sel)")
      (simp_all add: s Cons res_foldM_append tally_append)
qed

text \<open>The picks as changes of a batch, whose lemmas then apply.\<close>

definition change_of :: "pick \<Rightarrow> entity_diff \<times> resolved_value" where
  "change_of = (\<lambda>(t, i, v, n).
     (\<lparr>ed_entity_id = i, ed_entity_type = t, ed_diff_kind = Modified, ed_field_diffs = []\<rparr>, MergedValue v))"

lemma batch_step_change:
  "batch_step J (tx, n) (change_of p) = res_bind (apply_pick J tx p) (\<lambda>tx. Inr (tx, n + 1))"
  by (cases p) (simp add: batch_step_def change_of_def apply_value_def apply_pick_def upsert_tx_eq)

lemma picks_batch:
  "res_foldM (batch_step J) (tx, n) (map change_of ps) =
     res_bind (res_foldM (apply_pick J) tx ps) (\<lambda>tx. Inr (tx, n + of_nat (length ps)))"
proof (induction ps arbitrary: tx n)
  case (Cons p ps)
  show ?case
    by (cases "apply_pick J tx p") (simp_all add: batch_step_change Cons algebra_simps)
qed simp

lemma writes_change: "writes (change_of (t, i, v, n)) t' i' \<longleftrightarrow> t = t' \<and> i = i'"
  by (simp add: writes_def change_of_def)

lemma picks_frame:
  assumes "res_foldM (apply_pick J) tx ps = Inr tx'" and "db_ok tx"
  shows "db_ok tx' \<and> schema tx' = schema tx \<and>
    (\<forall>t i. (t, i) \<notin> (\<lambda>(t, i, v, n). (t, i)) ` set ps \<longrightarrow> contents tx' t i = contents tx t i)"
proof -
  have run: "res_foldM (batch_step J) (tx, 0) (map change_of ps) = Inr (tx', of_nat (length ps))"
    using assms(1) by (simp add: picks_batch)
  have "\<forall>c \<in> set (map change_of ps). \<not> writes c t i" if "(t, i) \<notin> (\<lambda>(t, i, v, n). (t, i)) ` set ps" for t i
    using that by (force simp: writes_change)
  then show ?thesis using batch_frame [OF run assms(2)] batch_schema [OF run] by simp
qed

text \<open>The last pick of an entity decides what the target holds.\<close>

lemma picks_last:
  assumes "res_foldM (apply_pick J) tx (pre @ (t, i, JObject obj, n) # post) = Inr tx'" and "db_ok tx"
    and "(t, i) \<notin> (\<lambda>(t, i, v, n). (t, i)) ` set post"
  shows "\<exists>tb data. tx t = Some tb \<and> contents tx' t i = Some data \<and>
    (\<forall>c \<in> set (tb_columns tb) - {''id''}.
       case map_of obj c of
         Some v \<Rightarrow> (\<exists>w. tb_cell tb c (json_to_str J v) = Inr w \<and> obj_get data c = Some w)
       | None \<Rightarrow> (\<exists>w. tb_default tb c = Inr w \<and> obj_get data c = Some w))"
proof -
  obtain tx1 tx2 where 1: "res_foldM (apply_pick J) tx pre = Inr tx1"
    and 2: "apply_pick J tx1 (t, i, JObject obj, n) = Inr tx2"
    and 3: "res_foldM (apply_pick J) tx2 post = Inr tx'"
    using assms(1) by (auto simp: res_foldM_append res_bind_eq_Inr)
  note f1 = picks_frame [OF 1 assms(2)]
  have up: "upsert_entity J tx1 t i (JObject obj) = Inr tx2" using 2 by (simp add: apply_pick_def upsert_tx_eq)
  have one: "res_foldM (apply_pick J) tx1 [(t, i, JObject obj, n)] = Inr tx2" using 2 by simp
  have ok2: "db_ok tx2" using picks_frame [OF one] f1 by blast
  have keep: "contents tx' t i = contents tx2 t i" using picks_frame [OF 3 ok2] assms(3) by blast
  obtain tb1 where tb1: "tx1 t = Some tb1"
    using up by (auto simp: upsert_entity_def exec_replace_Inr)
  obtain tb where tb: "tx t = Some tb" "tb_columns tb = tb_columns tb1" "tb_cell tb = tb_cell tb1" "tb_default tb = tb_default tb1"
    using schema_table [of tx tx1 t tb1] f1 tb1 by metis
  obtain data where data: "contents tx2 t i = Some data" using upsert_stored [OF up] f1 by blast
  have "case map_of obj c of
         Some v \<Rightarrow> (\<exists>w. tb_cell tb c (json_to_str J v) = Inr w \<and> obj_get data c = Some w)
       | None \<Rightarrow> (\<exists>w. tb_default tb c = Inr w \<and> obj_get data c = Some w)"
    if c: "c \<in> set (tb_columns tb) - {''id''}" for c
  proof -
    from upsert_contents [OF _ up tb1, of c] f1 c tb(2) obtain data' where
      "contents tx2 t i = Some data'"
      "case map_of obj c of
         Some v \<Rightarrow> (\<exists>w. tb_cell tb1 c (json_to_sqlite_str J v) = Inr w \<and> obj_get data' c = Some w)
       | None \<Rightarrow> (\<exists>w. tb_default tb1 c = Inr w \<and> obj_get data' c = Some w)" by auto
    then show ?thesis using data tb(3,4) by (cases "map_of obj c") (simp_all add: json_to_str_eq)
  qed
  then show ?thesis using tb(1) keep data by auto
qed

section \<open>The whole commit\<close>

definition selects :: "branch_db \<Rightarrow> entity_selection list \<Rightarrow> entity_type \<Rightarrow> string \<Rightarrow> bool" where
  "selects source_pool sels t i \<longleftrightarrow> contents source_pool t i \<noteq> None \<and>
     (\<exists>sel \<in> set sels. es_entity_type sel = t \<and> (es_entity_ids sel = [] \<or> i \<in> set (es_entity_ids sel)))"

lemma copy_fields_object: "\<exists>obj n. copy_fields names source_obj st = (obj, n)"
  by (cases "copy_fields names source_obj st") simp

lemma pick_shape:
  assumes "db_ok source_pool" and "db_ok target_pool" and p: "(t, i, v, n) \<in> set (picks ho source_pool target_pool sel)"
  shows "t = es_entity_type sel"
    and "\<exists>data. contents source_pool t i = Some data \<and> (v, n) = final_value target_pool sel i (JObject data)"
    and "es_entity_ids sel \<noteq> [] \<longrightarrow> i \<in> set (es_entity_ids sel)"
    and "\<exists>obj. v = JObject obj"
proof -
  from p obtain j where j: "j \<in> set (ids_to_process ho sel (fetch_all_entities source_pool (es_entity_type sel)))"
    "pick_of source_pool target_pool sel j = Some (t, i, v, n)"
    unfolding picks_def by (auto simp: map_filter_def)
  then have ij: "j = i" "t = es_entity_type sel"
    and get: "\<exists>data. contents source_pool t i = Some data \<and> (v, n) = final_value target_pool sel i (JObject data)"
    by (auto simp: pick_of_def fetch_get [OF assms(1)])
  show "t = es_entity_type sel" by (rule ij)
  show "\<exists>data. contents source_pool t i = Some data \<and> (v, n) = final_value target_pool sel i (JObject data)" by (rule get)
  show "es_entity_ids sel \<noteq> [] \<longrightarrow> i \<in> set (es_entity_ids sel)" using j(1) ij(1) by (auto simp: ids_to_process_def)
  from get show "\<exists>obj. v = JObject obj"
    by (auto simp: final_value_def fetch_get [OF assms(2)] case_prod_unfold Let_def split: option.splits)
qed

lemma picks_selected:
  assumes "db_ok source_pool" and "db_ok target_pool"
    and "(t, i) \<in> (\<lambda>(t, i, v, n). (t, i)) ` set (all_picks ho source_pool target_pool sels)"
  shows "selects source_pool sels t i"
proof -
  obtain sel v n where s: "sel \<in> set sels" "(t, i, v, n) \<in> set (picks ho source_pool target_pool sel)"
    using assms(3) by auto
  from pick_shape [OF assms(1,2) s(2)] s(1) show ?thesis unfolding selects_def by auto
qed

text \<open>What validation accepts.\<close>

lemma check_selections_ok:
  "fst (fold (check_selection C pool source_id) sels (vs, ws)) = [] \<longleftrightarrow>
   vs = [] \<and> (\<forall>sel \<in> set sels. \<forall>i \<in> set (es_entity_ids sel). \<forall>tb. pool (es_entity_type sel) = Some tb \<longrightarrow> i \<in> fst ` set (tb_rows tb))"
proof (induction sels arbitrary: vs ws)
  case Nil
  then show ?case by simp
next
  case (Cons sel sels)
  obtain vs' ws' where c: "check_selection C pool source_id sel (vs, ws) = (vs', ws')" by force
  have "vs' = [] \<longleftrightarrow> vs = [] \<and> (\<forall>i \<in> set (es_entity_ids sel). \<forall>tb. pool (es_entity_type sel) = Some tb \<longrightarrow> i \<in> fst ` set (tb_rows tb))"
    using c by (auto simp: check_selection_def filter_empty_conv split: if_splits option.splits)
  then show ?case using Cons.IH [of vs' ws'] by (auto simp: c)
qed

lemma validate_ok:
  "vr_ok (validate_cherry C pool cherry source target) \<longleftrightarrow>
   is_live (br_status source) \<and> br_status target = Active \<and>
   (\<forall>sel \<in> set (cp_entity_selections cherry). \<forall>i \<in> set (es_entity_ids sel).
      pool (es_entity_type sel) \<noteq> None \<longrightarrow> contents pool (es_entity_type sel) i \<noteq> None)"
proof -
  have c: "(\<forall>tb. pool t = Some tb \<longrightarrow> i \<in> fst ` set (tb_rows tb)) \<longleftrightarrow> (pool t \<noteq> None \<longrightarrow> contents pool t i \<noteq> None)" for t i
    by (cases "pool t") (simp_all add: contents_def map_of_eq_None_iff)
  show ?thesis
    unfolding validate_cherry_def Let_def case_prod_unfold validation_report.simps check_selections_ok c
    by (auto simp: is_live_def split: branch_status.splits)
qed

text \<open>The branches before, the target after, and the row a commit logs.\<close>

definition commit_entry :: "datetime \<Rightarrow> uuid \<Rightarrow> cherry_pick \<Rightarrow> string list \<Rightarrow> commit_log_entry" where
  "commit_entry now entry_id cherry ids =
     \<lparr>cl_id = entry_id, cl_branch_id = cp_target_branch_id cherry,
      cl_entity_type = (case cp_entity_selections cherry of [] \<Rightarrow> None | s # _ \<Rightarrow> Some (es_entity_type s)),
      cl_entity_ids = ids, cl_op_kind = ''cherry_pick'', cl_committed_at = now, cl_message = cp_message cherry\<rparr>"

lemma commit_success:
  assumes env: "store_env C K Q" and ok: "registry_ok C K R"
    and fresh: "\<forall>c \<in> set (rg_commits R). cw_id c \<noteq> uuid_str C entry_id"
    and s: "branches_of C K R (cp_source_branch_id cherry) = Some source" "br_workspace_id source = ws"
    and t: "branches_of C K R (cp_target_branch_id cherry) = Some target" "br_workspace_id target = ws"
    and valid: "vr_ok (validate_cherry C source_pool cherry source target)"
    and Inr: "res_foldM (apply_pick J) target_pool (all_picks ho source_pool target_pool (cp_entity_selections cherry)) = Inr tx"
  defines "ps \<equiv> all_picks ho source_pool target_pool (cp_entity_selections cherry)"
  shows "\<exists>R1. commit C K Q J ho now entry_id elapsed ws source_pool target_pool R cherry =
      (tx, R1, Inr \<lparr>co_committed_entity_count = of_nat (length ps),
        co_fields_updated = sum_list (map (\<lambda>(t, i, v, n). n) ps), co_duration_ms = elapsed,
        co_target_branch_id = cp_target_branch_id cherry, co_committed_at = now\<rparr>) \<and>
      registry_ok C K R1 \<and> branches_of C K R1 = branches_of C K R \<and>
      rg_commits R1 = rg_commits R @ [commit_row_of C K (commit_entry now entry_id cherry (map (\<lambda>(t, i, v, n). i) ps))]"
proof -
  let ?ps = "all_picks ho source_pool target_pool (cp_entity_selections cherry)"
  let ?ids = "map (\<lambda>(t, i, v, n). i) ?ps" and ?tgt = "cp_target_branch_id cherry"
  have src: "store_get C K Q R ws (cp_source_branch_id cherry) = Inr source" "store_get C K Q R ws ?tgt = Inr target"
    using s t by (simp_all add: store_env.get_eq [OF env ok])
  obtain R1 r1 where log: "insert_commit_log C K R (commit_entry now entry_id cherry ?ids) = (R1, r1)" by force
  have k: "cw_branch_id (commit_row_of C K (commit_entry now entry_id cherry ?ids)) = uuid_str C ?tgt"
    "cw_id (commit_row_of C K (commit_entry now entry_id cherry ?ids)) = uuid_str C entry_id"
    by (simp_all add: commit_row_of_def commit_entry_def)
  have "\<exists>x \<in> set (rg_branches R). rw_id x = uuid_str C ?tgt"
    using store_env.some_row(1) [OF env ok t(1)]
    by (intro bexI [of _ "branch_row_of C K target"]) (simp_all add: store_env.branches_of_id [OF env ok t(1)])
  then have "r1 = Inr ()"
    using log fresh by (auto simp: insert_commit_log_def k Let_def split: if_splits)
  note log = log [unfolded this]
  from store_env.commit_spec [OF env ok log] have spec: "registry_ok C K R1" "branches_of C K R1 = branches_of C K R"
    "rg_commits R1 = rg_commits R @ [commit_row_of C K (commit_entry now entry_id cherry ?ids)]"
    by simp_all
  moreover have "commit C K Q J ho now entry_id elapsed ws source_pool target_pool R cherry =
      (tx, R1, Inr \<lparr>co_committed_entity_count = of_nat (length ?ps),
        co_fields_updated = sum_list (map (\<lambda>(t, i, v, n). n) ?ps), co_duration_ms = elapsed,
        co_target_branch_id = ?tgt, co_committed_at = now\<rparr>)"
    using src valid Inr log by (simp add: commit_def commit_loop_eq tally_picks_def commit_entry_def)
  ultimately show ?thesis unfolding ps_def by blast
qed

lemma commit_run:
  assumes env: "store_env C K Q" and ok: "registry_ok C K R"
    and fresh: "\<forall>c \<in> set (rg_commits R). cw_id c \<noteq> uuid_str C entry_id"
    and run: "commit C K Q J ho now entry_id elapsed ws source_pool target_pool R cherry = (target', R', r)"
  shows "case r of
      Inl e \<Rightarrow> target' = target_pool \<and> R' = R
    | Inr res \<Rightarrow> \<exists>source target.
        branches_of C K R (cp_source_branch_id cherry) = Some source \<and> br_workspace_id source = ws \<and>
        branches_of C K R (cp_target_branch_id cherry) = Some target \<and> br_workspace_id target = ws \<and>
        vr_ok (validate_cherry C source_pool cherry source target) \<and>
        (let ps = all_picks ho source_pool target_pool (cp_entity_selections cherry)
         in res_foldM (apply_pick J) target_pool ps = Inr target' \<and>
            res = \<lparr>co_committed_entity_count = of_nat (length ps),
              co_fields_updated = sum_list (map (\<lambda>(t, i, v, n). n) ps), co_duration_ms = elapsed,
              co_target_branch_id = cp_target_branch_id cherry, co_committed_at = now\<rparr> \<and>
            registry_ok C K R' \<and> branches_of C K R' = branches_of C K R \<and>
            rg_commits R' = rg_commits R @ [commit_row_of C K (commit_entry now entry_id cherry (map (\<lambda>(t, i, v, n). i) ps))])"
proof -
  let ?src = "cp_source_branch_id cherry" and ?tgt = "cp_target_branch_id cherry"
  let ?ps = "all_picks ho source_pool target_pool (cp_entity_selections cherry)"
  let ?ids = "map (\<lambda>(t, i, v, n). i) ?ps"
  note get = store_env.get_eq [OF env ok]
  show ?thesis
  proof (cases "store_get C K Q R ws ?src")
    case (Inl e)
    then show ?thesis using run by (auto simp: commit_def)
  next
    case src: (Inr source)
    show ?thesis
    proof (cases "store_get C K Q R ws ?tgt")
      case (Inl e)
      then show ?thesis using run src by (auto simp: commit_def)
    next
      case tgt: (Inr target)
      have s: "branches_of C K R ?src = Some source" "br_workspace_id source = ws"
        using src by (auto simp: get split: option.splits if_splits)
      have t: "branches_of C K R ?tgt = Some target" "br_workspace_id target = ws"
        using tgt by (auto simp: get split: option.splits if_splits)
      show ?thesis
      proof (cases "vr_ok (validate_cherry C source_pool cherry source target)")
        case False
        then show ?thesis using run src tgt by (auto simp: commit_def)
      next
        case valid: True
        show ?thesis
        proof (cases "res_foldM (apply_pick J) target_pool ?ps")
          case (Inl e)
          then show ?thesis using run src tgt valid by (auto simp: commit_def commit_loop_eq)
        next
          case (Inr tx)
          from commit_success [OF env ok fresh s t valid Inr] obtain R1 where
            c: "commit C K Q J ho now entry_id elapsed ws source_pool target_pool R cherry =
              (tx, R1, Inr \<lparr>co_committed_entity_count = of_nat (length ?ps),
                co_fields_updated = sum_list (map (\<lambda>(t, i, v, n). n) ?ps), co_duration_ms = elapsed,
                co_target_branch_id = ?tgt, co_committed_at = now\<rparr>)" and
            spec: "registry_ok C K R1" "branches_of C K R1 = branches_of C K R"
            "rg_commits R1 = rg_commits R @ [commit_row_of C K (commit_entry now entry_id cherry ?ids)]" by blast
          from c run have "target' = tx" "R' = R1" "r = Inr \<lparr>co_committed_entity_count = of_nat (length ?ps),
                co_fields_updated = sum_list (map (\<lambda>(t, i, v, n). n) ?ps), co_duration_ms = elapsed,
                co_target_branch_id = ?tgt, co_committed_at = now\<rparr>" by simp_all
          then show ?thesis using s t valid Inr spec unfolding Let_def by simp
        qed
      qed
    qed
  qed
qed

lemma commit_picks:
  assumes "store_env C K Q" and "registry_ok C K R" and "\<forall>c \<in> set (rg_commits R). cw_id c \<noteq> uuid_str C entry_id"
    and "commit C K Q J ho now entry_id elapsed ws source_pool target_pool R cherry = (target', R', Inr res)"
  shows "res_foldM (apply_pick J) target_pool (all_picks ho source_pool target_pool (cp_entity_selections cherry)) = Inr target'"
    and "co_committed_entity_count res = of_nat (length (all_picks ho source_pool target_pool (cp_entity_selections cherry)))"
  using commit_run [OF assms] by (auto simp: Let_def)

lemma pick_made:
  assumes "db_ok source_pool" and "hash_order ho" and "contents source_pool (es_entity_type sel) i = Some data"
    and "es_entity_ids sel = [] \<or> i \<in> set (es_entity_ids sel)"
  shows "(es_entity_type sel, i, final_value target_pool sel i (JObject data)) \<in> set (picks ho source_pool target_pool sel)"
proof -
  let ?m = "fetch_all_entities source_pool (es_entity_type sel)"
  have "i \<in> set (obj_keys ?m)" using assms(3) by (simp add: fetch_keys [OF assms(1)])
  then have "i \<in> set (ids_to_process ho sel ?m)" using assms(4) hash_order.set_it [OF assms(2)] by (auto simp: ids_to_process_def)
  moreover have "pick_of source_pool target_pool sel i = Some (es_entity_type sel, i, final_value target_pool sel i (JObject data))"
    using assms(3) by (simp add: pick_of_def fetch_get [OF assms(1)])
  ultimately show ?thesis unfolding picks_def by (force simp: map_filter_def)
qed

lemma copy_fields_get:
  "obj_ok m \<Longrightarrow> obj_get (fst (copy_fields names source_obj (m, n))) c =
     (if c \<in> set names \<and> obj_get source_obj c \<noteq> None then obj_get source_obj c else obj_get m c)"
proof (induction names arbitrary: m n)
  case Nil
  then show ?case by (simp add: copy_fields_def)
next
  case (Cons f names)
  have "copy_fields (f # names) source_obj (m, n) = copy_fields names source_obj
      (case obj_get source_obj f of Some v \<Rightarrow> (obj_insert f v m, n + 1) | None \<Rightarrow> (m, n))"
    by (simp add: copy_fields_def)
  then show ?case using Cons by (cases "obj_get source_obj f") (auto simp: obj_get_insert)
qed

text \<open>The value a selection gives a field, \<open>data\<close> and \<open>old\<close> being the entity in the source and in the target.\<close>

definition picked_field :: "entity_selection \<Rightarrow> (string \<times> json) list \<Rightarrow> (string \<times> json) list option \<Rightarrow> string \<Rightarrow> json option" where
  "picked_field sel data old c =
     (case es_fields sel of
        None \<Rightarrow> obj_get data c
      | Some names \<Rightarrow> if c \<in> set names \<and> obj_get data c \<noteq> None then obj_get data c
          else Option.bind old (\<lambda>o'. obj_get o' c))"

lemma contents_ok:
  assumes "db_ok db" and "contents db t i = Some data"
  shows "obj_ok data"
proof -
  obtain tb where "db t = Some tb" "map_of (tb_rows tb) i = Some data"
    using assms(2) by (auto simp: contents_def split: option.splits)
  then have "table_ok tb" "(i, data) \<in> set (tb_rows tb)" using assms(1) by (auto simp: db_ok_def dest: map_of_SomeD)
  then show ?thesis by (auto simp: table_ok_def)
qed

lemma final_value_get:
  assumes "db_ok target_pool" and "final_value target_pool sel i (JObject data) = (JObject obj, n)"
  shows "obj_get obj c = picked_field sel data (contents target_pool (es_entity_type sel) i) c"
proof (cases "es_fields sel")
  case None
  then show ?thesis using assms(2) by (simp add: final_value_def picked_field_def)
next
  case (Some names)
  let ?old = "case contents target_pool (es_entity_type sel) i of Some o' \<Rightarrow> o' | None \<Rightarrow> []"
  have "obj_ok ?old"
    using contents_ok [OF assms(1)] by (simp split: option.split)
  moreover have "final_value target_pool sel i (JObject data) =
      (JObject (fst (copy_fields names data (?old, 0))), snd (copy_fields names data (?old, 0)))"
    by (cases "contents target_pool (es_entity_type sel) i")
      (simp_all add: final_value_def Some fetch_get [OF assms(1)] case_prod_unfold Let_def)
  ultimately show ?thesis using assms(2) copy_fields_get [of ?old names data 0 c]
    by (cases "contents target_pool (es_entity_type sel) i") (auto simp: picked_field_def Some)
qed

lemma commit_value:
  assumes env: "store_env C K Q" and ok: "registry_ok C K R" and s: "db_ok source_pool" and t: "db_ok target_pool"
    and ho: "hash_order ho" and fresh: "\<forall>c \<in> set (rg_commits R). cw_id c \<noteq> uuid_str C entry_id"
    and run: "commit C K Q J ho now entry_id elapsed ws source_pool target_pool R cherry = (target', R', Inr res)"
    and sels: "cp_entity_selections cherry = pre @ sel # post"
    and data: "contents source_pool (es_entity_type sel) i = Some data"
    and ids: "es_entity_ids sel = [] \<or> i \<in> set (es_entity_ids sel)"
    and last': "\<not> selects source_pool post (es_entity_type sel) i"
  shows "\<exists>tb row. target_pool (es_entity_type sel) = Some tb \<and> contents target' (es_entity_type sel) i = Some row \<and>
    (\<forall>c \<in> set (tb_columns tb) - {''id''}.
       case picked_field sel data (contents target_pool (es_entity_type sel) i) c of
         Some v \<Rightarrow> (\<exists>w. tb_cell tb c (json_to_str J v) = Inr w \<and> obj_get row c = Some w)
       | None \<Rightarrow> (\<exists>w. tb_default tb c = Inr w \<and> obj_get row c = Some w))"
proof -
  let ?t = "es_entity_type sel" and ?key = "\<lambda>(t, i, v, n). (t, i)"
  have run': "res_foldM (apply_pick J) target_pool
      (all_picks ho source_pool target_pool pre @ picks ho source_pool target_pool sel @ all_picks ho source_pool target_pool post) = Inr target'"
    using commit_picks(1) [OF env ok fresh run] unfolding sels by simp
  have "\<exists>p \<in> set (picks ho source_pool target_pool sel). ?key p = (?t, i)"
    by (rule bexI [OF _ pick_made [OF s ho data ids, of target_pool]]) (simp add: case_prod_unfold)
  then obtain a p b where p: "picks ho source_pool target_pool sel = a @ p # b" "?key p = (?t, i)" "\<forall>q \<in> set b. ?key q \<noteq> (?t, i)"
    using split_list_last_prop [of "picks ho source_pool target_pool sel" "\<lambda>p. ?key p = (?t, i)"] by blast
  obtain v n where pv: "p = (?t, i, v, n)" using p(2) by (cases p) auto
  have "(?t, i, v, n) \<in> set (picks ho source_pool target_pool sel)" using p(1) pv by simp
  note sh = pick_shape [OF s t this]
  obtain obj where obj: "v = JObject obj" using sh(4) by blast
  have fv: "final_value target_pool sel i (JObject data) = (JObject obj, n)" using sh(2) data obj by auto
  have "(?t, i) \<notin> ?key ` set b"
  proof (rule notI, erule imageE)
    fix q assume q: "(?t, i) = ?key q" "q \<in> set b"
    show False by (rule notE [OF bspec [OF p(3) q(2)] q(1) [symmetric]])
  qed
  moreover have "(?t, i) \<notin> ?key ` set (all_picks ho source_pool target_pool post)"
    using picks_selected [OF s t] last' by blast
  ultimately have none: "(?t, i) \<notin> ?key ` set (b @ all_picks ho source_pool target_pool post)"
    unfolding set_append image_Un by blast
  have "res_foldM (apply_pick J) target_pool ((all_picks ho source_pool target_pool pre @ a) @ (?t, i, JObject obj, n) #
      (b @ all_picks ho source_pool target_pool post)) = Inr target'"
    using run' p(1) pv obj by simp
  from picks_last [OF this t none] show ?thesis
    using final_value_get [OF t fv] by (simp add: obj_get_def)
qed

section \<open>A registry with two branches\<close>

definition child_example :: branch where
  "child_example = (branch_at 8 [''child''])\<lparr>br_name := ''child'', br_slug := ''child'', br_parent_id := Some 7\<rparr>"

lemma child_example_sel [simp]:
  "br_id child_example = 8" "br_workspace_id child_example = 0" "br_status child_example = Active"
  "br_slug child_example = ''child''" "br_metadata child_example = JObject []" "br_db_path child_example = [''child'']"
  by (simp_all add: child_example_def branch_at_def blank_branch_def)

definition two_registry :: registry where
  "two_registry = fst (store_insert decimal_codec compact_codec 0 trunk_registry child_example)"

lemma two_registry_spec:
  "registry_ok decimal_codec compact_codec two_registry"
  "branches_of decimal_codec compact_codec two_registry = [7 \<mapsto> trunk_example, 8 \<mapsto> child_example]"
  "rg_commits two_registry = []"
proof -
  have p: "printable (br_metadata child_example)" by simp
  have n: "\<not> clashes decimal_codec compact_codec trunk_registry child_example"
    by (simp add: clashes_def trunk_registry_step(3))
  from sample.insert_spec(2) [OF trunk_registry_step(2) p n, of 0] obtain R' where
    "store_insert decimal_codec compact_codec 0 trunk_registry child_example = (R', Inr ())"
    "registry_ok decimal_codec compact_codec R'"
    "branches_of decimal_codec compact_codec R' = [7 \<mapsto> trunk_example, 8 \<mapsto> child_example]" "rg_commits R' = []"
    by (auto simp: trunk_registry_step)
  then show "registry_ok decimal_codec compact_codec two_registry"
    "branches_of decimal_codec compact_codec two_registry = [7 \<mapsto> trunk_example, 8 \<mapsto> child_example]"
    "rg_commits two_registry = []"
    by (simp_all add: two_registry_def)
qed

abbreviation sample_commit where
  "sample_commit m source_pool target_pool sels \<equiv>
     commit decimal_codec compact_codec table_order plain_printer sorted_list_of_set 0 3 0 0 source_pool target_pool two_registry
       \<lparr>cp_source_branch_id = 8, cp_target_branch_id = 7, cp_entity_selections = sels, cp_message = m\<rparr>"

abbreviation sample_picks where
  "sample_picks source_pool target_pool sels \<equiv> all_picks sorted_list_of_set source_pool target_pool sels"

lemma sample_commit_run:
  assumes "\<forall>sel \<in> set sels. \<forall>i \<in> set (es_entity_ids sel).
      source_pool (es_entity_type sel) \<noteq> None \<longrightarrow> contents source_pool (es_entity_type sel) i \<noteq> None"
    and "res_foldM (apply_pick plain_printer) target_pool (sample_picks source_pool target_pool sels) = Inr tx"
  shows "\<exists>R1 res. sample_commit m source_pool target_pool sels = (tx, R1, Inr res) \<and>
    co_committed_entity_count res = of_nat (length (sample_picks source_pool target_pool sels))"
proof -
  let ?cherry = "\<lparr>cp_source_branch_id = 8, cp_target_branch_id = 7, cp_entity_selections = sels, cp_message = m\<rparr>"
  have fresh: "\<forall>c \<in> set (rg_commits two_registry). cw_id c \<noteq> uuid_str decimal_codec 3" by (simp add: two_registry_spec(3))
  have s: "branches_of decimal_codec compact_codec two_registry (cp_source_branch_id ?cherry) = Some child_example"
    "branches_of decimal_codec compact_codec two_registry (cp_target_branch_id ?cherry) = Some trunk_example"
    by (simp_all add: two_registry_spec(2))
  have v: "vr_ok (validate_cherry decimal_codec source_pool ?cherry child_example trunk_example)"
    using assms(1) by (simp add: validate_ok)
  have run: "res_foldM (apply_pick plain_printer) target_pool (sample_picks source_pool target_pool (cp_entity_selections ?cherry)) = Inr tx"
    using assms(2) by simp
  from commit_success [OF sample.store_env_axioms two_registry_spec(1) fresh s(1) child_example_sel(2) s(2) trunk_example_sel(3) v run,
      of 0 0] show ?thesis
    unfolding cherry_pick.select_convs by (elim exE conjE) (rule exI, rule exI, rule conjI, assumption, simp)
qed

text \<open>An upsert into the sample table succeeds when it lists only its columns.\<close>

lemma text_upsert:
  assumes "schema tx = schema (text_db rows)" and "fst ` set obj \<subseteq> {''id'', ''name''}"
  shows "\<exists>tx'. upsert_entity_tx J tx MemoryRecord i (JObject obj) = Inr tx' \<and> schema tx' = schema (text_db rows)"
proof -
  obtain tb0 where tb0: "text_db rows MemoryRecord = Some tb0" "tb_columns tb0 = [''id'', ''name'']"
    "tb_cell tb0 = (\<lambda>c a. Inr (text_cell a))" "tb_default tb0 = (\<lambda>c. Inr JNull)" by (simp add: text_db_def)
  obtain tb where tb: "tx MemoryRecord = Some tb" "tb_columns tb = [''id'', ''name'']"
    "tb_cell tb = (\<lambda>c a. Inr (text_cell a))" "tb_default tb = (\<lambda>c. Inr JNull)"
    by (rule schema_table [OF assms(1) tb0(1)]) (simp_all add: tb0)
  have c: "\<exists>w. stored_cell tb binds c = Inr w" for binds c
    by (simp add: stored_cell_def tb split: option.split)
  let ?binds = "(''id'', Some i) # map (\<lambda>(k, v). (k, json_to_str J v)) (filter (\<lambda>(k, v). k \<noteq> ''id'') obj)"
  have "list_all (\<lambda>(c, _). c \<in> set (tb_columns tb)) ?binds"
    using assms(2) by (auto simp: list_all_iff tb)
  then have "\<exists>tx'. exec_replace tx MemoryRecord i ?binds = Inr tx'"
    using c [of ?binds "''id''"] c [of ?binds "''name''"] by (auto simp: exec_replace_Inr tb)
  then obtain tx' where tx': "upsert_entity_tx J tx MemoryRecord i (JObject obj) = Inr tx'"
    by (auto simp: upsert_entity_tx_def)
  have "res_foldM (batch_step J) (tx, 0) [change_of (MemoryRecord, i, JObject obj, 0)] = Inr (tx', 1)"
    using tx' by (simp add: batch_step_change apply_pick_def)
  from batch_schema [OF this] tx' assms(1) show ?thesis by simp
qed

section \<open>Properties\<close>

text \<open>
  C6: a cherry-pick is all or nothing. If it fails, the target database and the registry are as they were.
  If it succeeds, the source was live and the target active, every entity named was in the source, no
  entity that is not selected has changed, no branch has changed, and the commit log has one more entry,
  with the identifiers written, as many as the result counts.
\<close>

theorem commit_correct:
  assumes "store_env C K Q" and "registry_ok C K R" and "db_ok source_pool" and "db_ok target_pool"
    and "\<forall>c \<in> set (rg_commits R). cw_id c \<noteq> uuid_str C entry_id"
    and "commit C K Q J ho now entry_id elapsed ws source_pool target_pool R cherry = (target', R', r)"
  shows "case r of
      Inl e \<Rightarrow> target' = target_pool \<and> R' = R
    | Inr res \<Rightarrow>
        (\<exists>source target.
          branches_of C K R (cp_source_branch_id cherry) = Some source \<and> br_workspace_id source = ws \<and>
          is_live (br_status source) \<and>
          branches_of C K R (cp_target_branch_id cherry) = Some target \<and> br_workspace_id target = ws \<and>
          br_status target = Active) \<and>
        (\<forall>sel \<in> set (cp_entity_selections cherry). \<forall>i \<in> set (es_entity_ids sel).
          source_pool (es_entity_type sel) \<noteq> None \<longrightarrow> contents source_pool (es_entity_type sel) i \<noteq> None) \<and>
        registry_ok C K R' \<and> branches_of C K R' = branches_of C K R \<and> db_ok target' \<and>
        (\<forall>t i. \<not> selects source_pool (cp_entity_selections cherry) t i \<longrightarrow> contents target' t i = contents target_pool t i) \<and>
        (\<exists>ids. rg_commits R' = rg_commits R @ [commit_row_of C K (commit_entry now entry_id cherry ids)] \<and>
           co_committed_entity_count res = of_nat (length ids) \<and>
           (\<forall>i \<in> set ids. \<exists>t. selects source_pool (cp_entity_selections cherry) t i))"
proof (cases r)
  case (Inl e)
  then show ?thesis using commit_run [OF assms(1,2,5,6)] by simp
next
  case (Inr res)
  let ?ps = "all_picks ho source_pool target_pool (cp_entity_selections cherry)"
  let ?ids = "map (\<lambda>(t, i, v, n). i) ?ps"
  from commit_run [OF assms(1,2,5,6)] Inr obtain source target where
    b: "branches_of C K R (cp_source_branch_id cherry) = Some source" "br_workspace_id source = ws"
      "branches_of C K R (cp_target_branch_id cherry) = Some target" "br_workspace_id target = ws"
      "vr_ok (validate_cherry C source_pool cherry source target)" and
    run: "res_foldM (apply_pick J) target_pool ?ps = Inr target'" and
    n: "co_committed_entity_count res = of_nat (length ?ps)" and
    R': "registry_ok C K R'" "branches_of C K R' = branches_of C K R"
      "rg_commits R' = rg_commits R @ [commit_row_of C K (commit_entry now entry_id cherry ?ids)]"
    by (auto simp: Let_def)
  note sel = picks_selected [OF assms(3,4)]
  have "\<exists>t. selects source_pool (cp_entity_selections cherry) t i" if i: "i \<in> set ?ids" for i
  proof -
    from i obtain p where p: "p \<in> set ?ps" "i = (\<lambda>(t, i, v, n). i) p" unfolding set_map by blast
    obtain t j v m where q: "p = (t, j, v, m)" by (rule prod_cases4)
    with p(2) have "j = i" by simp
    then have "(t, i, v, m) \<in> set ?ps" using p(1) q by (simp only:)
    then have "(t, i) \<in> (\<lambda>(t, i, v, n). (t, i)) ` set ?ps" by (rule rev_image_eqI) simp
    from sel [OF this] show ?thesis by blast
  qed
  moreover have "co_committed_entity_count res = of_nat (length ?ids)" by (simp add: n)
  moreover note picks_frame [OF run assms(4)] sel b [unfolded validate_ok] R'
  ultimately show ?thesis unfolding Inr sum.case by blast
qed

theorem commit_correct_witness:
  "\<exists>R' res. sample_commit None (text_db [(''1'', ''x'')]) (text_db []) [] = (text_db [], R', Inr res) \<and>
     length (rg_commits R') = 1"
proof -
  obtain R' res where run: "sample_commit None (text_db [(''1'', ''x'')]) (text_db []) [] = (text_db [], R', Inr res)"
    using sample_commit_run [where m = None and tx = "text_db []" and sels = "[]" and source_pool = "text_db [(''1'', ''x'')]" and target_pool = "text_db []"] by auto
  have ok: "db_ok (text_db [(''1'', ''x'')])" "db_ok (text_db [])" by (simp_all add: text_db_ok)
  have fresh: "\<forall>c \<in> set (rg_commits two_registry). cw_id c \<noteq> uuid_str decimal_codec 3" by (simp add: two_registry_spec(3))
  from commit_correct [OF sample.store_env_axioms two_registry_spec(1) ok fresh run] run two_registry_spec(3)
  show ?thesis by auto
qed

text \<open>
  C7: what a successful commit leaves in an entity is decided by the last selection that selects it. A
  field of that selection gets the value of the source as the table stores it; a field it does not select
  gets the value the target had before the whole commit, not what an earlier selection of the same commit
  wrote; a column neither has gets its default.
\<close>

theorem commit_writes:
  assumes "store_env C K Q" and "registry_ok C K R" and "db_ok source_pool" and "db_ok target_pool"
    and "hash_order ho" and "\<forall>c \<in> set (rg_commits R). cw_id c \<noteq> uuid_str C entry_id"
    and "commit C K Q J ho now entry_id elapsed ws source_pool target_pool R cherry = (target', R', Inr res)"
    and "cp_entity_selections cherry = pre @ sel # post"
    and "contents source_pool (es_entity_type sel) i = Some data"
    and "es_entity_ids sel = [] \<or> i \<in> set (es_entity_ids sel)"
    and "\<not> selects source_pool post (es_entity_type sel) i"
  shows "\<exists>tb row. target_pool (es_entity_type sel) = Some tb \<and> contents target' (es_entity_type sel) i = Some row \<and>
    (\<forall>c \<in> set (tb_columns tb) - {''id''}.
       case picked_field sel data (contents target_pool (es_entity_type sel) i) c of
         Some v \<Rightarrow> (\<exists>w. tb_cell tb c (json_to_str J v) = Inr w \<and> obj_get row c = Some w)
       | None \<Rightarrow> (\<exists>w. tb_default tb c = Inr w \<and> obj_get row c = Some w))"
  by (rule commit_value [OF assms])

text \<open>Two field-wise selections of one entity: the first is lost, though both are counted.\<close>

theorem commit_writes_witness:
  "\<exists>target' R' res row.
     sample_commit None (text_db [(''1'', ''new'')]) (text_db [(''1'', ''old'')])
       [\<lparr>es_entity_type = MemoryRecord, es_entity_ids = [''1''], es_fields = Some [''name'']\<rparr>,
        \<lparr>es_entity_type = MemoryRecord, es_entity_ids = [''1''], es_fields = Some []\<rparr>] = (target', R', Inr res) \<and>
     co_committed_entity_count res = 2 \<and>
     contents target' MemoryRecord ''1'' = Some row \<and> obj_get row ''name'' = Some (JString ''old'')"
proof -
  let ?s = "text_db [(''1'', ''new'')]" and ?t = "text_db [(''1'', ''old'')]"
  let ?a = "\<lparr>es_entity_type = MemoryRecord, es_entity_ids = [''1''], es_fields = Some [''name'']\<rparr>"
  let ?b = "\<lparr>es_entity_type = MemoryRecord, es_entity_ids = [''1''], es_fields = Some []\<rparr>"
  have ok: "db_ok ?s" "db_ok ?t" by (simp_all add: text_db_ok)
  have data: "contents ?s MemoryRecord ''1'' = Some [(''id'', JString ''1''), (''name'', JString ''new'')]"
    by (simp add: text_db_contents)
  have p: "pick_of ?s ?t sel ''1'' = Some (MemoryRecord, ''1'', final_value ?t sel ''1'' (JObject [(''id'', JString ''1''), (''name'', JString ''new'')]))"
    if "es_entity_type sel = MemoryRecord" for sel
    using that by (simp add: pick_of_def fetch_get [OF ok(1)] data)
  let ?new = "[(''id'', JString ''1''), (''name'', JString ''new'')]" and ?old = "[(''id'', JString ''1''), (''name'', JString ''old'')]"
  have g: "obj_get ?new ''name'' = Some (JString ''new'')" by (simp add: obj_get_def)
  have a: "final_value ?t ?a ''1'' (JObject ?new) = (JObject ?new, 1)"
    using g by (simp add: final_value_def copy_fields_def fetch_get [OF ok(2)] text_db_contents Let_def)
  have b: "final_value ?t ?b ''1'' (JObject ?new) = (JObject ?old, 0)"
    by (simp add: final_value_def copy_fields_def fetch_get [OF ok(2)] text_db_contents Let_def)
  have ps: "sample_picks ?s ?t [?a, ?b] =
      [(MemoryRecord, ''1'', JObject ?new, 1), (MemoryRecord, ''1'', JObject ?old, 0)]"
    unfolding list.map concat.simps picks_def using p [of ?a] p [of ?b]
    by (simp add: ids_to_process_def List.map_filter_simps a b)
  obtain t1 where t1: "upsert_entity_tx plain_printer ?t MemoryRecord ''1'' (JObject ?new) = Inr t1"
    "schema t1 = schema ?t"
    using text_upsert [where obj = ?new and J = plain_printer and i = "''1''", OF refl] by (auto simp: keys_obj_insert)
  obtain t2 where t2: "upsert_entity_tx plain_printer t1 MemoryRecord ''1'' (JObject ?old) = Inr t2"
    using text_upsert [where obj = ?old and J = plain_printer and i = "''1''", OF t1(2)] by auto
  have r: "res_foldM (apply_pick plain_printer) ?t (sample_picks ?s ?t [?a, ?b]) = Inr t2"
    unfolding ps by (simp add: apply_pick_def t1(1) t2)
  have v: "\<forall>sel \<in> set [?a, ?b]. \<forall>i \<in> set (es_entity_ids sel).
      ?s (es_entity_type sel) \<noteq> None \<longrightarrow> contents ?s (es_entity_type sel) i \<noteq> None"
    by (simp add: data)
  obtain R' res where run: "sample_commit None ?s ?t [?a, ?b] = (t2, R', Inr res)" and
    m: "co_committed_entity_count res = of_nat (length (sample_picks ?s ?t [?a, ?b]))"
    using sample_commit_run [OF v r] by blast
  have n: "co_committed_entity_count res = 2" unfolding m ps by simp
  have fresh: "\<forall>c \<in> set (rg_commits two_registry). cw_id c \<noteq> uuid_str decimal_codec 3" by (simp add: two_registry_spec(3))
  let ?cherry = "\<lparr>cp_source_branch_id = 8, cp_target_branch_id = 7, cp_entity_selections = [?a, ?b], cp_message = None\<rparr>"
  have sel: "cp_entity_selections ?cherry = [?a] @ ?b # []" by simp
  have d: "contents ?s (es_entity_type ?b) ''1'' = Some ?new" using data by simp
  have ids: "es_entity_ids ?b = [] \<or> ''1'' \<in> set (es_entity_ids ?b)" by simp
  have last': "\<not> selects ?s [] (es_entity_type ?b) ''1''" by (simp add: selects_def)
  from commit_writes [OF sample.store_env_axioms two_registry_spec(1) ok sorted_order.hash_order_axioms fresh run sel d ids last'] obtain tb row where
    tb: "?t MemoryRecord = Some tb" and row: "contents t2 MemoryRecord ''1'' = Some row" and
    cols: "\<forall>c \<in> set (tb_columns tb) - {''id''}. case picked_field ?b ?new (contents ?t MemoryRecord ''1'') c of
         Some v \<Rightarrow> (\<exists>w. tb_cell tb c (json_to_str plain_printer v) = Inr w \<and> obj_get row c = Some w)
       | None \<Rightarrow> (\<exists>w. tb_default tb c = Inr w \<and> obj_get row c = Some w)"
    by auto
  have pf: "picked_field ?b ?new (contents ?t MemoryRecord ''1'') ''name'' = Some (JString ''old'')"
    by (simp add: picked_field_def text_db_contents obj_get_def)
  have "obj_get row ''name'' = Some (JString ''old'')"
    using tb bspec [OF cols, of "''name''"] unfolding pf by (auto simp: text_db_def text_cell_def)
  then show ?thesis using run n row by blast
qed

lemma whole_picks:
  assumes "db_ok source_pool" and "hash_order ho"
  shows "length (picks ho source_pool target_pool (whole_type t)) = card {i. contents source_pool t i \<noteq> None}"
proof -
  let ?m = "fetch_all_entities source_pool t"
  have k: "set (obj_keys ?m) = {i. contents source_pool t i \<noteq> None}" by (rule fetch_keys [OF assms(1)])
  have "finite {i. contents source_pool t i \<noteq> None}" unfolding k [symmetric] by (rule finite_set)
  then have ho: "set (ho (set (obj_keys ?m))) = {i. contents source_pool t i \<noteq> None}" "distinct (ho (set (obj_keys ?m)))"
    using hash_order.set_it [OF assms(2)] hash_order.distinct_it [OF assms(2)] unfolding k by blast+
  have "pick_of source_pool target_pool (whole_type t) i \<noteq> None" if "i \<in> set (ho (set (obj_keys ?m)))" for i
    using that unfolding ho(1) by (simp add: pick_of_def fetch_get [OF assms(1)] whole_type_def)
  then have "length (picks ho source_pool target_pool (whole_type t)) = length (ho (set (obj_keys ?m)))"
    unfolding picks_def ids_to_process_def by (simp add: whole_type_def map_filter_def filter_id_conv)
  then show ?thesis using distinct_card [OF ho(2)] ho(1) by simp
qed

text \<open>
  C8: \<open>commit_all\<close>, which commits a branch to the trunk, makes every entity of the source that of the target,
  column by column as the table stores it, and keeps every entity only the target has: what the source
  deleted stays. It counts the entities of the source.
\<close>

theorem commit_all_promotes:
  assumes "store_env C K Q" and "registry_ok C K R" and "db_ok source_pool" and "db_ok target_pool"
    and "hash_order ho" and "\<forall>c \<in> set (rg_commits R). cw_id c \<noteq> uuid_str C entry_id"
    and "commit_all C K Q J ho now entry_id elapsed ws source_pool target_pool R source_id target_id = (target', R', Inr res)"
  shows "(\<forall>t i. case contents source_pool t i of
      None \<Rightarrow> contents target' t i = contents target_pool t i
    | Some data \<Rightarrow> (\<exists>tb row. target_pool t = Some tb \<and> contents target' t i = Some row \<and>
        (\<forall>c \<in> set (tb_columns tb) - {''id''}.
           case obj_get data c of
             Some v \<Rightarrow> (\<exists>w. tb_cell tb c (json_to_str J v) = Inr w \<and> obj_get row c = Some w)
           | None \<Rightarrow> (\<exists>w. tb_default tb c = Inr w \<and> obj_get row c = Some w)))) \<and>
    co_committed_entity_count res = of_nat (\<Sum>t \<leftarrow> [MemoryRecord, Session, ToolOutput]. card {i. contents source_pool t i \<noteq> None})"
proof -
  let ?sels = "[whole_type MemoryRecord, whole_type Session, whole_type ToolOutput]"
  let ?cherry = "\<lparr>cp_source_branch_id = source_id, cp_target_branch_id = target_id, cp_entity_selections = ?sels,
      cp_message = Some ''commit_all''\<rparr>"
  note run = assms(7) [unfolded commit_all_def]
  have sels: "cp_entity_selections ?cherry = ?sels" by simp
  note fold = commit_picks(1) [OF assms(1,2,6) run, unfolded sels]
  note n = commit_picks(2) [OF assms(1,2,6) run, unfolded sels]
  have keep: "contents target' t i = contents target_pool t i" if "contents source_pool t i = None" for t i
    using picks_frame [OF fold assms(4)] picks_selected [OF assms(3,4), of t i ho ?sels] that
    unfolding selects_def by blast
  have promoted: "\<exists>tb row. target_pool t = Some tb \<and> contents target' t i = Some row \<and>
        (\<forall>c \<in> set (tb_columns tb) - {''id''}.
           case obj_get data c of
             Some v \<Rightarrow> (\<exists>w. tb_cell tb c (json_to_str J v) = Inr w \<and> obj_get row c = Some w)
           | None \<Rightarrow> (\<exists>w. tb_default tb c = Inr w \<and> obj_get row c = Some w))"
    if data: "contents source_pool t i = Some data" for t i data
  proof -
    obtain pre post where split: "?sels = pre @ whole_type t # post" and other: "\<forall>s \<in> set post. es_entity_type s \<noteq> t"
    proof (cases t)
      case MemoryRecord
      then show ?thesis using that [of "[]" "[whole_type Session, whole_type ToolOutput]"] by (simp add: whole_type_def)
    next
      case Session
      then show ?thesis using that [of "[whole_type MemoryRecord]" "[whole_type ToolOutput]"] by (simp add: whole_type_def)
    next
      case ToolOutput
      then show ?thesis using that [of "[whole_type MemoryRecord, whole_type Session]" "[]"] by (simp add: whole_type_def)
    qed
    have w: "es_entity_type (whole_type t) = t" "es_entity_ids (whole_type t) = []" "es_fields (whole_type t) = None"
      by (simp_all add: whole_type_def)
    have "\<not> selects source_pool post (es_entity_type (whole_type t)) i" using other by (auto simp: selects_def w)
    from commit_value [OF assms(1-6) run trans [OF sels split] _ disjI1 [OF w(2)] this, unfolded w(1), OF data] show ?thesis
      unfolding w(1) picked_field_def w(3) option.case .
  qed
  have "length (all_picks ho source_pool target_pool ?sels) =
      (\<Sum>t \<leftarrow> [MemoryRecord, Session, ToolOutput]. card {i. contents source_pool t i \<noteq> None})"
    by (simp add: whole_picks [OF assms(3,5)])
  then show ?thesis using keep promoted n by (auto split: option.split)
qed

theorem commit_all_promotes_witness:
  "\<exists>target' R' res row kept.
     commit_all decimal_codec compact_codec table_order plain_printer sorted_list_of_set 0 3 0 0
       (text_db [(''1'', ''x'')]) (text_db [(''2'', ''y'')]) two_registry 8 7 = (target', R', Inr res) \<and>
     co_committed_entity_count res = 1 \<and>
     contents target' MemoryRecord ''1'' = Some row \<and> obj_get row ''name'' = Some (JString ''x'') \<and>
     contents target' MemoryRecord ''2'' = Some kept"
proof -
  let ?s = "text_db [(''1'', ''x'')]" and ?t = "text_db [(''2'', ''y'')]"
  let ?sels = "[whole_type MemoryRecord, whole_type Session, whole_type ToolOutput]"
  let ?data = "[(''id'', JString ''1''), (''name'', JString ''x'')]"
  have ok: "db_ok ?s" "db_ok ?t" by (simp_all add: text_db_ok)
  have none: "fetch_all_entities ?s t = []" if "t \<noteq> MemoryRecord" for t
    using that by (simp add: fetch_all_entities_def text_db_def)
  have keys: "set (obj_keys (fetch_all_entities ?s MemoryRecord)) = {''1''}"
    unfolding fetch_keys [OF ok(1)] by (auto simp: text_db_contents)
  have p: "pick_of ?s ?t (whole_type MemoryRecord) ''1'' = Some (MemoryRecord, ''1'', JObject ?data, 2)"
    by (simp add: pick_of_def fetch_get [OF ok(1)] text_db_contents final_value_def whole_type_def)
  have "picks sorted_list_of_set ?s ?t (whole_type MemoryRecord) = [(MemoryRecord, ''1'', JObject ?data, 2)]"
    using keys p by (simp add: picks_def ids_to_process_def whole_type_def List.map_filter_simps)
  moreover have "picks sorted_list_of_set ?s ?t (whole_type t) = []" if "t \<noteq> MemoryRecord" for t
    using none [OF that] by (simp add: picks_def ids_to_process_def whole_type_def obj_keys_def List.map_filter_simps)
  ultimately have ps: "sample_picks ?s ?t ?sels = [(MemoryRecord, ''1'', JObject ?data, 2)]" by simp
  obtain t1 where t1: "upsert_entity_tx plain_printer ?t MemoryRecord ''1'' (JObject ?data) = Inr t1"
    using text_upsert [where obj = ?data and J = plain_printer and i = "''1''", OF refl] by auto
  have r: "res_foldM (apply_pick plain_printer) ?t (sample_picks ?s ?t ?sels) = Inr t1"
    unfolding ps by (simp add: apply_pick_def t1)
  have v: "\<forall>sel \<in> set ?sels. \<forall>i \<in> set (es_entity_ids sel).
      ?s (es_entity_type sel) \<noteq> None \<longrightarrow> contents ?s (es_entity_type sel) i \<noteq> None"
    by (simp add: whole_type_def)
  obtain R' res where run: "sample_commit (Some ''commit_all'') ?s ?t ?sels = (t1, R', Inr res)" and
    m: "co_committed_entity_count res = of_nat (length (sample_picks ?s ?t ?sels))"
    using sample_commit_run [OF v r] by blast
  have n: "co_committed_entity_count res = 1" unfolding m ps by simp
  have fresh: "\<forall>c \<in> set (rg_commits two_registry). cw_id c \<noteq> uuid_str decimal_codec 3" by (simp add: two_registry_spec(3))
  note all = commit_all_promotes [OF sample.store_env_axioms two_registry_spec(1) ok sorted_order.hash_order_axioms fresh run [folded commit_all_def]]
  have "case contents ?s MemoryRecord ''1'' of
      None \<Rightarrow> contents t1 MemoryRecord ''1'' = contents ?t MemoryRecord ''1''
    | Some data \<Rightarrow> (\<exists>tb row. ?t MemoryRecord = Some tb \<and> contents t1 MemoryRecord ''1'' = Some row \<and>
        (\<forall>c \<in> set (tb_columns tb) - {''id''}.
           case obj_get data c of
             Some v \<Rightarrow> (\<exists>w. tb_cell tb c (json_to_str plain_printer v) = Inr w \<and> obj_get row c = Some w)
           | None \<Rightarrow> (\<exists>w. tb_default tb c = Inr w \<and> obj_get row c = Some w)))"
    using all by blast
  then have "\<exists>row. contents t1 MemoryRecord ''1'' = Some row \<and> obj_get row ''name'' = Some (JString ''x'')"
    by (auto simp: text_db_contents text_db_def text_cell_def obj_get_def)
  moreover have "case contents ?s MemoryRecord ''2'' of
      None \<Rightarrow> contents t1 MemoryRecord ''2'' = contents ?t MemoryRecord ''2''
    | Some data \<Rightarrow> (\<exists>tb row. ?t MemoryRecord = Some tb \<and> contents t1 MemoryRecord ''2'' = Some row \<and>
        (\<forall>c \<in> set (tb_columns tb) - {''id''}.
           case obj_get data c of
             Some v \<Rightarrow> (\<exists>w. tb_cell tb c (json_to_str plain_printer v) = Inr w \<and> obj_get row c = Some w)
           | None \<Rightarrow> (\<exists>w. tb_default tb c = Inr w \<and> obj_get row c = Some w)))"
    using all by blast
  then have "contents t1 MemoryRecord ''2'' = Some [(''id'', JString ''2''), (''name'', JString ''y'')]"
    by (simp add: text_db_contents)
  ultimately show ?thesis using run n unfolding commit_all_def by blast
qed

end
