(* ===== verification/Engine.thy ===== *)
theory Engine
  imports Sandbox Commit Persist ThreeWay
begin

text \<open>
  \<open>src/engine.rs\<close>: the coordinator over all components. Its state is the world and whether the garbage
  collector is scheduled. Besides the services, the engine takes what the components it calls take: the order
  of hash maps, the JSON printer, the texts of errors, numbers and dates, the subtraction of times, and the
  bytes of a SQLite file after transactions have left a given database in it.
\<close>

record engine_env =
  en_hash :: "string set \<Rightarrow> string list"
  en_printer :: json_printer
  en_write :: "string \<Rightarrow> branch_db \<Rightarrow> string"
  en_error :: "branch_error \<Rightarrow> string"
  en_fmt :: "real \<Rightarrow> string"
  en_date :: "datetime \<Rightarrow> string"
  en_sub :: "datetime \<Rightarrow> int \<Rightarrow> datetime option"

section \<open>Access\<close>

definition ensure_workspace_access :: "('g, 'h) services \<Rightarrow> branch \<Rightarrow> unit branch_result" where
  "ensure_workspace_access S b =
     (if br_workspace_id b \<noteq> cf_workspace_id (sv_config S)
      then Inl (WorkspaceIsolationViolation (cf_workspace_id (sv_config S)) (br_workspace_id b))
      else Inr ())"

definition lookup :: "('g, 'h) services \<Rightarrow> 'g world \<Rightarrow> uuid \<Rightarrow> branch branch_result" where
  "lookup S w id' = sv_get S (wd_registry w) (cf_workspace_id (sv_config S)) id'"

definition engine_get :: "('g, 'h) services \<Rightarrow> 'g world \<Rightarrow> uuid \<Rightarrow> branch branch_result" where
  "engine_get S w id' =
     res_bind (lookup S w id') (\<lambda>b. res_bind (ensure_workspace_access S b) (\<lambda>_. Inr b))"

definition engine_get_by_name :: "('g, 'h) services \<Rightarrow> 'g world \<Rightarrow> string \<Rightarrow> branch branch_result" where
  "engine_get_by_name S w name =
     store_get_by_name (sv_codec S) (sv_text S) (sv_order S) (wd_registry w) (cf_workspace_id (sv_config S)) name"

definition engine_list :: "('g, 'h) services \<Rightarrow> 'g world \<Rightarrow> branch_status option \<Rightarrow> branch list branch_result" where
  "engine_list S w status =
     res_bind (store_list (sv_codec S) (sv_text S) (sv_order S) (wd_registry w) (cf_workspace_id (sv_config S)) status)
       (\<lambda>branches. res_bind (res_mapM (ensure_workspace_access S) branches) (\<lambda>_. Inr branches))"

definition trunk_opt :: "('g, 'h) services \<Rightarrow> 'g world \<Rightarrow> branch option branch_result" where
  "trunk_opt S w =
     (let trunk_name = cf_trunk_branch_name (sv_config S)
      in case store_get_by_slug (sv_codec S) (sv_text S) (sv_order S) (wd_registry w) (cf_workspace_id (sv_config S)) trunk_name of
           Inr b \<Rightarrow> Inr (Some b)
         | Inl (BranchNotFound _) \<Rightarrow> Inr None
         | Inl (BranchAlreadyExists name) \<Rightarrow>
             if name = trunk_name then Inr None else Inl (BranchAlreadyExists name)
         | Inl e \<Rightarrow> Inl e)"

definition engine_trunk :: "('g, 'h) services \<Rightarrow> 'g world \<Rightarrow> branch branch_result" where
  "engine_trunk S w = res_bind (trunk_opt S w) (ok_or (NamingError ''trunk branch not found''))"

section \<open>Branches\<close>

definition engine_fork ::
    "('g, 'h) services \<Rightarrow> (nat \<Rightarrow> datetime) \<Rightarrow> uuid \<Rightarrow> 'g world \<Rightarrow> uuid \<Rightarrow> string \<Rightarrow> string option \<Rightarrow>
     ('g world \<times> branch branch_result) option" where
  "engine_fork S clock branch_id w parent_id name description =
     (case engine_get S w parent_id of
        Inl e \<Rightarrow> Some (w, Inl e)
      | Inr _ \<Rightarrow> fork S clock branch_id w parent_id name description)"

definition engine_fork_trunk ::
    "('g, 'h) services \<Rightarrow> (nat \<Rightarrow> datetime) \<Rightarrow> uuid \<Rightarrow> 'g world \<Rightarrow> string \<Rightarrow>
     ('g world \<times> branch branch_result) option" where
  "engine_fork_trunk S clock branch_id w name =
     (case validate name of
        Inl e \<Rightarrow> Some (w, Inl e)
      | Inr _ \<Rightarrow>
          (case engine_trunk S w of
             Inl e \<Rightarrow> Some (w, Inl e)
           | Inr trunk \<Rightarrow> fork S clock branch_id w (br_id trunk) name None))"

definition engine_discard ::
    "('g, 'h) services \<Rightarrow> (nat \<Rightarrow> datetime) \<Rightarrow> 'g world \<Rightarrow> uuid \<Rightarrow> 'g world \<times> unit branch_result" where
  "engine_discard S clock w id' =
     (case engine_get S w id' of Inl e \<Rightarrow> (w, Inl e) | Inr _ \<Rightarrow> discard S clock w id')"

definition engine_archive ::
    "('g, 'h) services \<Rightarrow> (nat \<Rightarrow> datetime) \<Rightarrow> 'g world \<Rightarrow> uuid \<Rightarrow> 'g world \<times> unit branch_result" where
  "engine_archive S clock w id' =
     (case engine_get S w id' of Inl e \<Rightarrow> (w, Inl e) | Inr _ \<Rightarrow> archive S clock w id')"

section \<open>Diff and merge\<close>

text \<open>Two lookups, then the two checks.\<close>

definition both :: "('g, 'h) services \<Rightarrow> 'g world \<Rightarrow> uuid \<Rightarrow> uuid \<Rightarrow> (branch \<times> branch) branch_result" where
  "both S w a b =
     res_bind (lookup S w a) (\<lambda>branch_a.
     res_bind (lookup S w b) (\<lambda>branch_b.
     res_bind (ensure_workspace_access S branch_a) (\<lambda>_.
     res_bind (ensure_workspace_access S branch_b) (\<lambda>_. Inr (branch_a, branch_b)))))"

definition engine_diff ::
    "('g, 'h) services \<Rightarrow> engine_env \<Rightarrow> datetime \<Rightarrow> 'g world \<Rightarrow> uuid \<Rightarrow> uuid \<Rightarrow> diff_result branch_result option" where
  "engine_diff S env now w a b =
     (case both S w a b of
        Inl e \<Rightarrow> Some (Inl e)
      | Inr (branch_a, branch_b) \<Rightarrow>
          diff (en_hash env) now (files_of (sv_host S) (wd_disk w)) branch_a branch_b None)"

definition compare_branches ::
    "('g, 'h) services \<Rightarrow> engine_env \<Rightarrow> datetime \<Rightarrow> 'g world \<Rightarrow> uuid \<Rightarrow> uuid \<Rightarrow> diff_result branch_result option" where
  "compare_branches S env now w a b = engine_diff S env now w a b"

text \<open>The source, the target and the base: the parent of the source, or the target.\<close>

definition merge_branches ::
    "('g, 'h) services \<Rightarrow> 'g world \<Rightarrow> uuid \<Rightarrow> uuid \<Rightarrow> (branch \<times> branch \<times> branch) branch_result" where
  "merge_branches S w source target =
     res_bind (both S w source target) (\<lambda>(source_branch, target_branch).
     let base_id = unwrap_or target (br_parent_id source_branch)
     in res_bind (engine_get S w base_id) (\<lambda>base_branch. Inr (base_branch, source_branch, target_branch)))"

text \<open>The disk after the database at a path has become the one of the new file system.\<close>

definition put_db :: "engine_env \<Rightarrow> path \<Rightarrow> file_system \<Rightarrow> disk \<Rightarrow> disk" where
  "put_db env p fs d =
     (case (read_file d p, fs p) of
        (Some file, Some db) \<Rightarrow> write_file p (en_write env file db) d
      | _ \<Rightarrow> d)"

definition engine_merge ::
    "('g, 'h) services \<Rightarrow> engine_env \<Rightarrow> datetime \<times> datetime \<Rightarrow> u64 \<Rightarrow> 'g world \<Rightarrow> uuid \<Rightarrow> uuid \<Rightarrow> merge_strategy \<Rightarrow>
     ('g world \<times> merge_result branch_result) option" where
  "engine_merge S env nows elapsed w source target strategy =
     (case merge_branches S w source target of
        Inl e \<Rightarrow> Some (w, Inl e)
      | Inr (base_branch, source_branch, target_branch) \<Rightarrow>
          map_option (\<lambda>(fs, r). (w\<lparr>wd_disk := put_db env (br_db_path source_branch) fs (wd_disk w)\<rparr>, r))
            (merge (en_hash env) (en_printer env) nows elapsed (files_of (sv_host S) (wd_disk w))
               base_branch source_branch target_branch strategy None))"

definition engine_merge_preview ::
    "('g, 'h) services \<Rightarrow> engine_env \<Rightarrow> datetime \<times> datetime \<Rightarrow> 'g world \<Rightarrow> uuid \<Rightarrow> uuid \<Rightarrow>
     merge_preview branch_result option" where
  "engine_merge_preview S env nows w source target =
     (case merge_branches S w source target of
        Inl e \<Rightarrow> Some (Inl e)
      | Inr (base_branch, source_branch, target_branch) \<Rightarrow>
          preview (en_hash env) nows (files_of (sv_host S) (wd_disk w)) base_branch source_branch target_branch None)"

section \<open>Commits\<close>

text \<open>The world after a commit has left the given target database and registry.\<close>

definition after_commit ::
    "('g, 'h) services \<Rightarrow> engine_env \<Rightarrow> 'g world \<Rightarrow> uuid \<Rightarrow> branch_db \<times> registry \<times> commit_result branch_result \<Rightarrow>
     'g world \<times> commit_result branch_result" where
  "after_commit S env w target_id = (\<lambda>(target_pool, R, r).
     (case lookup S w target_id of
        Inl _ \<Rightarrow> (w\<lparr>wd_registry := R\<rparr>, r)
      | Inr target \<Rightarrow>
          (w\<lparr>wd_registry := R,
             wd_disk := put_db env (br_db_path target) [br_db_path target \<mapsto> target_pool] (wd_disk w)\<rparr>, r)))"

definition engine_commit ::
    "('g, 'h) services \<Rightarrow> engine_env \<Rightarrow> datetime \<Rightarrow> uuid \<Rightarrow> u64 \<Rightarrow> 'g world \<Rightarrow> cherry_pick \<Rightarrow>
     'g world \<times> commit_result branch_result" where
  "engine_commit S env now entry_id elapsed w cherry =
     (case both S w (cp_source_branch_id cherry) (cp_target_branch_id cherry) of
        Inl e \<Rightarrow> (w, Inl e)
      | Inr _ \<Rightarrow>
          (case from_store (sv_codec S) (sv_text S) (sv_order S) (files_of (sv_host S) (wd_disk w)) (wd_registry w)
                  (cp_source_branch_id cherry) (cp_target_branch_id cherry) (cf_workspace_id (sv_config S)) of
             Inl e \<Rightarrow> (w, Inl e)
           | Inr (source_pool, target_pool) \<Rightarrow>
               after_commit S env w (cp_target_branch_id cherry)
                 (commit (sv_codec S) (sv_text S) (sv_order S) (en_printer env) (en_hash env) now entry_id elapsed
                    (cf_workspace_id (sv_config S)) source_pool target_pool (wd_registry w) cherry)))"

definition engine_cherry_pick ::
    "('g, 'h) services \<Rightarrow> engine_env \<Rightarrow> datetime \<Rightarrow> uuid \<Rightarrow> u64 \<Rightarrow> 'g world \<Rightarrow> uuid \<Rightarrow> uuid \<Rightarrow>
     entity_selection list \<Rightarrow> string option \<Rightarrow> 'g world \<times> commit_result branch_result" where
  "engine_cherry_pick S env now entry_id elapsed w source_id target_id selections message =
     engine_commit S env now entry_id elapsed w
       \<lparr>cp_source_branch_id = source_id, cp_target_branch_id = target_id, cp_entity_selections = selections,
        cp_message = message\<rparr>"

definition commit_to_trunk ::
    "('g, 'h) services \<Rightarrow> engine_env \<Rightarrow> datetime \<Rightarrow> uuid \<Rightarrow> u64 \<Rightarrow> 'g world \<Rightarrow> uuid \<Rightarrow>
     'g world \<times> commit_result branch_result" where
  "commit_to_trunk S env now entry_id elapsed w source_id =
     (case engine_get S w source_id of
        Inl e \<Rightarrow> (w, Inl e)
      | Inr _ \<Rightarrow>
     (case engine_trunk S w of
        Inl e \<Rightarrow> (w, Inl e)
      | Inr trunk \<Rightarrow>
     (case from_store (sv_codec S) (sv_text S) (sv_order S) (files_of (sv_host S) (wd_disk w)) (wd_registry w)
             source_id (br_id trunk) (cf_workspace_id (sv_config S)) of
        Inl e \<Rightarrow> (w, Inl e)
      | Inr (source_pool, target_pool) \<Rightarrow>
          after_commit S env w (br_id trunk)
            (commit_all (sv_codec S) (sv_text S) (sv_order S) (en_printer env) (en_hash env) now entry_id elapsed
               (cf_workspace_id (sv_config S)) source_pool target_pool (wd_registry w) source_id (br_id trunk)))))"

section \<open>Simulation\<close>

text \<open>The identifiers of the run and of the sandbox branch are arguments; \<open>clock 5\<close> is the time of the evaluation.\<close>

definition simulate ::
    "('g, 'h) services \<Rightarrow> engine_env \<Rightarrow> (nat \<Rightarrow> datetime) \<Rightarrow> uuid \<Rightarrow> uuid \<Rightarrow> u64 \<Rightarrow> 'g world \<Rightarrow> uuid \<Rightarrow> simulation_scenario \<Rightarrow>
     (string \<Rightarrow> string \<times> json branch_result) \<Rightarrow> ('g world \<times> evaluation_report branch_result) option" where
  "simulate S env clock id' branch_id duration_ms w parent_id scenario agent_fn =
     (case engine_get S w parent_id of
        Inl e \<Rightarrow> Some (w, Inl e)
      | Inr parent \<Rightarrow>
     (case setup_environment S clock id' branch_id w parent scenario of
        None \<Rightarrow> None
      | Some (w, Inl e) \<Rightarrow> Some (w, Inl e)
      | Some (w, Inr se) \<Rightarrow>
     (case run_agent (en_error env) agent_fn duration_ms w se of
        (w, _, Inl e) \<Rightarrow> Some (w, Inl e)
      | (w, se, Inr _) \<Rightarrow>
          map_option (Pair w)
            (evaluate (en_fmt env) (en_hash env) (clock 5) (files_of (sv_host S) (wd_disk w)) (sv_config S) se parent))))"

section \<open>Lineage, metrics, collection\<close>

definition engine_lineage :: "('g, 'h) services \<Rightarrow> 'g world \<Rightarrow> uuid \<Rightarrow> uuid list branch_result option" where
  "engine_lineage S w branch_id =
     map_option (\<lambda>r. res_bind r (\<lambda>ancestors. Inr (rev ancestors @ [branch_id])))
       (ancestors_of (sv_graph S) (wd_dag w) branch_id)"

definition dag_dot :: "('g, 'h) services \<Rightarrow> engine_env \<Rightarrow> 'g world \<Rightarrow> string branch_result" where
  "dag_dot S env w =
     export_dot (sv_graph S) (sv_codec S) (sv_text S) (sv_order S) (en_date env) (cf_workspace_id (sv_config S))
       (wd_dag w) (wd_registry w)"

definition engine_metrics ::
    "('g, 'h) services \<Rightarrow> engine_env \<Rightarrow> (nat \<Rightarrow> datetime) \<Rightarrow> 'g world \<Rightarrow> uuid \<Rightarrow>
     ('g world \<times> branch_metrics branch_result) option" where
  "engine_metrics S env clock w branch_id =
     (case lookup S w branch_id of
        Inl e \<Rightarrow> Some (w, Inl e)
      | Inr b \<Rightarrow> refresh S (en_hash env) clock 0 w b)"

definition engine_workspace_report ::
    "('g, 'h) services \<Rightarrow> engine_env \<Rightarrow> (nat \<Rightarrow> datetime) \<Rightarrow> 'g world \<Rightarrow> workspace_report branch_result option" where
  "engine_workspace_report S env clock w =
     make_workspace_report S (en_sub env) clock w (cf_workspace_id (sv_config S))"

definition engine_gc ::
    "('g, 'h) services \<Rightarrow> engine_env \<Rightarrow> (nat \<Rightarrow> datetime) \<Rightarrow> u64 \<Rightarrow> 'g world \<Rightarrow>
     ('g world \<times> gc_report branch_result) option" where
  "engine_gc S env clock elapsed w = gc_run S (en_sub env) clock elapsed w"

text \<open>
  The scheduler: the interval of its task, if one was spawned. A tick of the task runs a collection and
  ignores its result; a cancelled task has no more ticks.
\<close>

record 'g engine =
  eg_world :: "'g world"
  eg_gc_scheduler :: "u64 option"

definition start_gc_scheduler :: "('g, 'h) services \<Rightarrow> 'g engine \<Rightarrow> 'g engine \<times> unit branch_result" where
  "start_gc_scheduler S eg =
     (if eg_gc_scheduler eg \<noteq> None then (eg, Inr ())
      else (eg\<lparr>eg_gc_scheduler := Some (max (cf_gc_interval_secs (sv_config S)) 1)\<rparr>, Inr ()))"

definition scheduler_tick ::
    "('g, 'h) services \<Rightarrow> engine_env \<Rightarrow> (nat \<Rightarrow> datetime) \<Rightarrow> u64 \<Rightarrow> 'g engine \<Rightarrow> 'g engine option" where
  "scheduler_tick S env clock elapsed eg =
     (case eg_gc_scheduler eg of
        None \<Rightarrow> Some eg
      | Some _ \<Rightarrow> map_option (\<lambda>(w, _). eg\<lparr>eg_world := w\<rparr>) (engine_gc S env clock elapsed (eg_world eg)))"

definition stop_gc_scheduler :: "'g engine \<Rightarrow> 'g engine \<times> unit branch_result" where
  "stop_gc_scheduler eg = (eg\<lparr>eg_gc_scheduler := None\<rparr>, Inr ())"

definition shutdown :: "'g engine \<Rightarrow> 'g engine \<times> unit branch_result" where
  "shutdown eg = stop_gc_scheduler eg"

section \<open>Construction\<close>

text \<open>
  The file system calls of \<open>validate_branches_dir\<close>: \<open>canonicalize\<close>, whether a path is a symbolic link, and
  whether it is absolute.
\<close>

record path_system =
  ps_canonicalize :: "path \<Rightarrow> path branch_result"
  ps_is_symlink :: "path \<Rightarrow> bool branch_result"
  ps_is_absolute :: "path \<Rightarrow> bool"

definition path_starts_with :: "path \<Rightarrow> path \<Rightarrow> bool" where
  "path_starts_with top_dir p \<longleftrightarrow> take (length top_dir) p = top_dir"

definition outside_root :: branch_error where
  "outside_root = InvalidConfig ''branches_dir resolves outside expected root''"

function check_links :: "path_system \<Rightarrow> path \<Rightarrow> path \<Rightarrow> unit branch_result" where
  "check_links P top_dir cursor =
     (if path_starts_with top_dir cursor \<and> cursor \<noteq> top_dir then
        res_bind (ps_is_symlink P cursor) (\<lambda>link.
        res_bind (if link then res_bind (ps_canonicalize P cursor) (\<lambda>link_target.
              if path_starts_with top_dir link_target then Inr () else Inl outside_root)
            else Inr ()) (\<lambda>_.
          if cursor = [] then Inr () else check_links P top_dir (butlast cursor)))
      else Inr ())"
  by pat_completeness auto

termination check_links
  by (relation "measure (\<lambda>(P, top_dir, cursor). length cursor)") simp_all

declare check_links.simps [simp del]

definition validate_branches_dir :: "path_system \<Rightarrow> branch_config \<Rightarrow> unit branch_result" where
  "validate_branches_dir P config =
     res_bind (ps_canonicalize P (unwrap_or [''.''] (path_parent (cf_branches_dir config)))) (\<lambda>expected_root.
     res_bind (ps_canonicalize P (cf_branches_dir config)) (\<lambda>resolved_dir.
       if \<not> ps_is_absolute P resolved_dir \<or> \<not> path_starts_with expected_root resolved_dir then Inl outside_root
       else check_links P expected_root resolved_dir))"

text \<open>
  \<open>BranchEngine::open\<close> and \<open>new\<close> over the registry tables and the disk they find; the DAG starts empty.
\<close>

definition engine_open ::
    "('g, 'h) services \<Rightarrow> path_system \<Rightarrow> registry \<Rightarrow> disk \<Rightarrow> disk \<times> 'g engine branch_result" where
  "engine_open S P R d =
     (case validate_branches_dir P (sv_config S) of
        Inl e \<Rightarrow> (d, Inl e)
      | Inr _ \<Rightarrow>
          let d = cleanup_incomplete_tmp_files (cf_branches_dir (sv_config S)) d
          in (d, Inr \<lparr>eg_world = \<lparr>wd_registry = R, wd_dag = dag_new (sv_graph S), wd_disk = d\<rparr>, eg_gc_scheduler = None\<rparr>))"

definition engine_new ::
    "('g, 'h) services \<Rightarrow> path_system \<Rightarrow> (nat \<Rightarrow> datetime) \<Rightarrow> uuid \<Rightarrow> registry \<Rightarrow> disk \<Rightarrow> path \<Rightarrow>
     registry \<times> disk \<times> 'g engine branch_result" where
  "engine_new S P clock branch_id R d trunk_db_path =
     (case validate_branches_dir P (sv_config S) of
        Inl e \<Rightarrow> (R, d, Inl e)
      | Inr _ \<Rightarrow>
          let d = cleanup_incomplete_tmp_files (cf_branches_dir (sv_config S)) d;
              w = \<lparr>wd_registry = R, wd_dag = dag_new (sv_graph S), wd_disk = d\<rparr>
          in case trunk_opt S w of
               Inl e \<Rightarrow> (R, d, Inl e)
             | Inr (Some _) \<Rightarrow> (R, d, Inr \<lparr>eg_world = w, eg_gc_scheduler = None\<rparr>)
             | Inr None \<Rightarrow>
                 (case create_trunk S clock branch_id w (cf_workspace_id (sv_config S)) trunk_db_path of
                    (w, Inl e) \<Rightarrow> (wd_registry w, wd_disk w, Inl e)
                  | (w, Inr _) \<Rightarrow> (wd_registry w, wd_disk w, Inr \<lparr>eg_world = w, eg_gc_scheduler = None\<rparr>)))"

section \<open>The engine builder\<close>

datatype branch_config_error =
    MissingWorkspaceId
  | MissingBranchesDir
  | MissingTrunkSourceDb
  | BranchFailure branch_error

record engine_builder =
  eb_workspace_id :: "uuid option"
  eb_branches_dir :: "path option"
  eb_trunk_source_db :: "path option"
  eb_max_branches :: "u64 option"
  eb_gc_interval_secs :: "u64 option"

definition engine_builder_new :: engine_builder where
  "engine_builder_new = \<lparr>eb_workspace_id = None, eb_branches_dir = None, eb_trunk_source_db = None,
     eb_max_branches = None, eb_gc_interval_secs = None\<rparr>"

definition with_workspace_id :: "uuid \<Rightarrow> engine_builder \<Rightarrow> engine_builder" where
  "with_workspace_id v b = b\<lparr>eb_workspace_id := Some v\<rparr>"

definition with_branches_dir :: "path \<Rightarrow> engine_builder \<Rightarrow> engine_builder" where
  "with_branches_dir v b = b\<lparr>eb_branches_dir := Some v\<rparr>"

definition with_trunk_source_db :: "path \<Rightarrow> engine_builder \<Rightarrow> engine_builder" where
  "with_trunk_source_db v b = b\<lparr>eb_trunk_source_db := Some v\<rparr>"

definition with_max_branches :: "u64 \<Rightarrow> engine_builder \<Rightarrow> engine_builder" where
  "with_max_branches v b = b\<lparr>eb_max_branches := Some v\<rparr>"

definition with_gc_interval_secs :: "u64 \<Rightarrow> engine_builder \<Rightarrow> engine_builder" where
  "with_gc_interval_secs v b = b\<lparr>eb_gc_interval_secs := Some v\<rparr>"

text \<open>The configuration and the trunk source that \<open>build\<close> passes on to \<open>BranchEngine::new\<close>.\<close>

definition engine_config ::
    "path set \<Rightarrow> engine_builder \<Rightarrow> path set \<times> (branch_config_error + branch_config \<times> path)" where
  "engine_config dirs b =
     (case eb_workspace_id b of
        None \<Rightarrow> (dirs, Inl MissingWorkspaceId)
      | Some workspace_id \<Rightarrow>
     (case eb_branches_dir b of
        None \<Rightarrow> (dirs, Inl MissingBranchesDir)
      | Some branches_dir \<Rightarrow>
     (case eb_trunk_source_db b of
        None \<Rightarrow> (dirs, Inl MissingTrunkSourceDb)
      | Some trunk_source_db \<Rightarrow>
          let c = set_branches_dir branches_dir (set_workspace_id workspace_id builder);
              c = (case eb_max_branches b of Some m \<Rightarrow> set_max_branches_per_workspace m c | None \<Rightarrow> c);
              c = (case eb_gc_interval_secs b of Some g \<Rightarrow> set_gc_interval_secs g c | None \<Rightarrow> c)
          in case build dirs c of
               (dirs, Inl e) \<Rightarrow> (dirs, Inl (BranchFailure e))
             | (dirs, Inr config) \<Rightarrow> (dirs, Inr (config, trunk_source_db)))))"

definition engine_build ::
    "('g, 'h) services \<Rightarrow> path_system \<Rightarrow> (nat \<Rightarrow> datetime) \<Rightarrow> uuid \<Rightarrow> path set \<Rightarrow> registry \<Rightarrow> disk \<Rightarrow> engine_builder \<Rightarrow>
     registry \<times> disk \<times> (branch_config_error + branch_config \<times> 'g engine)" where
  "engine_build S P clock branch_id dirs R d b =
     (case snd (engine_config dirs b) of
        Inl e \<Rightarrow> (R, d, Inl e)
      | Inr (config, trunk_source_db) \<Rightarrow>
          (case engine_new (S\<lparr>sv_config := config\<rparr>) P clock branch_id R d trunk_source_db of
             (R, d, Inl e) \<Rightarrow> (R, d, Inl (BranchFailure e))
           | (R, d, Inr eg) \<Rightarrow> (R, d, Inr (config, eg))))"

section \<open>Facts\<close>

lemma put_db_other: "q \<noteq> p \<Longrightarrow> read_file (put_db env p fs d) q = read_file d q"
  by (simp add: put_db_def split: option.split)

lemma put_db_at: "read_file d p = Some f \<Longrightarrow> fs p = Some db \<Longrightarrow> read_file (put_db env p fs d) p = Some (en_write env f db)"
  by (simp add: put_db_def)

lemma lookup_eq:
  assumes "services_ok S" and "world_ok S w"
  shows "lookup S w i = Inr b \<longleftrightarrow> sv_branches S w i = Some b \<and> br_workspace_id b = cf_workspace_id (sv_config S)"
    and "lookup S w i = Inl e \<longrightarrow> e = BranchNotFound i"
  unfolding lookup_def sv_get_eq [OF assms] by (auto split: option.split)

lemma ensure_access_eq: "ensure_workspace_access S b = Inr u \<longleftrightarrow> br_workspace_id b = cf_workspace_id (sv_config S)"
  by (cases u) (simp add: ensure_workspace_access_def)

lemma engine_get_eq:
  assumes "services_ok S" and "world_ok S w"
  shows "engine_get S w i = lookup S w i"
proof (cases "lookup S w i")
  case (Inr b)
  then have "br_workspace_id b = cf_workspace_id (sv_config S)" using lookup_eq(1) [OF assms] by blast
  then show ?thesis by (simp add: engine_get_def Inr ensure_workspace_access_def)
qed (simp add: engine_get_def)

lemma both_eq:
  assumes "services_ok S" and "world_ok S w"
  shows "both S w i j = Inr (a, b) \<longleftrightarrow> lookup S w i = Inr a \<and> lookup S w j = Inr b"
  using lookup_eq [OF assms] by (auto simp: both_def res_bind_eq_Inr ensure_access_eq)

lemma merge_branches_eq:
  assumes "services_ok S" and "world_ok S w"
  shows "merge_branches S w source target = Inr (base, s, t) \<longleftrightarrow>
    lookup S w source = Inr s \<and> lookup S w target = Inr t \<and> lookup S w (unwrap_or target (br_parent_id s)) = Inr base"
  unfolding merge_branches_def Let_def
  by (auto simp: res_bind_eq_Inr both_eq [OF assms] engine_get_eq [OF assms])

text \<open>A merge writes only the database of its second branch, and reports it as the target.\<close>

lemma merge_writes_ours:
  assumes "merge ho J nows elapsed fs base ours theirs strategy types = Some (fs', r)"
  shows "p \<noteq> br_db_path ours \<Longrightarrow> fs' p = fs p"
    and "r = Inr res \<Longrightarrow> mr_source_branch_id res = br_id theirs \<and> mr_target_branch_id res = br_id ours"
  using assms by (auto simp: merge_def split: option.splits sum.splits if_splits prod.splits)

section \<open>A world with a parent and a child\<close>

definition family_dag :: "list_graph dag" where
  "family_dag = (case add_edge list_pg 0 (fst (add_node list_pg (wd_dag trunk_world) 7)) 7 8 of
     Some (g, _) \<Rightarrow> g | None \<Rightarrow> wd_dag trunk_world)"

definition family_world :: "list_graph world" where
  "family_world = \<lparr>wd_registry = two_registry, wd_dag = family_dag, wd_disk = [([''trunk''], ''ab''), ([''child''], ''ac'')]\<rparr>"

lemma world_of_rel: "dag_rel list_pg (wd_dag (world_of b d)) = {}"
proof -
  obtain h j where e: "ensure_or_insert list_pg (dag_new list_pg) (br_id b) = (h, j)" by force
  have "wd_dag (world_of b d) = h" by (simp add: world_of_def lists.add_node_eq e)
  then show ?thesis using lists.ensure_spec(5) [OF lists.new_wf e] lists.new_empty(2) by simp
qed

lemma family_world_spec:
  "world_ok sample_services family_world"
  "sv_branches sample_services family_world = [7 \<mapsto> trunk_example, 8 \<mapsto> child_example]"
  "dag_nodes list_pg family_dag = {7, 8}" "dag_rel list_pg family_dag = {(7, 8)}"
proof -
  let ?S = sample_services
  have nodes: "(8 :: uuid) \<notin> dag_nodes list_pg (wd_dag trunk_world)" "7 \<in> dag_nodes list_pg (wd_dag trunk_world)"
    by (simp_all add: trunk_world_spec(3))
  have wf: "dag_wf list_pg (wd_dag trunk_world)" using world_okD(2) [OF trunk_world_spec(1)] by simp
  obtain d1 r1 where add: "add_node list_pg (wd_dag trunk_world) 7 = (d1, r1)" by force
  from fork_edge [OF lists.digraph_axioms wf nodes add, of 0] obtain g where
    g: "add_edge list_pg 0 d1 7 8 = Some (g, Inr ())" "dag_wf list_pg g"
      "dag_nodes list_pg g = insert 8 (dag_nodes list_pg (wd_dag trunk_world))"
      "dag_rel list_pg g = insert (7, 8) (dag_rel list_pg (wd_dag trunk_world))" by blast
  have f: "family_dag = g" by (simp add: family_dag_def add g(1))
  have none: "dag_rel list_pg (wd_dag trunk_world) = {}" by (simp add: trunk_world_def world_of_rel)
  show "dag_nodes list_pg family_dag = {7, 8}" "dag_rel list_pg family_dag = {(7, 8)}"
    using g(3,4) none by (auto simp: f trunk_world_spec(3))
  show br: "sv_branches ?S family_world = [7 \<mapsto> trunk_example, 8 \<mapsto> child_example]"
    by (simp add: family_world_def two_registry_spec(2))
  have "world_ok ?S (trunk_world\<lparr>wd_disk := wd_disk family_world, wd_registry := two_registry, wd_dag := g\<rparr>)"
  proof (rule world_ok_insert [where b = child_example, OF sample_services_ok trunk_world_spec(1)])
    show "branches_of (sv_codec ?S) (sv_text ?S) two_registry = (sv_branches ?S trunk_world)(br_id child_example \<mapsto> child_example)"
      unfolding trunk_world_spec(2) by (simp add: two_registry_spec(2))
  qed (use g two_registry_spec(1) in \<open>auto simp: child_example_def\<close>)
  moreover have "trunk_world\<lparr>wd_disk := wd_disk family_world, wd_registry := two_registry, wd_dag := g\<rparr> = family_world"
    by (cases trunk_world) (simp add: family_world_def f)
  ultimately show "world_ok ?S family_world" by simp
qed

section \<open>Properties\<close>


text \<open>The sample engine parameters.\<close>

definition sample_env :: engine_env where
  "sample_env = \<lparr>en_hash = sorted_list_of_set, en_printer = plain_printer, en_write = (\<lambda>f _. f @ ''!''), en_error = (\<lambda>_. []),
     en_fmt = (\<lambda>_. []), en_date = (\<lambda>_. []), en_sub = exact_sub\<rparr>"

lemma sample_env_sel [simp]:
  "en_hash sample_env = sorted_list_of_set" "en_printer sample_env = plain_printer" "en_write sample_env = (\<lambda>f _. f @ ''!'')"
  by (simp_all add: sample_env_def)

lemma family_lookup:
  "lookup sample_services family_world 7 = Inr trunk_example" "lookup sample_services family_world 8 = Inr child_example"
  unfolding lookup_eq [OF sample_services_ok family_world_spec(1)] family_world_spec(2) by simp_all

lemma family_files:
  "files_of sample_host (wd_disk family_world) [''trunk''] = Some (sq_db sample_host ''ab'')"
  "files_of sample_host (wd_disk family_world) [''child''] = Some (sq_db sample_host ''ac'')"
  by (simp_all add: files_of_def family_world_def read_file_def)


text \<open>
  C4: merging a branch into its parent merges nothing: the base is the parent, so the target has no changes
  against the base. Whatever the branch holds, the merge succeeds, applies no change, reports no conflict and
  leaves every database with the content it had. The same holds for a branch without a parent and any target.
\<close>

theorem engine_merge_to_parent:
  assumes "services_ok S" and "world_ok S w" and "hash_order (en_hash env)"
    and "lookup S w source = Inr s" and "lookup S w target = Inr t"
    and "br_parent_id s = Some target \<or> br_parent_id s = None"
    and "read_file (wd_disk w) (br_db_path s) = Some f" and "read_file (wd_disk w) (br_db_path t) = Some g"
    and "db_ok (sq_db (sv_host S) g)"
  shows "\<exists>res. engine_merge S env nows elapsed w source target strategy =
      Some (w\<lparr>wd_disk := write_file (br_db_path s) (en_write env f (sq_db (sv_host S) f)) (wd_disk w)\<rparr>, Inr res) \<and>
    mr_success res \<and> mr_applied res = 0 \<and> mr_conflicts res = []"
proof -
  let ?fs = "files_of (sv_host S) (wd_disk w)" and ?f = "sq_db (sv_host S) f" and ?g = "sq_db (sv_host S) g"
  have b: "merge_branches S w source target = Inr (t, s, t)"
    unfolding merge_branches_eq [OF assms(1,2)] using assms(4-6) by (auto simp: unwrap_or_def)
  have fs: "?fs (br_db_path t) = Some ?g" "?fs (br_db_path s) = Some ?f"
    using assms(7,8) by (simp_all add: files_of_def)
  have none: "changes_between (en_hash env) ?g ?g ts = []" for ts
  proof -
    have "\<not> differs ?g ?g ty i" for ty i by (simp add: differs_def split: option.split)
    then have "set (changes_between (en_hash env) ?g ?g ts) = {}"
      unfolding changes_between_set [OF assms(3,9,9)] by blast
    then show ?thesis by simp
  qed
  have p: "?fs(br_db_path s \<mapsto> ?f) = ?fs" using fs(2) by auto
  obtain res where
    m: "merge (en_hash env) (en_printer env) nows elapsed ?fs t s t strategy None = Some (?fs, Inr res)" and
    r: "mr_success res" "mr_applied res = 0" "mr_conflicts res = []"
    using merge_run(1) [where types = None and J = "en_printer env" and nows = nows and elapsed = elapsed and s = strategy,
        OF assms(3) fs fs(1)]
    by (simp add: none merge_outcome_def apply_batch_def p)
  have "engine_merge S env nows elapsed w source target strategy =
      Some (w\<lparr>wd_disk := put_db env (br_db_path s) ?fs (wd_disk w)\<rparr>, Inr res)"
    by (simp add: engine_merge_def b m)
  then show ?thesis using r by (simp add: put_db_def assms(7) fs(2))
qed

theorem engine_merge_to_parent_witness:
  "\<exists>w' res. engine_merge sample_services sample_env (0, 0) 0 family_world 8 7 Theirs = Some (w', Inr res) \<and>
     mr_success res \<and> mr_applied res = 0 \<and>
     contents (sq_db sample_host ''ac'') MemoryRecord ''c'' \<noteq> None \<and> contents (sq_db sample_host ''ab'') MemoryRecord ''c'' = None"
proof -
  have ho: "hash_order (en_hash sample_env)" by (simp add: sorted_order.hash_order_axioms)
  have c: "br_parent_id child_example = Some 7 \<or> br_parent_id child_example = None" by (simp add: child_example_def)
  have f: "read_file (wd_disk family_world) (br_db_path child_example) = Some ''ac''"
    "read_file (wd_disk family_world) (br_db_path trunk_example) = Some ''ab''"
    by (simp_all add: family_world_def read_file_def trunk_example_def branch_at_def blank_branch_def)
  have ok: "db_ok (sq_db (sv_host sample_services) ''ab'')"
    by (auto simp: db_ok_def sample_host_def table_of_def table_ok_def obj_ok_def)
  have k: "contents (sq_db sample_host ''ac'') MemoryRecord ''c'' \<noteq> None" "contents (sq_db sample_host ''ab'') MemoryRecord ''c'' = None"
    by (simp_all add: contents_def sample_host_def table_of_def)
  from engine_merge_to_parent [where nows = "(0, 0)" and elapsed = 0 and strategy = Theirs,
      OF sample_services_ok family_world_spec(1) ho family_lookup(2,1) c f ok] k show ?thesis by blast
qed

end
