(* ===== verification/Workspace.thy ===== *)
theory Workspace
  imports Engine
begin

text \<open>
  The engine of \<open>src/engine.rs\<close> as one system: the worlds its operations reach, what holds in all of them,
  and the lineage it reports there.
\<close>

section \<open>Steps\<close>

text \<open>An identifier of a new row of the commit log.\<close>

definition fresh_entry :: "('g, 'h) services \<Rightarrow> 'g world \<Rightarrow> uuid \<Rightarrow> bool" where
  "fresh_entry S w e \<longleftrightarrow> (\<forall>c \<in> set (rg_commits (wd_registry w)). cw_id c \<noteq> uuid_str (sv_codec S) e)"

inductive engine_step :: "('g, 'h) services \<Rightarrow> engine_env \<Rightarrow> 'g world \<Rightarrow> 'g world \<Rightarrow> bool" for S env where
  components: "system_step S w w' \<Longrightarrow> engine_step S env w w'"
| forks: "fresh S w u \<Longrightarrow> few_branches w \<Longrightarrow> engine_fork S clock u w parent name description = Some (w', r) \<Longrightarrow>
    engine_step S env w w'"
| trunk_forks: "fresh S w u \<Longrightarrow> few_branches w \<Longrightarrow> engine_fork_trunk S clock u w name = Some (w', r) \<Longrightarrow>
    engine_step S env w w'"
| discards: "engine_discard S clock w i = (w', r1) \<Longrightarrow> engine_step S env w w'"
| archives: "engine_archive S clock w i = (w', r1) \<Longrightarrow> engine_step S env w w'"
| merges: "engine_merge S env nows elapsed w source target strategy = Some (w', r2) \<Longrightarrow> engine_step S env w w'"
| commits: "fresh_entry S w e \<Longrightarrow> engine_commit S env now e elapsed w cherry = (w', r3) \<Longrightarrow> engine_step S env w w'"
| trunk_commits: "fresh_entry S w e \<Longrightarrow> commit_to_trunk S env now e elapsed w source = (w', r3) \<Longrightarrow>
    engine_step S env w w'"
| simulations: "fresh S w u \<Longrightarrow> few_branches w \<Longrightarrow>
    simulate S env clock i u elapsed w parent scenario agent = Some (w', r4) \<Longrightarrow> engine_step S env w w'"
| measures: "engine_metrics S env clock w i = Some (w', r5) \<Longrightarrow> engine_step S env w w'"
| collects: "engine_gc S env clock elapsed w = Some (w', r6) \<Longrightarrow> engine_step S env w w'"

section \<open>What every step keeps\<close>

text \<open>Steps that keep the DAG, and of every branch its identity, parent and path.\<close>

definition same_shape :: "('g, 'h) services \<Rightarrow> 'g world \<Rightarrow> 'g world \<Rightarrow> bool" where
  "same_shape S w w' \<longleftrightarrow> world_ok S w' \<and> wd_dag w' = wd_dag w \<and>
     (\<forall>i. map_option (\<lambda>b. (br_parent_id b, br_db_path b)) (sv_branches S w' i) =
          map_option (\<lambda>b. (br_parent_id b, br_db_path b)) (sv_branches S w i))"

lemma same_shape_branch:
  assumes "same_shape S w w'"
  shows "(\<exists>b. sv_branches S w' i = Some b \<and> P (br_parent_id b) (br_db_path b)) \<longleftrightarrow>
    (\<exists>b. sv_branches S w i = Some b \<and> P (br_parent_id b) (br_db_path b))"
proof -
  have "map_option (\<lambda>b. (br_parent_id b, br_db_path b)) (sv_branches S w' i) =
      map_option (\<lambda>b. (br_parent_id b, br_db_path b)) (sv_branches S w i)"
    using assms by (simp add: same_shape_def)
  then show ?thesis by (cases "sv_branches S w' i"; cases "sv_branches S w i") simp_all
qed

lemma same_shape_keeps:
  assumes "lineage S w" and "placed S w" and s: "same_shape S w w'"
  shows "lineage S w' \<and> placed S w'"
proof
  note b = same_shape_branch [OF s]
  have "(sv_branches S w' i \<noteq> None) = (sv_branches S w i \<noteq> None)" for i
    using b [of i "\<lambda>_ _. True"] by simp
  moreover have "(\<exists>c. sv_branches S w' i = Some c \<and> br_parent_id c = Some p) =
      (\<exists>c. sv_branches S w i = Some c \<and> br_parent_id c = Some p)" for i p
    by (rule b [of i "\<lambda>q _. q = Some p"])
  ultimately show "lineage S w'" using assms(1) s by (simp add: lineage_def same_shape_def)
  show "placed S w'" unfolding placed_def
  proof (intro allI impI)
    fix i c assume c: "sv_branches S w' i = Some c"
    have "\<exists>d. sv_branches S w i = Some d \<and> br_db_path d = br_db_path c"
      using b [of i "\<lambda>_ q. q = br_db_path c"] c by auto
    then show "br_db_path c = snapshot_path_for (sv_codec S) (sv_config S) i"
      using assms(2) unfolding placed_def by metis
  qed
qed

lemma same_shapeI:
  "world_ok S w' \<Longrightarrow> wd_dag w' = wd_dag w \<Longrightarrow> sv_branches S w' = sv_branches S w \<Longrightarrow> same_shape S w w'"
  unfolding same_shape_def by simp

lemma same_shape_disk: "world_ok S w \<Longrightarrow> same_shape S w (w\<lparr>wd_disk := d\<rparr>)"
  by (rule same_shapeI) (simp_all add: world_ok_disk)

lemma world_ok_registry:
  assumes "world_ok S w" and "registry_ok (sv_codec S) (sv_text S) R"
    and "branches_of (sv_codec S) (sv_text S) R = sv_branches S w"
  shows "world_ok S (w\<lparr>wd_registry := R\<rparr>)"
  using assms by (simp add: world_ok_def)

section \<open>The steps one by one\<close>

lemma merge_shape:
  assumes "world_ok S w" and "engine_merge S env nows elapsed w source target strategy = Some (w', r)"
  shows "same_shape S w w'"
  using assms(2) same_shape_disk [OF assms(1)] same_shapeI [of S w w]
  by (auto simp: engine_merge_def assms(1) split: sum.splits prod.splits)

lemma after_commit_shape:
  assumes ok: "services_ok S" and w: "world_ok S w"
    and "registry_ok (sv_codec S) (sv_text S) R" and "branches_of (sv_codec S) (sv_text S) R = sv_branches S w"
  shows "same_shape S w (fst (after_commit S env w t (pool, R, r)))"
proof -
  note R = world_ok_registry [OF w assms(3,4)]
  have d: "same_shape S w (w\<lparr>wd_registry := R, wd_disk := d\<rparr>)" for d
    using same_shape_disk [OF R] by (intro same_shapeI) (simp_all add: assms(4) same_shape_def)
  have "same_shape S w (w\<lparr>wd_registry := R\<rparr>)" by (rule same_shapeI [OF R]) (simp_all add: assms(4))
  then show ?thesis using d by (simp add: after_commit_def split: sum.split)
qed

lemma commit_registry:
  assumes env: "store_env C K Q" and ok: "registry_ok C K R"
    and "\<forall>c \<in> set (rg_commits R). cw_id c \<noteq> uuid_str C e"
    and run: "commit C K Q J ho now e elapsed ws source_pool target_pool R cherry = (pool, R', r)"
  shows "registry_ok C K R' \<and> branches_of C K R' = branches_of C K R"
proof (cases r)
  case (Inl x)
  then show ?thesis using commit_run [OF env ok assms(3) run] ok by simp
next
  case (Inr x)
  then show ?thesis using commit_run [OF env ok assms(3) run] by (auto simp: Let_def)
qed

lemma commit_shape:
  assumes ok: "services_ok S" and w: "world_ok S w" and "fresh_entry S w e"
    and run: "engine_commit S env now e elapsed w cherry = (w', r)"
  shows "same_shape S w w'"
proof -
  have same: "same_shape S w w" by (rule same_shapeI [OF w]) simp_all
  show ?thesis
  proof (cases "both S w (cp_source_branch_id cherry) (cp_target_branch_id cherry)")
    case (Inl x)
    then show ?thesis using run same by (simp add: engine_commit_def)
  next
    case (Inr bs)
    show ?thesis
    proof (cases "from_store (sv_codec S) (sv_text S) (sv_order S) (files_of (sv_host S) (wd_disk w)) (wd_registry w)
        (cp_source_branch_id cherry) (cp_target_branch_id cherry) (cf_workspace_id (sv_config S))")
      case (Inl x)
      then show ?thesis using run same \<open>both _ _ _ _ = _\<close> by (simp add: engine_commit_def)
    next
      case pools: (Inr ps)
      obtain sp tp where ps: "ps = (sp, tp)" by (rule prod.exhaust)
      obtain pool R x where c: "commit (sv_codec S) (sv_text S) (sv_order S) (en_printer env) (en_hash env) now e elapsed
          (cf_workspace_id (sv_config S)) sp tp (wd_registry w) cherry = (pool, R, x)" by (rule prod_cases3)
      have R: "registry_ok (sv_codec S) (sv_text S) R \<and> branches_of (sv_codec S) (sv_text S) R = sv_branches S w"
        by (rule commit_registry [OF services_okD(1) [OF ok] world_okD(1) [OF w] _ c]) (use assms(3) in \<open>simp add: fresh_entry_def\<close>)
      have "w' = fst (after_commit S env w (cp_target_branch_id cherry) (pool, R, x))"
        using run by (simp add: engine_commit_def Inr pools ps c)
      then show ?thesis using after_commit_shape [OF ok w] R by simp
    qed
  qed
qed

lemma engine_trunk_found:
  assumes "services_ok S" and "world_ok S w" and "engine_trunk S w = Inr t"
  shows "lookup S w (br_id t) = Inr t"
proof -
  have slug: "store_get_by_slug (sv_codec S) (sv_text S) (sv_order S) (wd_registry w) (cf_workspace_id (sv_config S))
      (cf_trunk_branch_name (sv_config S)) = Inr t"
    using assms(3) by (auto simp: engine_trunk_def trunk_opt_def Let_def ok_or_def res_bind_eq_Inr
        split: sum.splits branch_error.splits if_splits option.splits)
  then show ?thesis
    unfolding lookup_eq(1) [OF assms(1,2)] store_env.slug_eq(1) [OF services_okD(1) [OF assms(1)] world_okD(1) [OF assms(2)]]
    by simp
qed

text \<open>A commit to the trunk stops before it starts, or runs \<open>commit\<close> on the two databases.\<close>

abbreviation all_cherry where
  "all_cherry source target \<equiv> \<lparr>cp_source_branch_id = source, cp_target_branch_id = target,
     cp_entity_selections = [whole_type MemoryRecord, whole_type Session, whole_type ToolOutput],
     cp_message = Some ''commit_all''\<rparr>"

lemma trunk_commit_cases:
  assumes ok: "services_ok S" and w: "world_ok S w" and run: "commit_to_trunk S env now e elapsed w source = (w', r)"
  shows "w' = w \<and> isl r \<or> (\<exists>s t f g pool R. lookup S w source = Inr s \<and> engine_trunk S w = Inr t \<and>
    read_file (wd_disk w) (br_db_path s) = Some f \<and> read_file (wd_disk w) (br_db_path t) = Some g \<and>
    commit (sv_codec S) (sv_text S) (sv_order S) (en_printer env) (en_hash env) now e elapsed (cf_workspace_id (sv_config S))
      (sq_db (sv_host S) f) (sq_db (sv_host S) g) (wd_registry w) (all_cherry source (br_id t)) = (pool, R, r) \<and>
    w' = w\<lparr>wd_registry := R, wd_disk := write_file (br_db_path t) (en_write env g pool) (wd_disk w)\<rparr>)"
proof (cases "engine_get S w source")
  case (Inl x)
  then show ?thesis using run by (auto simp: commit_to_trunk_def)
next
  case get: (Inr s)
  show ?thesis
  proof (cases "engine_trunk S w")
    case (Inl x)
    then show ?thesis using run get by (auto simp: commit_to_trunk_def)
  next
    case trunk: (Inr t)
    have l: "lookup S w source = Inr s" "lookup S w (br_id t) = Inr t"
      using get engine_get_eq [OF ok w] engine_trunk_found [OF ok w trunk] by simp_all
    let ?fs = "files_of (sv_host S) (wd_disk w)"
    let ?from = "from_store (sv_codec S) (sv_text S) (sv_order S) ?fs (wd_registry w) source (br_id t) (cf_workspace_id (sv_config S))"
    have "?from = res_bind (open_pool ?fs (br_db_path s)) (\<lambda>a. res_bind (open_pool ?fs (br_db_path t)) (\<lambda>b. Inr (a, b)))"
      using l unfolding lookup_def by (simp add: from_store_def)
    then have from': "?from = (case (read_file (wd_disk w) (br_db_path s), read_file (wd_disk w) (br_db_path t)) of
        (Some f, Some g) \<Rightarrow> Inr (sq_db (sv_host S) f, sq_db (sv_host S) g) | _ \<Rightarrow> Inl unable_to_open)"
      by (simp add: open_pool_def files_of_def ok_or_def split: option.split)
    show ?thesis
    proof (cases "read_file (wd_disk w) (br_db_path s) = None \<or> read_file (wd_disk w) (br_db_path t) = None")
      case True
      then have "?from = Inl unable_to_open" unfolding from' by (auto split: option.split)
      then show ?thesis using run get trunk by (auto simp: commit_to_trunk_def)
    next
      case False
      then obtain f g where fg: "read_file (wd_disk w) (br_db_path s) = Some f" "read_file (wd_disk w) (br_db_path t) = Some g"
        by auto
      obtain pool R x where c: "commit (sv_codec S) (sv_text S) (sv_order S) (en_printer env) (en_hash env) now e elapsed
          (cf_workspace_id (sv_config S)) (sq_db (sv_host S) f) (sq_db (sv_host S) g) (wd_registry w) (all_cherry source (br_id t)) = (pool, R, x)"
        by (rule prod_cases3)
      have "(w', r) = after_commit S env w (br_id t) (pool, R, x)"
        using run c by (simp add: commit_to_trunk_def get trunk from' fg commit_all_def)
      then have "w' = w\<lparr>wd_registry := R, wd_disk := write_file (br_db_path t) (en_write env g pool) (wd_disk w)\<rparr>" "r = x"
        by (simp_all add: after_commit_def l(2) put_db_def fg)
      then show ?thesis using l trunk fg c by blast
    qed
  qed
qed

lemma trunk_commit_shape:
  assumes ok: "services_ok S" and w: "world_ok S w" and e: "fresh_entry S w e"
    and run: "commit_to_trunk S env now e elapsed w source = (w', r)"
  shows "same_shape S w w'"
  using trunk_commit_cases [OF ok w run]
proof (elim disjE exE conjE)
  assume "w' = w"
  then show ?thesis using same_shapeI [OF w] by simp
next
  fix t g pool R f
  assume c: "commit (sv_codec S) (sv_text S) (sv_order S) (en_printer env) (en_hash env) now e elapsed (cf_workspace_id (sv_config S))
      (sq_db (sv_host S) f) (sq_db (sv_host S) g) (wd_registry w) (all_cherry source (br_id t)) = (pool, R, r)"
    and w': "w' = w\<lparr>wd_registry := R, wd_disk := write_file (br_db_path t) (en_write env g pool) (wd_disk w)\<rparr>"
  note R = commit_registry [OF services_okD(1) [OF ok] world_okD(1) [OF w] e [unfolded fresh_entry_def] c]
  then have "world_ok S (w\<lparr>wd_registry := R\<rparr>)" by (intro world_ok_registry [OF w]) simp_all
  then have "world_ok S w'" unfolding w' world_ok_disk .
  then show ?thesis using R by (intro same_shapeI) (simp_all add: w')
qed

lemma engine_metrics_effect:
  assumes ok: "services_ok S" and w: "world_ok S w" and ho: "hash_order (en_hash env)"
    and run: "engine_metrics S env clock w i = Some (w', r)"
  shows "w' = w \<and> isl r \<or> (\<exists>b m. r = Inr m \<and> sv_branches S w i = Some b \<and> world_ok S w' \<and> wd_dag w' = wd_dag w \<and>
    wd_disk w' = wd_disk w \<and> rg_commits (wd_registry w') = rg_commits (wd_registry w) \<and>
    sv_branches S w' = (sv_branches S w)(i \<mapsto> b\<lparr>br_metrics := m\<rparr>))"
proof (cases "lookup S w i")
  case (Inl x)
  then show ?thesis using run by (auto simp: engine_metrics_def)
next
  case (Inr b)
  then have b: "sv_branches S w i = Some b" using lookup_eq(1) [OF ok w] by blast
  have id': "br_id b = i" by (rule store_env.branches_of_id [OF services_okD(1) [OF ok] world_okD(1) [OF w] b])
  have run': "refresh S (en_hash env) clock 0 w b = Some (w', r)" using run Inr by (simp add: engine_metrics_def)
  show ?thesis
  proof (cases "read_file (wd_disk w) (br_db_path b)")
    case None
    then show ?thesis using run' by (auto simp: refresh_missing)
  next
    case (Some f)
    have "sv_branches S w (br_id b) = Some b" using b id' by simp
    from refresh_spec [OF ok w ho this Some, of clock 0] obtain w1 m where
      w1: "refresh S (en_hash env) clock 0 w b = Some (w1, Inr m)" "world_ok S w1" "wd_dag w1 = wd_dag w" "wd_disk w1 = wd_disk w"
        "rg_commits (wd_registry w1) = rg_commits (wd_registry w)"
        "sv_branches S w1 = (sv_branches S w)(br_id b \<mapsto> b\<lparr>br_metrics := m\<rparr>)" by blast
    have r: "w' = w1" "r = Inr m" using w1(1) run' by simp_all
    show ?thesis
      by (rule disjI2, rule exI [of _ b], rule exI [of _ m]) (use r b id' w1 in \<open>simp only: simp_thms\<close>)
  qed
qed

lemma metrics_shape:
  assumes ok: "services_ok S" and w: "world_ok S w" and ho: "hash_order (en_hash env)"
    and run: "engine_metrics S env clock w i = Some (w', r)"
  shows "same_shape S w w'"
  using engine_metrics_effect [OF assms]
proof (elim disjE exE conjE)
  assume "w' = w"
  then show ?thesis using same_shapeI [OF w] by simp
next
  fix b m assume b: "sv_branches S w i = Some b" "sv_branches S w' = (sv_branches S w)(i \<mapsto> b\<lparr>br_metrics := m\<rparr>)"
    "world_ok S w'" "wd_dag w' = wd_dag w"
  show ?thesis unfolding same_shape_def b(2) using b by simp
qed

text \<open>A simulation is a fork, then at most one write to the file of the new branch.\<close>

lemma run_agent_writes:
  assumes "run_agent err agent elapsed w se = (w', se', r)"
  shows "w' = w \<and> isl r \<or> (\<exists>content. w' = w\<lparr>wd_disk := write_file (br_db_path (se_branch se)) content (wd_disk w)\<rparr>)"
  using assms by (auto simp: run_agent_def Let_def split: option.splits prod.splits sum.splits)

lemma simulate_fork:
  assumes "simulate S env clock i u elapsed w parent_id scenario agent = Some (w', r)"
  shows "w' = w \<and> isl r \<or> (\<exists>parent w1 r1. engine_get S w parent_id = Inr parent \<and>
    fork S clock u w (br_id parent) (sandbox_name (sv_codec S) i scenario) (Some (sc_description scenario)) = Some (w1, r1) \<and>
    (w' = w1 \<and> isl r \<or> (\<exists>b content. r1 = Inr b \<and> w' = w1\<lparr>wd_disk := write_file (br_db_path b) content (wd_disk w1)\<rparr>)))"
proof (cases "engine_get S w parent_id")
  case (Inl x)
  then show ?thesis using assms by (auto simp: simulate_def)
next
  case get: (Inr parent)
  let ?F = "fork S clock u w (br_id parent) (sandbox_name (sv_codec S) i scenario) (Some (sc_description scenario))"
  show ?thesis
  proof (cases ?F)
    case None
    then show ?thesis using assms get by (simp add: simulate_def setup_environment_def)
  next
    case (Some p)
    obtain w1 r1 where p: "p = (w1, r1)" by (rule prod.exhaust)
    have "w' = w1 \<and> isl r \<or> (\<exists>b content. r1 = Inr b \<and> w' = w1\<lparr>wd_disk := write_file (br_db_path b) content (wd_disk w1)\<rparr>)"
    proof (cases r1)
      case (Inl x)
      then show ?thesis using assms get Some p by (auto simp: simulate_def setup_environment_def)
    next
      case (Inr b)
      let ?se = "\<lparr>se_id = i, se_label = sandbox_name (sv_codec S) i scenario, se_branch = b, se_parent_branch_id = br_id parent,
          se_started_at = clock 4, se_scenario = scenario, se_status = Running\<rparr>"
      obtain w2 se2 r2 where run: "run_agent (en_error env) agent elapsed w1 ?se = (w2, se2, r2)" by (rule prod_cases3)
      have "w' = w2 \<and> (isl r2 \<longrightarrow> isl r)"
        using assms get Some p Inr run by (auto simp: simulate_def setup_environment_def split: sum.splits)
      then show ?thesis using run_agent_writes [OF run] Inr by auto
    qed
    then show ?thesis using get Some p by blast
  qed
qed

definition in_order :: "('g, 'h) services \<Rightarrow> 'g world \<Rightarrow> bool" where
  "in_order S w \<longleftrightarrow> lineage S w \<and> placed S w"

lemma in_order_world: "in_order S w \<Longrightarrow> world_ok S w"
  by (simp add: in_order_def lineage_def)

lemma in_order_shape: "in_order S w \<Longrightarrow> same_shape S w w' \<Longrightarrow> in_order S w'"
  unfolding in_order_def by (elim conjE) (rule same_shape_keeps)

lemma in_order_system: "services_ok S \<Longrightarrow> in_order S w \<Longrightarrow> system_step S w w' \<Longrightarrow> in_order S w'"
  unfolding in_order_def by (elim conjE) (rule system_step_ok)

lemma in_order_fork:
  assumes "services_ok S" and "in_order S w" and "fresh S w u" and "few_branches w"
    and "fork S clock u w parent name description = Some (w', r)"
  shows "in_order S w'"
  by (rule in_order_system [OF assms(1,2)], rule system_step.life, rule lifecycle_step.forks [OF assms(3-5)])

lemma engine_step_ok:
  assumes ok: "services_ok S" and ho: "hash_order (en_hash env)" and o: "in_order S w" and s: "engine_step S env w w'"
  shows "in_order S w'"
proof -
  note w = in_order_world [OF o]
  note fork' = in_order_fork [OF ok o]
  note system = in_order_system [OF ok o]
  from s show ?thesis
  proof (cases rule: engine_step.cases)
    case components
    then show ?thesis by (rule system)
  next
    case (forks u clock parent name description r)
    show ?thesis
    proof (cases "engine_get S w parent")
      case (Inl x)
      then show ?thesis using forks(3) o by (simp add: engine_fork_def)
    next
      case (Inr b)
      then show ?thesis using forks fork' [of u clock parent name description w' r] by (simp add: engine_fork_def)
    qed
  next
    case (trunk_forks u clock name r)
    then show ?thesis using o fork' [OF trunk_forks(1,2)]
      by (auto simp: engine_fork_trunk_def split: sum.splits)
  next
    case (discards clock i r)
    have "perform S clock w i Discard = (w', r) \<Longrightarrow> in_order S w'"
      by (rule system, rule system_step.life, rule lifecycle_step.acts)
    then show ?thesis using discards o by (auto simp: engine_discard_def split: sum.splits)
  next
    case (archives clock i r)
    have "perform S clock w i Archive = (w', r) \<Longrightarrow> in_order S w'"
      by (rule system, rule system_step.life, rule lifecycle_step.acts)
    then show ?thesis using archives o by (auto simp: engine_archive_def split: sum.splits)
  next
    case (merges nows elapsed source target strategy r)
    then show ?thesis by (intro in_order_shape [OF o] merge_shape [OF w])
  next
    case (commits e now elapsed cherry r)
    then show ?thesis by (intro in_order_shape [OF o] commit_shape [OF ok w])
  next
    case (trunk_commits e now elapsed source r)
    then show ?thesis by (intro in_order_shape [OF o] trunk_commit_shape [OF ok w])
  next
    case (simulations u clock i elapsed parent scenario agent r)
    from simulate_fork [OF simulations(3)] show ?thesis
    proof (elim disjE exE conjE)
      fix p w1 r1
      assume f: "fork S clock u w (br_id p) (sandbox_name (sv_codec S) i scenario) (Some (sc_description scenario)) = Some (w1, r1)"
      have o1: "in_order S w1" by (rule fork' [OF simulations(1,2) f])
      {
        assume "w' = w1"
        then show ?thesis using o1 by (simp only:)
      next
        fix b content assume w': "w' = w1\<lparr>wd_disk := write_file (br_db_path b) content (wd_disk w1)\<rparr>"
        show ?thesis unfolding w' by (rule in_order_shape [OF o1 same_shape_disk [OF in_order_world [OF o1]]])
      }
    next
      assume "w' = w"
      then show ?thesis using o by (simp only:)
    qed
  next
    case (measures clock i r)
    then show ?thesis by (intro in_order_shape [OF o] metrics_shape [OF ok w ho])
  next
    case (collects clock elapsed r)
    then show ?thesis by (intro system system_step.collect) (simp add: engine_gc_def)
  qed
qed

lemma engine_steps_ok:
  assumes "services_ok S" and "hash_order (en_hash env)" and "(engine_step S env)\<^sup>*\<^sup>* w w'" and "in_order S w"
  shows "in_order S w'"
  using assms(3)
proof (induction rule: rtranclp_induct)
  case base
  show ?case by (rule assms(4))
next
  case (step x y)
  show ?case by (rule engine_step_ok [OF assms(1,2) step.IH step.hyps(2)])
qed

section \<open>The first engine\<close>

lemma empty_in_order: "services_ok S \<Longrightarrow> in_order S (empty_world S d)"
  using empty_lineage by (simp add: in_order_def placed_def empty_world_def empty_registry_branches)

text \<open>What \<open>BranchEngine::new\<close> makes of an empty registry.\<close>

lemma new_in_order:
  assumes ok: "services_ok S"
    and run: "engine_new S P clock u empty_registry d trunk_path = (R, d', Inr eg)"
  shows "in_order S (eg_world eg)"
proof -
  let ?w = "empty_world S (cleanup_incomplete_tmp_files (cf_branches_dir (sv_config S)) d)"
  have o: "in_order S ?w" by (rule empty_in_order [OF ok])
  have f: "fresh S ?w u"
    using digraph.new_empty [OF services_okD(3) [OF ok]]
    by (simp add: fresh_def empty_world_def empty_registry_branches)
  have w: "eg_world eg = ?w \<or> (\<exists>b. create_trunk S clock u ?w (cf_workspace_id (sv_config S)) trunk_path = (eg_world eg, Inr b))"
    using run by (auto simp: engine_new_def Let_def empty_world_def [symmetric] split: sum.splits option.splits prod.splits)
  then show ?thesis
  proof (elim disjE exE)
    fix b assume "create_trunk S clock u ?w (cf_workspace_id (sv_config S)) trunk_path = (eg_world eg, Inr b)"
    then show ?thesis by (intro in_order_system [OF ok o] system_step.life lifecycle_step.trunk [OF f])
  qed (use o in simp)
qed

section \<open>The lineage of a branch\<close>

text \<open>The proper ancestors of a branch by the parent fields of the registry, nearest first, up to a trunk.\<close>

fun parent_chain :: "(uuid \<rightharpoonup> branch) \<Rightarrow> uuid \<Rightarrow> uuid list \<Rightarrow> bool" where
  "parent_chain branches i [] \<longleftrightarrow> (\<exists>b. branches i = Some b \<and> br_parent_id b = None)"
| "parent_chain branches i (p # ps) \<longleftrightarrow> (\<exists>b. branches i = Some b \<and> br_parent_id b = Some p) \<and> parent_chain branches p ps"

text \<open>The same along a neighbour function, and what the stack search makes of it.\<close>

fun up_chain :: "('n \<Rightarrow> 'n list) \<Rightarrow> 'n \<Rightarrow> 'n list \<Rightarrow> bool" where
  "up_chain nb n [] \<longleftrightarrow> set (nb n) = {}"
| "up_chain nb n (c # cs) \<longleftrightarrow> set (nb n) = {c} \<and> up_chain nb c cs"

lemma search_chain:
  "up_chain nb n cs \<Longrightarrow> distinct cs \<Longrightarrow> seen \<inter> set cs = {} \<Longrightarrow> search False nb [n] seen out = Some (out @ cs)"
proof (induction cs arbitrary: n seen out)
  case Nil
  then show ?case by (simp add: search_Cons)
next
  case (Cons c cs)
  have "set (expand seen (nb n)) = {c}" using Cons.prems by (auto simp: set_expand)
  then have "expand seen (nb n) = [c]"
    using distinct_expand [of seen "nb n"] by (cases "expand seen (nb n)"; cases "tl (expand seen (nb n))") auto
  moreover have "search False nb [c] (insert c seen) (out @ [c]) = Some ((out @ [c]) @ cs)"
    by (rule Cons.IH) (use Cons.prems in auto)
  ultimately show ?case using Cons.prems(1) by (simp add: search_Cons)
qed

lemma lineageD:
  assumes "lineage S w"
  shows "dag_wf (sv_graph S) (wd_dag w)"
    and "dag_rel (sv_graph S) (wd_dag w) = {(p, i). \<exists>b. sv_branches S w i = Some b \<and> br_parent_id b = Some p}"
    and "dag_nodes (sv_graph S) (wd_dag w) = {i. sv_branches S w i \<noteq> None}"
proof -
  have "world_ok S w" using assms by (simp add: lineage_def)
  then show "dag_wf (sv_graph S) (wd_dag w)" by (rule world_okD(2))
qed (use assms in \<open>simp_all add: lineage_def\<close>)

lemma chain_exists:
  assumes l: "lineage S w" and b: "sv_branches S w i \<noteq> None"
  shows "\<exists>ps. parent_chain (sv_branches S w) i ps"
proof -
  let ?r = "dag_rel (sv_graph S) (wd_dag w)"
  note w = lineageD(1) [OF l]
  have "finite ?r" by (rule finite_subset [OF rel_nodes [OF w]]) (simp add: dag_nodes_def)
  then have "wf ?r" using rel_acyclic [OF w] by (rule finite_acyclic_wf)
  then show ?thesis using b
  proof (induction i rule: wf_induct_rule)
    case (less i)
    then obtain b where b: "sv_branches S w i = Some b" by blast
    show ?case
    proof (cases "br_parent_id b")
      case None
      then show ?thesis using b by (intro exI [of _ "[]"]) simp
    next
      case (Some p)
      have "(p, i) \<in> ?r" using l b Some by (simp add: lineage_def)
      moreover from this have "sv_branches S w p \<noteq> None" using rel_nodes [OF w] l by (auto simp: lineage_def)
      ultimately obtain ps where "parent_chain (sv_branches S w) p ps" using less.IH by blast
      then show ?thesis using b Some by (intro exI [of _ "p # ps"]) simp
    qed
  qed
qed

lemma chain_ancestors:
  assumes "lineage S w"
  shows "parent_chain (sv_branches S w) i ps \<Longrightarrow> a \<in> set ps \<Longrightarrow> (a, i) \<in> (dag_rel (sv_graph S) (wd_dag w))\<^sup>+"
proof (induction ps arbitrary: i)
  case (Cons p ps)
  then have pi: "(p, i) \<in> dag_rel (sv_graph S) (wd_dag w)" using assms by (simp add: lineage_def)
  then show ?case using Cons.IH [of p] Cons.prems by (cases "a = p") (auto intro: trancl_into_trancl)
qed simp

lemma chain_distinct:
  assumes l: "lineage S w"
  shows "parent_chain (sv_branches S w) i ps \<Longrightarrow> distinct ps"
proof (induction ps arbitrary: i)
  case (Cons p ps)
  have "acyclic (dag_rel (sv_graph S) (wd_dag w))" by (rule rel_acyclic [OF lineageD(1) [OF l]])
  then have "p \<notin> set ps" using chain_ancestors [OF l, of p ps p] Cons.prems by (auto simp: acyclic_def)
  moreover have "distinct ps" by (rule Cons.IH [of p]) (use Cons.prems in simp)
  ultimately show ?case by simp
qed simp

text \<open>The chain in the registry is the chain in the graph.\<close>

lemma chain_indices:
  assumes ok: "services_ok S" and l: "lineage S w"
  defines "nb \<equiv> pg_preds (sv_graph S) (dg_graph (wd_dag w))" and "weight \<equiv> nth (weights (sv_graph S) (wd_dag w))"
  shows "parent_chain (sv_branches S w) i ps \<Longrightarrow> dg_index (wd_dag w) i = Some k \<Longrightarrow> \<exists>ks. up_chain nb k ks \<and> map weight ks = ps"
proof (induction ps arbitrary: i k)
  let ?P = "sv_graph S" and ?d = "wd_dag w"
  note w = lineageD(1) [OF l] and rel = lineageD(2) [OF l]
  note P = services_okD(3) [OF ok]
  have parents: "weight ` set (nb k) = {p. (p, i) \<in> dag_rel ?P ?d}" if "dg_index ?d i = Some k" for i k
  proof -
    have k: "k < length (weights ?P ?d)" "weight k = i" using that wf_index [OF w] by (simp_all add: weight_def)
    have s: "set (nb k) = {a. (a, k) \<in> erel ?P (dg_graph ?d)}" unfolding nb_def by (rule digraph.set_preds [OF P])
    show ?thesis
    proof (intro set_eqI iffI)
      fix p assume "p \<in> weight ` set (nb k)"
      then obtain a where a: "(a, k) \<in> erel ?P (dg_graph ?d)" "p = weight a" unfolding s by blast
      then have "a < length (weights ?P ?d)" using wf_range [OF w] by auto
      then show "p \<in> {p. (p, i) \<in> dag_rel ?P ?d}" using a rel_nth [OF w _ k(1)] k(2) by (auto simp: weight_def)
    next
      fix p assume p: "p \<in> {p. (p, i) \<in> dag_rel ?P ?d}"
      then have "p \<in> set (weights ?P ?d)" using subsetD [OF rel_nodes [OF w], of "(p, i)"] by (simp add: dag_nodes_def)
      then obtain a where a: "a < length (weights ?P ?d)" "weight a = p"
        unfolding in_set_conv_nth weight_def by blast
      then show "p \<in> weight ` set (nb k)" using p rel_nth [OF w a(1) k(1)] k(2) unfolding s by (auto simp: weight_def)
    qed
  qed
  {
    case Nil
    then have "{p. (p, i) \<in> dag_rel ?P ?d} = {}" unfolding rel by auto
    then show ?case using parents [OF Nil.prems(2)] by (intro exI [of _ "[]"]) simp
  next
    case (Cons p ps)
    then have p: "weight ` set (nb k) = {p}" using parents [OF Cons.prems(2)] unfolding rel by auto
    have s: "set (nb k) = {a. (a, k) \<in> erel ?P (dg_graph ?d)}" unfolding nb_def by (rule digraph.set_preds [OF P])
    then have r: "set (nb k) \<subseteq> {..<length (weights ?P ?d)}" using wf_range [OF w] by auto
    obtain a where a: "a \<in> set (nb k)" "weight a = p" using p by (metis image_iff singletonI)
    have "x = a" if "x \<in> set (nb k)" for x
      using inj_onD [OF wf_inj [OF w], of x a] that a p r unfolding weight_def by blast
    then have one: "set (nb k) = {a}" using a(1) by blast
    have "dg_index ?d p = Some a" using wf_index [OF w] a r by (auto simp: weight_def)
    then obtain ks where "up_chain nb a ks" "map weight ks = ps" using Cons.IH [of p a] Cons.prems(1) by auto
    then show ?case using one a(2) by (intro exI [of _ "a # ks"]) simp
  }
qed

lemma lineage_reported:
  assumes ok: "services_ok S" and l: "lineage S w" and c: "parent_chain (sv_branches S w) i ps"
  shows "engine_lineage S w i = Some (Inr (rev ps @ [i]))"
proof -
  note w = lineageD(1) [OF l]
  have "sv_branches S w i \<noteq> None" using c by (cases ps) auto
  then have "i \<in> dag_nodes (sv_graph S) (wd_dag w)" using l by (simp add: lineage_def)
  then obtain k where k: "dg_index (wd_dag w) i = Some k" using wf_index_None [OF w, of i] by auto
  obtain ks where ks: "up_chain (pg_preds (sv_graph S) (dg_graph (wd_dag w))) k ks"
    "map (nth (weights (sv_graph S) (wd_dag w))) ks = ps" using chain_indices [OF ok l c k] by blast
  have "distinct ks" using chain_distinct [OF l c] ks(2) by (metis distinct_map)
  then have "search False (pg_preds (sv_graph S) (dg_graph (wd_dag w))) [k] {} [] = Some ks"
    using search_chain [OF ks(1)] by simp
  then show ?thesis by (simp add: engine_lineage_def ancestors_of_def k ks(2))
qed


section \<open>Properties\<close>

text \<open>
  C1: an engine made on an empty registry stays in order, whatever operations follow and whatever their errors:
  the DAG is exactly the acyclic parent relation of the registered branches, every branch has its database in
  its own directory, and the lineage reported for a registered branch is its chain of parents, from its trunk
  down to itself.
\<close>

theorem engine_lineage_correct:
  assumes "services_ok S" and "hash_order (en_hash env)"
    and "engine_new S P clock u empty_registry d trunk_path = (R, d', Inr eg)"
    and "(engine_step S env)\<^sup>*\<^sup>* (eg_world eg) w"
  shows "world_ok S w \<and> placed S w \<and>
    dag_rel (sv_graph S) (wd_dag w) = {(p, i). \<exists>b. sv_branches S w i = Some b \<and> br_parent_id b = Some p} \<and>
    acyclic (dag_rel (sv_graph S) (wd_dag w)) \<and>
    (\<forall>i. sv_branches S w i \<noteq> None \<longrightarrow>
       (\<exists>ps. parent_chain (sv_branches S w) i ps \<and> engine_lineage S w i = Some (Inr (rev ps @ [i]))))"
proof -
  have o: "in_order S w" by (rule engine_steps_ok [OF assms(1,2,4) new_in_order [OF assms(1,3)]])
  then have l: "lineage S w" by (simp add: in_order_def)
  have "\<exists>ps. parent_chain (sv_branches S w) i ps \<and> engine_lineage S w i = Some (Inr (rev ps @ [i]))"
    if "sv_branches S w i \<noteq> None" for i
    using chain_exists [OF l that] lineage_reported [OF assms(1) l] by blast
  then show ?thesis using o in_order_world [OF o] lineageD(2) [OF l] rel_acyclic [OF lineageD(1) [OF l]]
    by (simp add: in_order_def)
qed

text \<open>The branch with the configured trunk slug, if there is one.\<close>

lemma trunk_opt_eq:
  assumes "services_ok S" and "registry_ok (sv_codec S) (sv_text S) (wd_registry w)"
  shows "trunk_opt S w = Inr (Some b) \<longleftrightarrow>
      sv_branches S w (br_id b) = Some b \<and> br_workspace_id b = cf_workspace_id (sv_config S) \<and>
      br_slug b = cf_trunk_branch_name (sv_config S)"
    and "\<exists>o'. trunk_opt S w = Inr o'"
proof -
  note slug = store_env.slug_eq [OF services_okD(1) [OF assms(1)] assms(2), of "cf_workspace_id (sv_config S)" "cf_trunk_branch_name (sv_config S)"]
  show "\<exists>o'. trunk_opt S w = Inr o'"
    using slug(2) unfolding trunk_opt_def Let_def by (auto split: sum.split branch_error.split)
  show "trunk_opt S w = Inr (Some b) \<longleftrightarrow>
      sv_branches S w (br_id b) = Some b \<and> br_workspace_id b = cf_workspace_id (sv_config S) \<and>
      br_slug b = cf_trunk_branch_name (sv_config S)"
    unfolding slug(1) [symmetric] trunk_opt_def Let_def by (auto split: sum.split branch_error.split)
qed

text \<open>
  C32: an engine made anew on a registry that already has the trunk makes no second one and changes nothing in the
  registry, and finds the trunk and every other branch of the workspace; but its DAG starts empty, so it has no
  lineage for any of them.
\<close>

theorem engine_restart_correct:
  assumes "services_ok S" and "registry_ok (sv_codec S) (sv_text S) R"
    and "branches_of (sv_codec S) (sv_text S) R (br_id trunk) = Some trunk"
    and "br_workspace_id trunk = cf_workspace_id (sv_config S)" and "br_slug trunk = cf_trunk_branch_name (sv_config S)"
  shows "\<exists>d' r. engine_new S P clock u R d trunk_path = (R, d', r) \<and> (isl r \<longleftrightarrow> isl (validate_branches_dir P (sv_config S))) \<and>
    (\<forall>eg. r = Inr eg \<longrightarrow> wd_registry (eg_world eg) = R \<and> engine_trunk S (eg_world eg) = Inr trunk \<and>
      (\<forall>i b. branches_of (sv_codec S) (sv_text S) R i = Some b \<and> br_workspace_id b = cf_workspace_id (sv_config S) \<longrightarrow>
        engine_get S (eg_world eg) i = Inr b) \<and>
      (\<forall>i. engine_lineage S (eg_world eg) i = Some (Inl (DagNodeNotFound i))))"
proof (cases "validate_branches_dir P (sv_config S)")
  case (Inl e)
  then show ?thesis by (intro exI [of _ d] exI [of _ "Inl e"]) (simp add: engine_new_def)
next
  case (Inr v)
  let ?d = "cleanup_incomplete_tmp_files (cf_branches_dir (sv_config S)) d"
  let ?w = "\<lparr>wd_registry = R, wd_dag = dag_new (sv_graph S), wd_disk = ?d\<rparr>"
  have t: "trunk_opt S ?w = Inr (Some trunk)"
    using trunk_opt_eq(1) [OF assms(1), of ?w trunk] assms(2-5) by simp
  have new: "engine_new S P clock u R d trunk_path = (R, ?d, Inr \<lparr>eg_world = ?w, eg_gc_scheduler = None\<rparr>)"
    by (simp add: engine_new_def Inr t Let_def)
  have "engine_get S ?w i = Inr b"
    if "branches_of (sv_codec S) (sv_text S) R i = Some b \<and> br_workspace_id b = cf_workspace_id (sv_config S)" for i b
    using that store_env.get_eq [OF services_okD(1) [OF assms(1)] assms(2), of "cf_workspace_id (sv_config S)" i]
    by (simp add: engine_get_def lookup_def ensure_workspace_access_def)
  moreover have "engine_lineage S ?w i = Some (Inl (DagNodeNotFound i))" for i
    by (simp add: engine_lineage_def ancestors_of_def dag_new_def)
  moreover have "engine_trunk S ?w = Inr trunk" by (simp add: engine_trunk_def t ok_or_def)
  ultimately show ?thesis using new Inr
    by (intro exI [of _ ?d] exI [of _ "Inr \<lparr>eg_world = ?w, eg_gc_scheduler = None\<rparr>"]) simp
qed

text \<open>A file system without symbolic links, where every path is absolute and canonical.\<close>

definition plain_paths :: path_system where
  "plain_paths = \<lparr>ps_canonicalize = Inr, ps_is_symlink = (\<lambda>_. Inr False), ps_is_absolute = (\<lambda>_. True)\<rparr>"

lemma plain_branches_dir: "validate_branches_dir plain_paths (sv_config sample_services) = Inr ()"
proof -
  have "check_links plain_paths top_dir p = Inr ()" for top_dir p
  proof (induction p rule: length_induct)
    case (1 p)
    then show ?case by (subst check_links.simps) (auto simp: plain_paths_def)
  qed
  moreover have "path_starts_with (unwrap_or [''.''] (path_parent (cf_branches_dir (sv_config sample_services))))
      (cf_branches_dir (sv_config sample_services))"
    by (simp add: path_starts_with_def path_parent_def sample_services_def default_for_workspace_def Let_def
        path_join_def unwrap_or_def)
  ultimately show ?thesis
    by (simp add: validate_branches_dir_def) (simp add: plain_paths_def)
qed

text \<open>A first engine on a source database.\<close>

lemma trunk_created:
  assumes ok: "services_ok S" and w: "world_ok S w" and none: "sv_branches S w = Map.empty"
    and snap: "create_snapshot (sv_codec S) (sv_host S) (sv_config S) (clock 0) (wd_disk w) source u
      (cf_trunk_branch_name (sv_config S)) = (d, Inr m)"
  shows "\<exists>w' b. create_trunk S clock u w ws source = (w', Inr b)"
proof -
  let ?cfg = "sv_config S"
  let ?b = "\<lparr>br_id = u, br_name = cf_trunk_branch_name ?cfg, br_slug = cf_trunk_branch_name ?cfg,
      br_parent_id = None, br_status = Active, br_db_path = sm_snapshot_db_path m,
      br_snapshot_path = sm_snapshot_db_path m, br_workspace_id = ws,
      br_created_at = clock 1, br_updated_at = clock 1, br_forked_from_cursor = None,
      br_description = Some ''Primary trunk branch'',
      br_metadata = JObject (obj_of_list [(''role'', JString ''trunk''), (''content_id'', JString (content_id m))]),
      br_metrics = snapshot_metrics (clock 1) m\<rparr>"
  have "printable (br_metadata ?b)" by (simp only: branch.simps printable_strings)
  moreover have "\<not> clashes (sv_codec S) (sv_text S) (wd_registry w) ?b" by (simp add: clashes_def none)
  ultimately obtain R where R: "sv_insert S (clock 2) (wd_registry w) ?b = (R, Inr ())"
    using store_env.insert_spec(2) [OF services_okD(1) [OF ok] world_okD(1) [OF w], of ?b "clock 2"] by blast
  obtain g j where "ensure_or_insert (sv_graph S) (wd_dag w) u = (g, j)" by force
  then have "add_node (sv_graph S) (wd_dag w) u = (g, Inr j)"
    by (simp add: digraph.add_node_eq [OF services_okD(3) [OF ok]])
  then show ?thesis unfolding create_trunk_def Let_def snap prod.case sum.case R by simp
qed

theorem engine_lineage_correct_witness:
  "\<exists>R d' eg. engine_new sample_services plain_paths (\<lambda>_. 0) 9 empty_registry [([''x''], ''ab'')] [''x''] = (R, d', Inr eg) \<and>
     engine_lineage sample_services (eg_world eg) 9 = Some (Inr [9])"
proof -
  let ?S = sample_services and ?d = "[([''x''], ''ab'')]"
  let ?d1 = "cleanup_incomplete_tmp_files (cf_branches_dir (sv_config ?S)) ?d"
  let ?w = "empty_world ?S ?d1"
  have o: "in_order ?S ?w" by (rule empty_in_order [OF sample_services_ok])
  have none: "sv_branches ?S ?w = Map.empty" by (rule ext) (simp add: empty_world_def empty_registry_branches)
  have t: "trunk_opt ?S ?w = Inr None"
  proof -
    obtain o' where o': "trunk_opt ?S ?w = Inr o'" using trunk_opt_eq(2) [OF sample_services_ok world_okD(1) [OF in_order_world [OF o]]] by blast
    show ?thesis
    proof (cases o')
      case (Some b)
      then show ?thesis using trunk_opt_eq(1) [OF sample_services_ok world_okD(1) [OF in_order_world [OF o]], of b] o' none by simp
    qed (use o' in simp)
  qed
  have f: "read_file (wd_disk ?w) [''x''] = Some ''ab''"
    by (simp add: empty_world_def cleanup_incomplete_tmp_files_def read_file_def sample_services_def default_for_workspace_def
        Let_def path_join_def in_dir_def)
  have p: "\<not> in_dir (snapshot_dir_for (sv_codec ?S) (sv_config ?S) 9) [''x'']"
    by (simp add: in_dir_def snapshot_dir_for_def path_join_def)
  have i: "sq_integrity (sv_host ?S) (sq_checkpoint (sv_host ?S) ''ab'') = ''ok''" by (simp add: sample_host_def)
  have c: "from_pool (sq_db (sv_host ?S) (sq_checkpoint (sv_host ?S) ''ab'')) =
      Inr \<lparr>ec_memory_records = 2, ec_sessions = 0, ec_tool_outputs = 0\<rparr>"
    by (simp add: from_pool_def count_table_def sample_host_def table_of_def)
  obtain d2 m where snap: "create_snapshot (sv_codec ?S) (sv_host ?S) (sv_config ?S) 0 (wd_disk ?w) [''x''] 9
      (cf_trunk_branch_name (sv_config ?S)) = (d2, Inr m)"
    using create_snapshot_run [OF f p i c] by metis
  obtain w' b where tr: "create_trunk ?S (\<lambda>_. 0) 9 ?w (cf_workspace_id (sv_config ?S)) [''x''] = (w', Inr b)"
    using trunk_created [OF sample_services_ok in_order_world [OF o] none, of "\<lambda>_. 0" "[''x'']" 9] snap by blast
  have new: "engine_new ?S plain_paths (\<lambda>_. 0) 9 empty_registry ?d [''x''] =
      (wd_registry w', wd_disk w', Inr \<lparr>eg_world = w', eg_gc_scheduler = None\<rparr>)"
    using t tr by (simp add: engine_new_def plain_branches_dir Let_def empty_world_def)
  have fr: "sv_branches ?S ?w 9 = None" "9 \<notin> dag_nodes (sv_graph ?S) (wd_dag ?w)"
    using none lineageD(3) [of ?S ?w] o by (simp_all add: in_order_def)
  have b: "br_parent_id b = None" "sv_branches ?S w' = [9 \<mapsto> b]"
    using trunk_spec [OF sample_services_ok in_order_world [OF o] fr tr] none by simp_all
  have "hash_order (en_hash sample_env)" by (simp add: sorted_order.hash_order_axioms)
  from engine_lineage_correct [OF sample_services_ok this new rtranclp.rtrancl_refl]
  have "sv_branches ?S w' 9 \<noteq> None \<longrightarrow>
       (\<exists>ps. parent_chain (sv_branches ?S w') 9 ps \<and> engine_lineage ?S w' 9 = Some (Inr (rev ps @ [9])))"
    unfolding engine.simps by blast
  moreover have "sv_branches ?S w' 9 \<noteq> None" unfolding b(2) by simp
  ultimately obtain ps where "parent_chain (sv_branches ?S w') 9 ps" "engine_lineage ?S w' 9 = Some (Inr (rev ps @ [9]))"
    by blast
  moreover from this(1) b have "ps = []" by (cases ps) auto
  ultimately show ?thesis using new by auto
qed

theorem engine_restart_correct_witness:
  "\<exists>d' eg. engine_new sample_services plain_paths (\<lambda>_. 0) 9 two_registry [] [''x''] = (two_registry, d', Inr eg) \<and>
     engine_trunk sample_services (eg_world eg) = Inr trunk_example \<and>
     engine_lineage sample_services (eg_world eg) 8 = Some (Inl (DagNodeNotFound 8))"
proof -
  let ?S = sample_services
  have b: "branches_of (sv_codec ?S) (sv_text ?S) two_registry (br_id trunk_example) = Some trunk_example"
    by (simp add: two_registry_spec(2))
  have t: "br_workspace_id trunk_example = cf_workspace_id (sv_config ?S)" "br_slug trunk_example = cf_trunk_branch_name (sv_config ?S)"
    by (simp_all add: trunk_example_def branch_at_def blank_branch_def) (simp add: sample_services_def default_for_workspace_def Let_def)
  from engine_restart_correct [where P = plain_paths and clock = "\<lambda>_. 0" and u = 9 and d = "[]" and trunk_path = "[''x'']",
      OF sample_services_ok _ b t] obtain d' r where
    r: "engine_new ?S plain_paths (\<lambda>_. 0) 9 two_registry [] [''x''] = (two_registry, d', r)" "\<not> isl r" and
    eg: "\<forall>eg. r = Inr eg \<longrightarrow> wd_registry (eg_world eg) = two_registry \<and> engine_trunk ?S (eg_world eg) = Inr trunk_example \<and>
      (\<forall>i b. branches_of (sv_codec ?S) (sv_text ?S) two_registry i = Some b \<and> br_workspace_id b = cf_workspace_id (sv_config ?S) \<longrightarrow>
        engine_get ?S (eg_world eg) i = Inr b) \<and>
      (\<forall>i. engine_lineage ?S (eg_world eg) i = Some (Inl (DagNodeNotFound i)))"
    using two_registry_spec(1) by (auto simp: plain_branches_dir)
  obtain e where "r = Inr e" using r(2) by (cases r) simp_all
  then show ?thesis using r(1) eg by (intro exI [of _ d'] exI [of _ e]) simp
qed


section \<open>Isolation\<close>

text \<open>Whatever a snapshot or a fork reports, no database outside the directory of the new branch changes its content.\<close>

definition same_databases :: "('g, 'h) services \<Rightarrow> uuid \<Rightarrow> disk \<Rightarrow> disk \<Rightarrow> bool" where
  "same_databases S u d d' \<longleftrightarrow>
     (\<forall>p. \<not> in_dir (dir_of S u) p \<longrightarrow> files_of (sv_host S) d' p = files_of (sv_host S) d p)"

lemma same_databases_refl: "same_databases S u d d"
  by (simp add: same_databases_def)

lemma same_databases_trans: "same_databases S u d d1 \<Longrightarrow> same_databases S u d1 d2 \<Longrightarrow> same_databases S u d d2"
  by (simp add: same_databases_def)

lemma same_databases_write: "in_dir (dir_of S u) p \<Longrightarrow> same_databases S u d (write_file p f d)"
  by (auto simp: same_databases_def files_of_def)

lemma same_databases_rename:
  "in_dir (dir_of S u) p \<Longrightarrow> in_dir (dir_of S u) q \<Longrightarrow> same_databases S u d (rename_file p q d)"
  by (auto simp: same_databases_def files_of_def rename_file_def split: option.split)

lemma same_databases_checkpoint:
  "services_ok S \<Longrightarrow> read_file d p = Some f \<Longrightarrow> same_databases S u d (write_file p (sq_checkpoint (sv_host S) f) d)"
  by (auto simp: same_databases_def files_of_def host_laws.checkpoint_db [OF services_okD(2)])

lemma create_snapshot_isolated:
  assumes ok: "services_ok S"
    and run: "create_snapshot (sv_codec S) (sv_host S) (sv_config S) now d source u label = (d', r)"
  shows "same_databases S u d d'"
proof (cases "read_file d source")
  case None
  then show ?thesis using run by (simp add: create_snapshot_def same_databases_refl)
next
  case (Some f)
  let ?H = "sv_host S" and ?dir = "dir_of S u" and ?dest = "snapshot_path_for (sv_codec S) (sv_config S) u"
  let ?d1 = "write_file source (sq_checkpoint ?H f) d"
  let ?d2 = "rename_file (?dir @ [''branch.db.tmp'']) ?dest (write_file (?dir @ [''branch.db.tmp'']) (sq_checkpoint ?H f) ?d1)"
  have in': "in_dir ?dir (?dir @ [c])" for c by (rule in_dir_append)
  have s1: "same_databases S u d ?d1" by (rule same_databases_checkpoint [OF ok Some])
  have s2: "same_databases S u d ?d2"
    by (rule same_databases_trans [OF same_databases_trans [OF s1 same_databases_write] same_databases_rename])
      (simp_all add: branch_paths(3) in')
  have s3: "same_databases S u d (write_file (?dir @ [''branch.hash'']) h ?d2)" for h
    by (rule same_databases_trans [OF s2 same_databases_write]) (rule in')
  have s4: "same_databases S u d (write_file (path_join ?dir ''manifest.json'') m (write_file (?dir @ [''branch.hash'']) h ?d2))" for h m
    by (rule same_databases_trans [OF s3 same_databases_write]) (simp add: path_join_def in')
  have t: "with_extension ''db.tmp'' ?dest = ?dir @ [''branch.db.tmp'']" "sidecar_hash_path_for_db ?dest = ?dir @ [''branch.hash'']"
    by (simp_all add: branch_paths)
  have "d' = ?d1 \<or> d' = ?d2 \<or> (\<exists>h. d' = write_file (?dir @ [''branch.hash'']) h ?d2) \<or>
      (\<exists>h m. d' = write_file (path_join ?dir ''manifest.json'') m (write_file (?dir @ [''branch.hash'']) h ?d2))"
    using run by (auto simp: create_snapshot_def Some Let_def t write_sidecar_hash_def save_manifest_def
        split: sum.splits option.splits if_splits)
  then show ?thesis using s1 s2 s3 s4 by blast
qed

lemma fork_snapshot:
  assumes run: "fork S clock u w parent_id name description = Some (w', r)"
    and Q: "\<And>(parent :: branch) content d m. read_file (wd_disk w) (br_db_path parent) = Some content \<Longrightarrow>
      create_snapshot (sv_codec S) (sv_host S) (sv_config S) (clock 0)
        (write_file (br_db_path parent) (sq_checkpoint (sv_host S) content) (wd_disk w)) (br_db_path parent) u name = (d, m) \<Longrightarrow> Q d"
    and same: "Q (wd_disk w)"
  shows "Q (wd_disk w')"
  using run same by (auto simp: fork_def Let_def split: sum.splits option.splits if_splits prod.splits intro: Q)

lemma fork_isolated:
  assumes ok: "services_ok S" and run: "fork S clock u w parent name description = Some (w', r)"
  shows "same_databases S u (wd_disk w) (wd_disk w')"
proof (rule fork_snapshot [OF run])
  fix p :: branch and content d m
  assume p: "read_file (wd_disk w) (br_db_path p) = Some content" and
    c: "create_snapshot (sv_codec S) (sv_host S) (sv_config S) (clock 0)
      (write_file (br_db_path p) (sq_checkpoint (sv_host S) content) (wd_disk w)) (br_db_path p) u name = (d, m)"
  show "same_databases S u (wd_disk w) d"
    by (rule same_databases_trans [OF same_databases_checkpoint [OF ok p] create_snapshot_isolated [OF ok c]])
qed (rule same_databases_refl)

text \<open>
  C3: a simulation is isolated, whatever the agent writes and answers: no branch but the new one changes in the
  registry, and no database outside the directory of the new branch changes its content. With a result there is
  a sandbox branch, a child of the given parent; and it is left active, like every sandbox whose run fails
  after the fork.
\<close>

theorem simulate_isolated:
  assumes "services_ok S" and "in_order S w" and "fresh S w u" and "few_branches w"
    and "simulate S env clock i u elapsed w parent_id scenario agent = Some (w', r)"
  shows "in_order S w' \<and>
    (sv_branches S w' = sv_branches S w \<and> isl r \<or>
     (\<exists>b. sv_branches S w' = (sv_branches S w)(u \<mapsto> b) \<and> br_parent_id b = Some parent_id \<and> br_status b = Active)) \<and>
    (\<forall>j b. sv_branches S w j = Some b \<longrightarrow>
       files_of (sv_host S) (wd_disk w') (br_db_path b) = files_of (sv_host S) (wd_disk w) (br_db_path b))"
proof -
  have w: "world_ok S w" by (rule in_order_world [OF assms(2)])
  have p: "placed S w" using assms(2) by (simp add: in_order_def)
  have u: "sv_branches S w u = None" "u \<notin> dag_nodes (sv_graph S) (wd_dag w)" using assms(3) by (simp_all add: fresh_def)
  have apart: "\<not> in_dir (dir_of S u) (br_db_path b)" if b: "sv_branches S w j = Some b" for j b
  proof
    assume "in_dir (dir_of S u) (br_db_path b)"
    then have "in_dir (dir_of S u) (snapshot_path_for (sv_codec S) (sv_config S) j)"
      using p b by (simp add: placed_def)
    then have "u = j" by (rule dirs_apart [OF assms(1)])
    then show False using u(1) b by simp
  qed
  have files: "\<forall>j b. sv_branches S w j = Some b \<longrightarrow>
       files_of (sv_host S) d' (br_db_path b) = files_of (sv_host S) (wd_disk w) (br_db_path b)"
    if "same_databases S u (wd_disk w) d'" for d'
    using that apart by (simp add: same_databases_def)
  show ?thesis
    using simulate_fork [OF assms(5)]
  proof (elim disjE)
    assume "w' = w \<and> isl r"
    then show ?thesis using assms(2) by simp
  next
    assume "\<exists>parent w1 r1. engine_get S w parent_id = Inr parent \<and>
      fork S clock u w (br_id parent) (sandbox_name (sv_codec S) i scenario) (Some (sc_description scenario)) = Some (w1, r1) \<and>
      (w' = w1 \<and> isl r \<or> (\<exists>b content. r1 = Inr b \<and> w' = w1\<lparr>wd_disk := write_file (br_db_path b) content (wd_disk w1)\<rparr>))"
    then obtain parent w1 r1 where get: "engine_get S w parent_id = Inr parent" and
      f: "fork S clock u w (br_id parent) (sandbox_name (sv_codec S) i scenario) (Some (sc_description scenario)) = Some (w1, r1)" and
      w': "w' = w1 \<and> isl r \<or> (\<exists>b content. r1 = Inr b \<and> w' = w1\<lparr>wd_disk := write_file (br_db_path b) content (wd_disk w1)\<rparr>)"
      by (elim exE conjE) (rule that)
    have pid: "br_id parent = parent_id"
      using get engine_get_eq [OF assms(1) w] lookup_eq(1) [OF assms(1) w]
        store_env.branches_of_id [OF services_okD(1) [OF assms(1)] world_okD(1) [OF w]] by metis
    have o1: "in_order S w1" by (rule in_order_fork [OF assms(1-4) f])
    have d1: "same_databases S u (wd_disk w) (wd_disk w1)" by (rule fork_isolated [OF assms(1) f])
    note effect = fork_run [OF assms(1) w u assms(4) [unfolded few_branches_def], of clock "br_id parent"
        "sandbox_name (sv_codec S) i scenario" "Some (sc_description scenario)", unfolded f]
    show ?thesis
    proof (cases r1)
      case (Inl e)
      then have "w' = w1" "isl r" "wd_registry w1 = wd_registry w" using w' effect by auto
      then show ?thesis using o1 files [OF d1] by simp
    next
      case (Inr b)
      then obtain pb where "forked S u w (br_id parent) (sandbox_name (sv_codec S) i scenario) w1 pb b" using effect by auto
      then have b: "sv_branches S w1 = (sv_branches S w)(u \<mapsto> b)" "br_parent_id b = Some parent_id" "br_status b = Active"
        "br_db_path b = snapshot_path_for (sv_codec S) (sv_config S) u"
        by (simp_all add: forked_def pid)
      have "in_order S w' \<and> wd_registry w' = wd_registry w1 \<and> same_databases S u (wd_disk w) (wd_disk w')"
        using w'
      proof (elim disjE exE conjE)
        fix c content assume c: "r1 = Inr c" "w' = w1\<lparr>wd_disk := write_file (br_db_path c) content (wd_disk w1)\<rparr>"
        have "in_dir (dir_of S u) (br_db_path c)" using c(1) Inr b(4) by (simp add: branch_paths(3) in_dir_append)
        then have "same_databases S u (wd_disk w) (wd_disk w')"
          using same_databases_trans [OF d1 same_databases_write] c(2) by simp
        moreover have "in_order S w'" unfolding c(2) by (rule in_order_shape [OF o1 same_shape_disk [OF in_order_world [OF o1]]])
        ultimately show ?thesis using c(2) by simp
      qed (use o1 d1 in simp)
      then show ?thesis using b files [of "wd_disk w'"] by (intro conjI disjI2 exI [of _ b]) simp_all
    qed
  qed
qed

text \<open>An agent that writes to its sandbox and fails.\<close>

definition home_example :: branch where
  "home_example = discarded_example\<lparr>br_status := Active\<rparr>"

definition home_world :: "list_graph world" where
  "home_world = world_of home_example [(br_db_path home_example, ''ab'')]"

definition careless_agent :: "string \<Rightarrow> string \<times> json branch_result" where
  "careless_agent f = (f @ ''!'', Inl BranchLimitExceeded)"

lemma home_world_spec:
  "in_order sample_services home_world" "sv_branches sample_services home_world = [8 \<mapsto> home_example]"
  "fresh sample_services home_world 9" "few_branches home_world"
proof -
  have p: "printable (br_metadata home_example)" "br_parent_id home_example = None" "br_id home_example = 8"
    "br_db_path home_example = snapshot_path_for decimal_codec (sv_config sample_services) 8"
    by (simp_all add: home_example_def discarded_example_def blank_branch_def)
  note w = world_of_spec [OF p(1,2), of "[(br_db_path home_example, ''ab'')]", folded home_world_def]
  show br: "sv_branches sample_services home_world = [8 \<mapsto> home_example]" using w(2) p(3) by simp
  have rel: "dag_rel list_pg (wd_dag home_world) = {}" by (simp add: home_world_def world_of_rel)
  have nodes: "dag_nodes list_pg (wd_dag home_world) = {8}" using w(3) p(3) by simp
  have "{(q, i). \<exists>b. sv_branches sample_services home_world i = Some b \<and> br_parent_id b = Some q} = {}"
    "{i. sv_branches sample_services home_world i \<noteq> None} = {8}" unfolding br using p(2) by auto
  then have "lineage sample_services home_world" using w(1) nodes rel by (simp only: lineage_def sample_services_sel simp_thms)
  moreover have "placed sample_services home_world" unfolding placed_def br using p(4) by (auto split: if_splits)
  ultimately show "in_order sample_services home_world" by (simp add: in_order_def)
  show "fresh sample_services home_world 9" using nodes unfolding fresh_def br by simp
  show "few_branches home_world"
    by (simp add: few_branches_def home_world_def world_of_def store_insert_def exec_insert_branch_def
        store_update_metrics_def empty_registry_def Let_def split: prod.split sum.split)
qed

theorem simulate_isolated_witness:
  "\<exists>w' r. simulate sample_services sample_env (\<lambda>_. 0) 3 9 0 home_world 8
      \<lparr>sc_name = ''try'', sc_description = [], sc_max_ops = None, sc_timeout_secs = None, sc_seed_data = None\<rparr> careless_agent = Some (w', r) \<and>
     files_of sample_host (wd_disk w') (br_db_path home_example) = Some (sq_db sample_host ''ab'')"
proof -
  let ?S = sample_services and ?w = home_world
  let ?sc = "\<lparr>sc_name = ''try'', sc_description = [], sc_max_ops = None, sc_timeout_secs = None, sc_seed_data = None\<rparr>"
  note w = in_order_world [OF home_world_spec(1)]
  have f: "sv_branches ?S ?w 9 = None" "9 \<notin> dag_nodes (sv_graph ?S) (wd_dag ?w)"
    using home_world_spec(3) by (simp_all add: fresh_def)
  obtain w1 r1 where fork: "fork ?S (\<lambda>_. 0) 9 ?w (br_id home_example) (sandbox_name (sv_codec ?S) 3 ?sc) (Some []) = Some (w1, r1)"
    using fork_run [OF sample_services_ok w f home_world_spec(4) [unfolded few_branches_def]] by blast
  have get: "engine_get ?S ?w 8 = Inr home_example"
    unfolding engine_get_eq [OF sample_services_ok w] lookup_eq(1) [OF sample_services_ok w] home_world_spec(2)
    by (simp add: home_example_def discarded_example_def blank_branch_def)
  have "\<exists>w2 se e. run_agent (en_error sample_env) careless_agent 0 w1 se' = (w2, se, Inl e)" for se'
    by (simp add: run_agent_def careless_agent_def split: option.split)
  then obtain w' r where run: "simulate ?S sample_env (\<lambda>_. 0) 3 9 0 ?w 8 ?sc careless_agent = Some (w', r)"
    using fork by (cases r1) (simp_all add: simulate_def get setup_environment_def, metis (no_types, lifting) case_prod_conv sum.case(1))
  from simulate_isolated [OF sample_services_ok home_world_spec(1,3,4) this] have
    "files_of (sv_host ?S) (wd_disk w') (br_db_path home_example) = files_of (sv_host ?S) (wd_disk ?w) (br_db_path home_example)"
    unfolding home_world_spec(2) by simp
  then have "files_of sample_host (wd_disk w') (br_db_path home_example) = Some (sq_db sample_host ''ab'')"
    by (simp add: files_of_def home_world_def world_of_def read_file_def)
  then show ?thesis using run by blast
qed


text \<open>
  C9: committing a branch to the trunk can write no file but the database of the trunk, and changes no branch and
  nothing of the lineage; if it fails the registry is as it was. If it succeeds, the branch was live and the trunk
  active, the trunk has the database that the changes of the branch, applied in order, make of the one it had,
  and the commit log has one more row, of the trunk.
\<close>

theorem commit_to_trunk_correct:
  assumes "services_ok S" and "world_ok S w" and "fresh_entry S w e"
    and "commit_to_trunk S env now e elapsed w source = (w', r)"
  shows "wd_dag w' = wd_dag w \<and> sv_branches S w' = sv_branches S w \<and>
    (\<forall>p. read_file (wd_disk w') p = read_file (wd_disk w) p \<or> (\<exists>t. engine_trunk S w = Inr t \<and> p = br_db_path t)) \<and>
    (case r of
       Inl _ \<Rightarrow> wd_registry w' = wd_registry w
     | Inr res \<Rightarrow> \<exists>s t f g pool row. lookup S w source = Inr s \<and> is_live (br_status s) \<and>
         engine_trunk S w = Inr t \<and> br_status t = Active \<and>
         read_file (wd_disk w) (br_db_path s) = Some f \<and> read_file (wd_disk w) (br_db_path t) = Some g \<and>
         res_foldM (apply_pick (en_printer env)) (sq_db (sv_host S) g)
           (all_picks (en_hash env) (sq_db (sv_host S) f) (sq_db (sv_host S) g) (cp_entity_selections (all_cherry source (br_id t)))) = Inr pool \<and>
         read_file (wd_disk w') (br_db_path t) = Some (en_write env g pool) \<and>
         rg_commits (wd_registry w') = rg_commits (wd_registry w) @ [row] \<and>
         cw_branch_id row = uuid_str (sv_codec S) (br_id t))"
  using trunk_commit_cases [OF assms(1,2,4)]
proof (elim disjE exE)
  assume "w' = w \<and> isl r"
  then show ?thesis by (auto split: sum.split)
next
  fix s t f g pool R
  assume "lookup S w source = Inr s \<and> engine_trunk S w = Inr t \<and>
    read_file (wd_disk w) (br_db_path s) = Some f \<and> read_file (wd_disk w) (br_db_path t) = Some g \<and>
    commit (sv_codec S) (sv_text S) (sv_order S) (en_printer env) (en_hash env) now e elapsed (cf_workspace_id (sv_config S))
      (sq_db (sv_host S) f) (sq_db (sv_host S) g) (wd_registry w) (all_cherry source (br_id t)) = (pool, R, r) \<and>
    w' = w\<lparr>wd_registry := R, wd_disk := write_file (br_db_path t) (en_write env g pool) (wd_disk w)\<rparr>"
  then have l: "lookup S w source = Inr s" "engine_trunk S w = Inr t" and
    fg: "read_file (wd_disk w) (br_db_path s) = Some f" "read_file (wd_disk w) (br_db_path t) = Some g" and
    c: "commit (sv_codec S) (sv_text S) (sv_order S) (en_printer env) (en_hash env) now e elapsed (cf_workspace_id (sv_config S))
      (sq_db (sv_host S) f) (sq_db (sv_host S) g) (wd_registry w) (all_cherry source (br_id t)) = (pool, R, r)" and
    w': "w' = w\<lparr>wd_registry := R, wd_disk := write_file (br_db_path t) (en_write env g pool) (wd_disk w)\<rparr>"
    by blast+
  note env = services_okD(1) [OF assms(1)] and reg = world_okD(1) [OF assms(2)]
  note R = commit_registry [OF env reg assms(3) [unfolded fresh_entry_def] c]
  note effect = commit_run [OF env reg assms(3) [unfolded fresh_entry_def] c]
  have look: "sv_branches S w source = Some s" "sv_branches S w (br_id t) = Some t"
    using l(1) engine_trunk_found [OF assms(1,2) l(2)] unfolding lookup_eq(1) [OF assms(1,2)] by simp_all
  have frame: "wd_dag w' = wd_dag w" "sv_branches S w' = sv_branches S w"
    "\<forall>p. read_file (wd_disk w') p = read_file (wd_disk w) p \<or> p = br_db_path t"
    "read_file (wd_disk w') (br_db_path t) = Some (en_write env g pool)"
    using R by (simp_all add: w')
  show ?thesis
  proof (cases r)
    case (Inl x)
    then have "wd_registry w' = wd_registry w" using effect by (simp add: w')
    then show ?thesis using frame l(2) Inl by auto
  next
    case (Inr res)
    from effect [unfolded Inr sum.case Let_def] look have
      v: "vr_ok (validate_cherry (sv_codec S) (sq_db (sv_host S) f) (all_cherry source (br_id t)) s t)" and
      run: "res_foldM (apply_pick (en_printer env)) (sq_db (sv_host S) g)
           (all_picks (en_hash env) (sq_db (sv_host S) f) (sq_db (sv_host S) g) (cp_entity_selections (all_cherry source (br_id t)))) = Inr pool" and
      log: "\<exists>ids. rg_commits R = rg_commits (wd_registry w) @
        [commit_row_of (sv_codec S) (sv_text S) (commit_entry now e (all_cherry source (br_id t)) ids)]"
      by auto
    from log obtain ids where "rg_commits R = rg_commits (wd_registry w) @
        [commit_row_of (sv_codec S) (sv_text S) (commit_entry now e (all_cherry source (br_id t)) ids)]" by blast
    then have row: "\<exists>row. rg_commits (wd_registry w') = rg_commits (wd_registry w) @ [row] \<and> cw_branch_id row = uuid_str (sv_codec S) (br_id t)"
      by (simp add: w' commit_row_of_def commit_entry_def)
    have st: "is_live (br_status s)" "br_status t = Active" using v unfolding validate_ok by blast+
    show ?thesis unfolding Inr sum.case using frame l fg run row st by blast
  qed
qed

theorem commit_to_trunk_correct_witness:
  "\<exists>w' r. commit_to_trunk sample_services sample_env 0 3 0 family_world 8 = (w', r) \<and>
     wd_dag w' = wd_dag family_world \<and> read_file (wd_disk w') [''child''] = Some ''ac''"
proof -
  obtain w' r where run: "commit_to_trunk sample_services sample_env 0 3 0 family_world 8 = (w', r)" by force
  have e: "fresh_entry sample_services family_world 3"
    by (simp add: fresh_entry_def family_world_def two_registry_spec(3))
  note c = commit_to_trunk_correct [OF sample_services_ok family_world_spec(1) e run]
  have "br_db_path t \<noteq> [''child'']" if "engine_trunk sample_services family_world = Inr t" for t
  proof -
    have t: "trunk_opt sample_services family_world = Inr (Some t)"
      using that by (auto simp: engine_trunk_def res_bind_eq_Inr ok_or_def split: option.splits)
    have b: "[7 \<mapsto> trunk_example, 8 \<mapsto> child_example] (br_id t) = Some t" "br_slug t = cf_trunk_branch_name (sv_config sample_services)"
      using trunk_opt_eq(1) [OF sample_services_ok world_okD(1) [OF family_world_spec(1)], of t, THEN iffD1, OF t]
      unfolding family_world_spec(2) by simp_all
    have "t = trunk_example \<or> t = child_example"
      by (rule disjE [of "br_id t = 8" "br_id t \<noteq> 8"]) (use b(1) in \<open>simp_all split: if_splits\<close>)
    moreover note b(2)
    moreover have "br_slug child_example \<noteq> cf_trunk_branch_name (sv_config sample_services)"
      by (simp add: child_example_def sample_services_def default_for_workspace_def Let_def)
    ultimately have "t = trunk_example" by blast
    then show ?thesis by (simp add: trunk_example_def branch_at_def blank_branch_def)
  qed
  moreover have "read_file (wd_disk w') p = read_file (wd_disk family_world) p \<or>
      (\<exists>t. engine_trunk sample_services family_world = Inr t \<and> p = br_db_path t)" for p using c by blast
  ultimately have "read_file (wd_disk w') [''child''] = read_file (wd_disk family_world) [''child'']" by metis
  then have "read_file (wd_disk w') [''child''] = Some ''ac''" by (simp add: family_world_def read_file_def)
  moreover have "wd_dag w' = wd_dag family_world" by (rule conjunct1 [OF c])
  ultimately show ?thesis using run by blast
qed

end
