(* ===== verification/Guarded.thy ===== *)
theory Guarded
  imports Workspace
begin

text \<open>
  \<open>src/guarded.rs\<close>: the engine behind a guard. The guard is a function argument, from a session, an action and a
  resource to its answer or the text of its error; the crate it comes from is not modelled.
\<close>

section \<open>The checks\<close>

datatype access_result = Allow | Deny string | Mask

type_synonym 's guard = "'s \<Rightarrow> string \<Rightarrow> string \<Rightarrow> string + access_result"

definition check :: "'s guard \<Rightarrow> 's \<Rightarrow> string \<Rightarrow> string \<Rightarrow> unit branch_result" where
  "check G session action resource =
     (case G session action resource of
        Inl error \<Rightarrow> Inl (PermissionDenied error)
      | Inr Allow \<Rightarrow> Inr ()
      | Inr (Deny reason) \<Rightarrow> Inl (PermissionDenied reason)
      | Inr Mask \<Rightarrow> Inl (PermissionDenied ''masked access not applicable to branch ops''))"

definition check_read :: "'s guard \<Rightarrow> 's \<Rightarrow> string \<Rightarrow> unit branch_result" where
  "check_read G session resource = check G session ''read'' resource"

definition check_write :: "'s guard \<Rightarrow> 's \<Rightarrow> string \<Rightarrow> unit branch_result" where
  "check_write G session resource = check G session ''write'' resource"

section \<open>The operations\<close>

definition guarded_fork_trunk ::
    "('g, 'h) services \<Rightarrow> 's guard \<Rightarrow> (nat \<Rightarrow> datetime) \<Rightarrow> uuid \<Rightarrow> 'g world \<Rightarrow> 's \<Rightarrow> string \<Rightarrow>
     ('g world \<times> branch branch_result) option" where
  "guarded_fork_trunk S G clock branch_id w session name =
     (case check_write G session ''branch:fork_trunk'' of
        Inl e \<Rightarrow> Some (w, Inl e)
      | Inr _ \<Rightarrow> engine_fork_trunk S clock branch_id w name)"

definition guarded_fork ::
    "('g, 'h) services \<Rightarrow> 's guard \<Rightarrow> (nat \<Rightarrow> datetime) \<Rightarrow> uuid \<Rightarrow> 'g world \<Rightarrow> 's \<Rightarrow> uuid \<Rightarrow> string \<Rightarrow>
     ('g world \<times> branch branch_result) option" where
  "guarded_fork S G clock branch_id w session parent_id name =
     (case check_write G session ''branch:fork'' of
        Inl e \<Rightarrow> Some (w, Inl e)
      | Inr _ \<Rightarrow> engine_fork S clock branch_id w parent_id name None)"

definition guarded_merge ::
    "('g, 'h) services \<Rightarrow> engine_env \<Rightarrow> 's guard \<Rightarrow> datetime \<times> datetime \<Rightarrow> u64 \<Rightarrow> 'g world \<Rightarrow> 's \<Rightarrow> uuid \<Rightarrow> uuid \<Rightarrow>
     merge_strategy \<Rightarrow> ('g world \<times> merge_result branch_result) option" where
  "guarded_merge S env G nows elapsed w session source target strategy =
     (case check_write G session ''branch:merge'' of
        Inl e \<Rightarrow> Some (w, Inl e)
      | Inr _ \<Rightarrow> engine_merge S env nows elapsed w source target strategy)"

definition guarded_commit_to_trunk ::
    "('g, 'h) services \<Rightarrow> engine_env \<Rightarrow> 's guard \<Rightarrow> datetime \<Rightarrow> uuid \<Rightarrow> u64 \<Rightarrow> 'g world \<Rightarrow> 's \<Rightarrow> uuid \<Rightarrow>
     'g world \<times> unit branch_result" where
  "guarded_commit_to_trunk S env G now entry_id elapsed w session branch_id =
     (case check_write G session ''branch:commit_to_trunk'' of
        Inl e \<Rightarrow> (w, Inl e)
      | Inr _ \<Rightarrow>
          (case commit_to_trunk S env now entry_id elapsed w branch_id of
             (w, Inl e) \<Rightarrow> (w, Inl e)
           | (w, Inr _) \<Rightarrow> (w, Inr ())))"

definition guarded_discard ::
    "('g, 'h) services \<Rightarrow> 's guard \<Rightarrow> (nat \<Rightarrow> datetime) \<Rightarrow> 'g world \<Rightarrow> 's \<Rightarrow> uuid \<Rightarrow> 'g world \<times> unit branch_result" where
  "guarded_discard S G clock w session branch_id =
     (case check_write G session ''branch:discard'' of
        Inl e \<Rightarrow> (w, Inl e)
      | Inr _ \<Rightarrow> engine_discard S clock w branch_id)"

definition guarded_simulate ::
    "('g, 'h) services \<Rightarrow> engine_env \<Rightarrow> 's guard \<Rightarrow> (nat \<Rightarrow> datetime) \<Rightarrow> uuid \<Rightarrow> uuid \<Rightarrow> u64 \<Rightarrow> 'g world \<Rightarrow> 's \<Rightarrow> uuid \<Rightarrow>
     simulation_scenario \<Rightarrow> (string \<Rightarrow> string \<times> json branch_result) \<Rightarrow> ('g world \<times> evaluation_report branch_result) option" where
  "guarded_simulate S env G clock id' branch_id duration_ms w session parent_id scenario f =
     (case check_write G session ''branch:simulate'' of
        Inl e \<Rightarrow> Some (w, Inl e)
      | Inr _ \<Rightarrow> simulate S env clock id' branch_id duration_ms w parent_id scenario f)"

definition guarded_diff ::
    "('g, 'h) services \<Rightarrow> engine_env \<Rightarrow> 's guard \<Rightarrow> datetime \<Rightarrow> 'g world \<Rightarrow> 's \<Rightarrow> uuid \<Rightarrow> uuid \<Rightarrow>
     diff_result branch_result option" where
  "guarded_diff S env G now w session source target =
     (case check_read G session ''branch:diff'' of
        Inl e \<Rightarrow> Some (Inl e)
      | Inr _ \<Rightarrow> engine_diff S env now w source target)"

definition guarded_compare_branches ::
    "('g, 'h) services \<Rightarrow> engine_env \<Rightarrow> 's guard \<Rightarrow> datetime \<Rightarrow> 'g world \<Rightarrow> 's \<Rightarrow> uuid \<Rightarrow> uuid \<Rightarrow>
     diff_result branch_result option" where
  "guarded_compare_branches S env G now w session source target =
     (case check_read G session ''branch:compare'' of
        Inl e \<Rightarrow> Some (Inl e)
      | Inr _ \<Rightarrow> compare_branches S env now w source target)"

definition guarded_list_branches ::
    "('g, 'h) services \<Rightarrow> 's guard \<Rightarrow> 'g world \<Rightarrow> 's \<Rightarrow> branch list branch_result" where
  "guarded_list_branches S G w session =
     res_bind (check_read G session ''branch:list'') (\<lambda>_. engine_list S w None)"

definition guarded_trunk :: "('g, 'h) services \<Rightarrow> 's guard \<Rightarrow> 'g world \<Rightarrow> 's \<Rightarrow> branch branch_result" where
  "guarded_trunk S G w session = res_bind (check_read G session ''branch:trunk'') (\<lambda>_. engine_trunk S w)"

definition guarded_get_metrics ::
    "('g, 'h) services \<Rightarrow> engine_env \<Rightarrow> 's guard \<Rightarrow> (nat \<Rightarrow> datetime) \<Rightarrow> 'g world \<Rightarrow> 's \<Rightarrow> uuid \<Rightarrow>
     ('g world \<times> branch_metrics branch_result) option" where
  "guarded_get_metrics S env G clock w session branch_id =
     (case check_read G session ''branch:get_metrics'' of
        Inl e \<Rightarrow> Some (w, Inl e)
      | Inr _ \<Rightarrow> engine_metrics S env clock w branch_id)"

definition guarded_cherry_pick ::
    "('g, 'h) services \<Rightarrow> engine_env \<Rightarrow> 's guard \<Rightarrow> datetime \<Rightarrow> uuid \<Rightarrow> u64 \<Rightarrow> 'g world \<Rightarrow> 's \<Rightarrow> uuid \<Rightarrow> uuid \<Rightarrow>
     entity_selection list \<Rightarrow> string option \<Rightarrow> 'g world \<times> commit_result branch_result" where
  "guarded_cherry_pick S env G now entry_id elapsed w session source target selections message =
     (case check_write G session ''branch:cherry_pick'' of
        Inl e \<Rightarrow> (w, Inl e)
      | Inr _ \<Rightarrow> engine_cherry_pick S env now entry_id elapsed w source target selections message)"

section \<open>Steps of a session\<close>

inductive guarded_step :: "('g, 'h) services \<Rightarrow> engine_env \<Rightarrow> 's guard \<Rightarrow> 's \<Rightarrow> 'g world \<Rightarrow> 'g world \<Rightarrow> bool"
  for S env G session where
  g_fork_trunk: "fresh S w u \<Longrightarrow> few_branches w \<Longrightarrow>
    guarded_fork_trunk S G clock u w session name = Some (w', r1) \<Longrightarrow> guarded_step S env G session w w'"
| g_fork: "fresh S w u \<Longrightarrow> few_branches w \<Longrightarrow>
    guarded_fork S G clock u w session parent name = Some (w', r1) \<Longrightarrow> guarded_step S env G session w w'"
| g_merge: "guarded_merge S env G nows elapsed w session source target strategy = Some (w', r2) \<Longrightarrow>
    guarded_step S env G session w w'"
| g_commit_to_trunk: "fresh_entry S w e \<Longrightarrow>
    guarded_commit_to_trunk S env G now e elapsed w session i = (w', r3) \<Longrightarrow> guarded_step S env G session w w'"
| g_discard: "guarded_discard S G clock w session i = (w', r3) \<Longrightarrow> guarded_step S env G session w w'"
| g_simulate: "fresh S w u \<Longrightarrow> few_branches w \<Longrightarrow>
    guarded_simulate S env G clock i u elapsed w session parent scenario f = Some (w', r4) \<Longrightarrow>
    guarded_step S env G session w w'"
| g_get_metrics: "guarded_get_metrics S env G clock w session i = Some (w', r5) \<Longrightarrow> guarded_step S env G session w w'"
| g_cherry_pick: "fresh_entry S w e \<Longrightarrow>
    guarded_cherry_pick S env G now e elapsed w session source target sels message = (w', r6) \<Longrightarrow>
    guarded_step S env G session w w'"

text \<open>A session with no write access, and with no access to the metrics either.\<close>

definition no_write :: "'s guard \<Rightarrow> 's \<Rightarrow> bool" where
  "no_write G session \<longleftrightarrow> (\<forall>resource. G session ''write'' resource \<noteq> Inr Allow)"

definition measures_allowed :: "'s guard \<Rightarrow> 's \<Rightarrow> bool" where
  "measures_allowed G session \<longleftrightarrow> G session ''read'' ''branch:get_metrics'' = Inr Allow"

lemma check_eq: "check G session action resource = Inr u \<longleftrightarrow> G session action resource = Inr Allow"
  by (cases u) (simp add: check_def split: sum.split access_result.split)

lemma check_denied: "check G session action resource = Inl e \<Longrightarrow> \<exists>reason. e = PermissionDenied reason"
  by (auto simp: check_def split: sum.splits access_result.splits)

lemma no_write_check: "no_write G session \<Longrightarrow> \<exists>reason. check_write G session resource = Inl (PermissionDenied reason)"
  unfolding check_write_def no_write_def
  using check_eq [of G session "''write''" resource] check_denied [of G session "''write''" resource]
  by (cases "check G session ''write'' resource") blast+

lemma guarded_step_engine:
  assumes "guarded_step S env G session w w'"
  shows "w' = w \<or> engine_step S env w w'"
  using assms
proof (cases rule: guarded_step.cases)
  case (g_fork_trunk u clock name r)
  then show ?thesis using engine_step.trunk_forks [OF g_fork_trunk(1,2)]
    by (auto simp: guarded_fork_trunk_def split: sum.splits)
next
  case (g_fork u clock parent name r)
  then show ?thesis using engine_step.forks [OF g_fork(1,2)]
    by (auto simp: guarded_fork_def split: sum.splits)
next
  case (g_merge nows elapsed source target strategy r)
  then show ?thesis using engine_step.merges [of S env nows elapsed w source target strategy w' r]
    by (auto simp: guarded_merge_def split: sum.splits)
next
  case (g_commit_to_trunk e now elapsed i r)
  then show ?thesis using engine_step.trunk_commits [OF g_commit_to_trunk(1)]
    by (auto simp: guarded_commit_to_trunk_def split: sum.splits prod.splits)
next
  case (g_discard clock i r)
  then show ?thesis using engine_step.discards [of S clock w i w' r env]
    by (auto simp: guarded_discard_def split: sum.splits)
next
  case (g_simulate u clock i elapsed parent scenario f r)
  then show ?thesis using engine_step.simulations [OF g_simulate(1,2)]
    by (auto simp: guarded_simulate_def split: sum.splits)
next
  case (g_get_metrics clock i r)
  then show ?thesis using engine_step.measures [of S env clock w i w' r] by (auto simp: guarded_get_metrics_def split: sum.splits)
next
  case (g_cherry_pick e now elapsed source target sels message r)
  then show ?thesis using engine_step.commits [OF g_cherry_pick(1)]
    by (auto simp: guarded_cherry_pick_def engine_cherry_pick_def split: sum.splits)
qed


text \<open>So whatever the sessions and the guards, the workspace stays in order.\<close>

lemma guarded_stays_in_order:
  assumes "services_ok S" and "hash_order (en_hash env)"
    and "(\<lambda>w w'. \<exists>session. guarded_step S env G session w w')\<^sup>*\<^sup>* w w'" and "in_order S w"
  shows "in_order S w'"
  using assms(3)
proof (induction rule: rtranclp_induct)
  case base
  show ?case by (rule assms(4))
next
  case (step x y)
  then obtain session where "guarded_step S env G session x y" by blast
  from guarded_step_engine [OF this] show ?case
  proof
    assume "y = x"
    then show ?thesis using step.IH by (simp only:)
  next
    assume "engine_step S env x y"
    then show ?thesis by (rule engine_step_ok [OF assms(1,2) step.IH])
  qed
qed

section \<open>Read-only sessions\<close>

text \<open>Two worlds that differ at most in the metrics of their branches.\<close>

definition same_but_metrics :: "('g, 'h) services \<Rightarrow> 'g world \<Rightarrow> 'g world \<Rightarrow> bool" where
  "same_but_metrics S w w' \<longleftrightarrow> wd_dag w' = wd_dag w \<and> wd_disk w' = wd_disk w \<and>
     rg_commits (wd_registry w') = rg_commits (wd_registry w) \<and>
     (\<forall>i. map_option (br_metrics_update (\<lambda>_. default_metrics)) (sv_branches S w' i) =
          map_option (br_metrics_update (\<lambda>_. default_metrics)) (sv_branches S w i))"

lemma same_but_metrics_refl: "same_but_metrics S w w"
  by (simp add: same_but_metrics_def)

lemma same_but_metrics_trans: "same_but_metrics S w w1 \<Longrightarrow> same_but_metrics S w1 w2 \<Longrightarrow> same_but_metrics S w w2"
  by (simp add: same_but_metrics_def)

lemma read_only_step:
  assumes ok: "services_ok S" and w: "world_ok S w" and ho: "hash_order (en_hash env)" and n: "no_write G session"
    and s: "guarded_step S env G session w w'"
  shows "w' = w \<or> measures_allowed G session \<and> world_ok S w' \<and> same_but_metrics S w w'"
proof -
  note denied = no_write_check [OF n]
  from s show ?thesis
  proof (cases rule: guarded_step.cases)
    case g_fork_trunk
    then show ?thesis using denied [of "''branch:fork_trunk''"] by (auto simp: guarded_fork_trunk_def)
  next
    case g_fork
    then show ?thesis using denied [of "''branch:fork''"] by (auto simp: guarded_fork_def)
  next
    case g_merge
    then show ?thesis using denied [of "''branch:merge''"] by (auto simp: guarded_merge_def)
  next
    case g_commit_to_trunk
    then show ?thesis using denied [of "''branch:commit_to_trunk''"] by (auto simp: guarded_commit_to_trunk_def)
  next
    case g_discard
    then show ?thesis using denied [of "''branch:discard''"] by (auto simp: guarded_discard_def)
  next
    case g_simulate
    then show ?thesis using denied [of "''branch:simulate''"] by (auto simp: guarded_simulate_def)
  next
    case g_cherry_pick
    then show ?thesis using denied [of "''branch:cherry_pick''"] by (auto simp: guarded_cherry_pick_def)
  next
    case (g_get_metrics clock i r)
    show ?thesis
    proof (cases "check_read G session ''branch:get_metrics''")
      case (Inl e)
      then show ?thesis using g_get_metrics by (simp add: guarded_get_metrics_def)
    next
      case (Inr u)
      then have m: "measures_allowed G session" by (simp add: measures_allowed_def check_read_def check_eq)
      have "engine_metrics S env clock w i = Some (w', r)" using g_get_metrics Inr by (simp add: guarded_get_metrics_def)
      from engine_metrics_effect [OF ok w ho this] show ?thesis
      proof (elim disjE exE conjE)
        fix b m' assume b: "sv_branches S w i = Some b" "sv_branches S w' = (sv_branches S w)(i \<mapsto> b\<lparr>br_metrics := m'\<rparr>)"
          and k: "world_ok S w'" "wd_dag w' = wd_dag w" "wd_disk w' = wd_disk w"
            "rg_commits (wd_registry w') = rg_commits (wd_registry w)"
        have "same_but_metrics S w w'" unfolding same_but_metrics_def b(2) using k b(1) by simp
        then show ?thesis using m k(1) by blast
      qed simp
    qed
  qed
qed

lemma read_only_steps:
  assumes ok: "services_ok S" and ho: "hash_order (en_hash env)" and n: "no_write G session"
    and s: "(guarded_step S env G session)\<^sup>*\<^sup>* w w'" and w: "world_ok S w"
  shows "world_ok S w' \<and> same_but_metrics S w w' \<and> (\<not> measures_allowed G session \<longrightarrow> w' = w)"
  using s
proof (induction rule: rtranclp_induct)
  case base
  show ?case using w same_but_metrics_refl by simp
next
  case (step x y)
  then have x: "world_ok S x" "same_but_metrics S w x" "\<not> measures_allowed G session \<longrightarrow> x = w" by simp_all
  from read_only_step [OF ok x(1) ho n step.hyps(2)] show ?case
  proof (elim disjE conjE)
    assume "y = x"
    then show ?thesis using x by (simp only: simp_thms)
  next
    assume "measures_allowed G session" "world_ok S y" "same_but_metrics S x y"
    then show ?thesis using same_but_metrics_trans [OF x(2)] by simp
  qed
qed

section \<open>Properties\<close>

text \<open>
  C10: a session whom the guard allows no write changes, with any sequence of guarded operations, nothing but the
  metrics of branches: the lineage, every database, the commit log and every other field of every branch are
  as they were. Only \<open>get_metrics\<close>, which asks for read access, changes anything: without read access to
  it the world is the same.
\<close>

theorem guarded_read_only:
  assumes "services_ok S" and "world_ok S w" and "hash_order (en_hash env)" and "no_write G session"
    and "(guarded_step S env G session)\<^sup>*\<^sup>* w w'"
  shows "world_ok S w' \<and> same_but_metrics S w w' \<and> (\<not> measures_allowed G session \<longrightarrow> w' = w)"
  by (rule read_only_steps [OF assms(1,3,4,5,2)])

text \<open>A guard that allows reading only.\<close>

definition reader_guard :: "unit guard" where
  "reader_guard session action resource = Inr (if action = ''read'' then Allow else Deny [])"

theorem guarded_read_only_witness:
  "\<exists>w' m. guarded_get_metrics sample_services sample_env reader_guard (\<lambda>_. 0) family_world () 8 = Some (w', Inr m) \<and>
     wd_disk w' = wd_disk family_world \<and> sv_branches sample_services w' 8 = Some (child_example\<lparr>br_metrics := m\<rparr>) \<and>
     bytes_on_disk m = 2 \<and> bytes_on_disk (br_metrics child_example) = 0"
proof -
  let ?S = sample_services
  note w = family_world_spec(1)
  have ho: "hash_order (en_hash sample_env)" by (simp add: sorted_order.hash_order_axioms)
  have c: "sv_branches ?S family_world (br_id child_example) = Some child_example" unfolding family_world_spec(2) by simp
  have f: "read_file (wd_disk family_world) (br_db_path child_example) = Some ''ac''"
    by (simp add: family_world_def read_file_def)
  from refresh_spec [OF sample_services_ok w ho c f, of "\<lambda>_. 0" 0] obtain w' m where
    r: "refresh ?S (en_hash sample_env) (\<lambda>_. 0) 0 family_world child_example = Some (w', Inr m)"
      "sv_branches ?S w' = (sv_branches ?S family_world)(br_id child_example \<mapsto> child_example\<lparr>br_metrics := m\<rparr>)"
      "bytes_on_disk m = of_nat (length ''ac'')" by blast
  have "check_read reader_guard () ''branch:get_metrics'' = Inr ()"
    by (simp add: check_read_def check_eq reader_guard_def)
  then have run: "guarded_get_metrics ?S sample_env reader_guard (\<lambda>_. 0) family_world () 8 = Some (w', Inr m)"
    using r(1) by (simp add: guarded_get_metrics_def engine_metrics_def family_lookup)
  have n: "no_write reader_guard ()" by (simp add: no_write_def reader_guard_def)
  have "(guarded_step ?S sample_env reader_guard ())\<^sup>*\<^sup>* family_world w'"
    by (rule r_into_rtranclp) (rule guarded_step.g_get_metrics [OF run])
  from guarded_read_only [OF sample_services_ok w ho n this] have "wd_disk w' = wd_disk family_world"
    by (simp add: same_but_metrics_def)
  moreover have "bytes_on_disk m = 2" using r(3) by simp
  moreover have "bytes_on_disk (br_metrics child_example) = 0"
    by (simp add: child_example_def branch_at_def blank_branch_def default_metrics_def)
  ultimately show ?thesis using run r(2) by (intro exI [of _ w'] exI [of _ m]) simp
qed

end
