(* ===== verification/Scheduler.thy ===== *)
theory Scheduler
  imports Workspace
begin

text \<open>
  The background collection of \<open>src/engine.rs\<close> over time: the ticks of the task that \<open>start_gc_scheduler\<close> spawns,
  with the readings of the clock at each of them.
\<close>

primrec ticks ::
    "('g, 'h) services \<Rightarrow> engine_env \<Rightarrow> (nat \<Rightarrow> nat \<Rightarrow> datetime) \<Rightarrow> nat \<Rightarrow> 'g engine \<Rightarrow> 'g engine option" where
  "ticks S env clock 0 eg = Some eg"
| "ticks S env clock (Suc n) eg =
     (case ticks S env clock n eg of None \<Rightarrow> None | Some eg \<Rightarrow> scheduler_tick S env (clock n) 0 eg)"

text \<open>After the scheduler is stopped its ticks change nothing.\<close>

lemma ticks_stopped: "ticks S env clock n (fst (shutdown eg)) = Some (fst (shutdown eg))"
  by (induction n) (simp_all add: shutdown_def stop_gc_scheduler_def scheduler_tick_def)

lemma tick_purges:
  assumes "services_ok S" and "world_ok S (eg_world eg)" and "placed S (eg_world eg)" and "eg_gc_scheduler eg \<noteq> None"
    and "en_sub env (clock 0) (sint (cf_gc_orphan_threshold_secs (sv_config S))) = Some cutoff"
  shows "\<exists>w'. scheduler_tick S env clock elapsed eg = Some (eg\<lparr>eg_world := w'\<rparr>) \<and>
    purged S (ids_with S (eg_world eg) (should_purge cutoff)) (eg_world eg) w'"
proof -
  from gc_run_spec [where clock = clock and elapsed = elapsed and sub_secs = "en_sub env", OF assms(1-3,5)]
  obtain w' report where "gc_run S (en_sub env) clock elapsed (eg_world eg) = Some (w', Inr report)"
    "purged S (ids_with S (eg_world eg) (should_purge cutoff)) (eg_world eg) w'" by blast
  then show ?thesis using assms(4) by (auto simp: scheduler_tick_def engine_gc_def)
qed

text \<open>What the ticks do to one discarded branch: it stays until a cutoff passes it, and is purged from then on.\<close>

definition waits :: "('g, 'h) services \<Rightarrow> uuid \<Rightarrow> branch \<Rightarrow> (nat \<Rightarrow> bool) \<Rightarrow> nat \<Rightarrow> 'g engine \<Rightarrow> bool" where
  "waits S i b passed n eg \<longleftrightarrow> eg_gc_scheduler eg \<noteq> None \<and> world_ok S (eg_world eg) \<and> placed S (eg_world eg) \<and>
     (sv_branches S (eg_world eg) i = Some b \<and> (\<forall>k < n. \<not> passed k) \<or>
      (\<exists>t. sv_branches S (eg_world eg) i = Some (b\<lparr>br_status := Purged, br_updated_at := t\<rparr>) \<and>
         read_file (wd_disk (eg_world eg)) (br_db_path b) = None))"

lemma waits_tick:
  assumes ok: "services_ok S" and w: "waits S i b (\<lambda>k. t0 < cutoff k) n eg"
    and b: "br_workspace_id b = cf_workspace_id (sv_config S)" "br_status b = Discarded t0"
    and c: "en_sub env (clock 0) (sint (cf_gc_orphan_threshold_secs (sv_config S))) = Some (cutoff n)"
  shows "\<exists>eg'. scheduler_tick S env clock elapsed eg = Some eg' \<and> waits S i b (\<lambda>k. t0 < cutoff k) (Suc n) eg'"
proof -
  let ?w = "eg_world eg" and ?I = "ids_with S (eg_world eg) (should_purge (cutoff n))"
  have s: "eg_gc_scheduler eg \<noteq> None" "world_ok S ?w" "placed S ?w" using w by (simp_all add: waits_def)
  from tick_purges [where clock = clock, OF ok s(2,3,1) c] obtain w' where
    run: "scheduler_tick S env clock elapsed eg = Some (eg\<lparr>eg_world := w'\<rparr>)" and g: "purged S ?I ?w w'" by blast
  have w': "world_ok S w'" "placed S w'" using g placed_purged [OF s(3) g] by (simp_all add: purged_def)
  have "sv_branches S w' i = Some b \<and> (\<forall>k < Suc n. \<not> t0 < cutoff k) \<or>
      (\<exists>t. sv_branches S w' i = Some (b\<lparr>br_status := Purged, br_updated_at := t\<rparr>) \<and> read_file (wd_disk w') (br_db_path b) = None)"
  proof (cases "sv_branches S ?w i = Some b \<and> (\<forall>k < n. \<not> t0 < cutoff k)")
    case here: True
    show ?thesis
    proof (cases "t0 < cutoff n")
      case True
      then have i: "i \<in> ?I" using here b by (simp add: ids_with_def should_purge_def)
      have "\<exists>t. sv_branches S w' i = Some (b\<lparr>br_status := Purged, br_updated_at := t\<rparr>)"
        using g i here by (auto simp: purged_def)
      then show ?thesis using purged_database [OF ok s(3) g conjunct1 [OF here]] i by auto
    next
      case False
      then have "i \<notin> ?I" using here b by (simp add: ids_with_def should_purge_def)
      from purged_keeps [OF g this] show ?thesis using here False by (auto simp: less_Suc_eq)
    qed
  next
    case False
    then obtain t where t: "sv_branches S ?w i = Some (b\<lparr>br_status := Purged, br_updated_at := t\<rparr>)"
      "read_file (wd_disk ?w) (br_db_path b) = None" using w unfolding waits_def by blast
    have i: "i \<notin> ?I" using t(1) by (simp add: ids_with_def should_purge_def)
    then have "read_file (wd_disk w') (br_db_path b) = None" using purged_database [OF ok s(3) g t(1)] t(2) by simp
    then show ?thesis using purged_keeps [OF g i] t(1) by auto
  qed
  then have "waits S i b (\<lambda>k. t0 < cutoff k) (Suc n) (eg\<lparr>eg_world := w'\<rparr>)" using s(1) w' by (simp add: waits_def)
  then show ?thesis using run by blast
qed

text \<open>
  C11: once the scheduler is started, every discarded branch of the workspace is purged: no tick fails, and from the
  first tick whose cutoff has passed the time of the discard on, the branch is \<open>Purged\<close> and its database is gone.
\<close>

theorem scheduler_purges:
  assumes "services_ok S" and "in_order S (eg_world eg)" and "start_gc_scheduler S eg = (eg0, r)"
    and "sv_branches S (eg_world eg) i = Some b" and "br_workspace_id b = cf_workspace_id (sv_config S)"
    and "br_status b = Discarded t0"
    and "\<And>k. en_sub env (clock k 0) (sint (cf_gc_orphan_threshold_secs (sv_config S))) = Some (cutoff k)"
    and "t0 < cutoff n"
  shows "\<forall>m > n. \<exists>eg' t. ticks S env clock m eg0 = Some eg' \<and>
    sv_branches S (eg_world eg') i = Some (b\<lparr>br_status := Purged, br_updated_at := t\<rparr>) \<and>
    read_file (wd_disk (eg_world eg')) (br_db_path b) = None"
proof -
  have e0: "eg_world eg0 = eg_world eg" "eg_gc_scheduler eg0 \<noteq> None"
    using assms(3) by (auto simp: start_gc_scheduler_def split: if_splits)
  have t: "\<exists>eg'. ticks S env clock m eg0 = Some eg' \<and> waits S i b (\<lambda>k. t0 < cutoff k) m eg'" for m
  proof (induction m)
    case 0
    have "placed S (eg_world eg)" using assms(2) by (simp add: in_order_def)
    then show ?case using e0 assms(4) in_order_world [OF assms(2)] by (simp add: waits_def)
  next
    case (Suc m)
    then obtain eg' where eg': "ticks S env clock m eg0 = Some eg'" "waits S i b (\<lambda>k. t0 < cutoff k) m eg'" by blast
    from waits_tick [where clock = "clock m" and cutoff = cutoff, OF assms(1) eg'(2) assms(5,6) assms(7) [of m]] show ?case by (simp add: eg'(1))
  qed
  show ?thesis
  proof (intro allI impI)
    fix m assume m: "n < m"
    from t [of m] obtain eg' where eg': "ticks S env clock m eg0 = Some eg'" "waits S i b (\<lambda>k. t0 < cutoff k) m eg'" by blast
    have "\<not> (\<forall>k < m. \<not> t0 < cutoff k)" using m assms(8) by blast
    then show "\<exists>eg' t. ticks S env clock m eg0 = Some eg' \<and>
      sv_branches S (eg_world eg') i = Some (b\<lparr>br_status := Purged, br_updated_at := t\<rparr>) \<and>
      read_file (wd_disk (eg_world eg')) (br_db_path b) = None" using eg' unfolding waits_def by blast
  qed
qed

text \<open>An engine with a discarded branch, ticking once an hour.\<close>

lemma discarded_in_order: "in_order sample_services discarded_world"
proof -
  have nodes: "dag_nodes list_pg (wd_dag discarded_world) = {8}"
    using world_of_spec(3) [of discarded_example] by (simp add: discarded_world_def discarded_example_def blank_branch_def)
  have rel: "dag_rel list_pg (wd_dag discarded_world) = {}" by (simp add: discarded_world_def world_of_rel)
  have "{(q, i). \<exists>b. sv_branches sample_services discarded_world i = Some b \<and> br_parent_id b = Some q} = {}"
    "{i. sv_branches sample_services discarded_world i \<noteq> None} = {8}"
    unfolding discarded_world_spec(2) by (auto simp: discarded_example_def blank_branch_def)
  then have "lineage sample_services discarded_world"
    using discarded_world_spec(1) nodes rel by (simp only: lineage_def sample_services_sel simp_thms)
  then show ?thesis using discarded_world_spec(3) by (simp add: in_order_def)
qed

theorem scheduler_purges_witness:
  "\<exists>eg' b. ticks sample_services sample_env (\<lambda>k _. int k * 3600000000000) 30
      (fst (start_gc_scheduler sample_services \<lparr>eg_world = discarded_world, eg_gc_scheduler = None\<rparr>)) = Some eg' \<and>
     sv_branches sample_services (eg_world eg') 8 = Some b \<and> br_status b = Purged"
proof -
  let ?S = sample_services and ?eg = "\<lparr>eg_world = discarded_world, eg_gc_scheduler = None\<rparr>"
  let ?clock = "\<lambda>k (_ :: nat). int k * 3600000000000"
  obtain eg0 r where s: "start_gc_scheduler ?S ?eg = (eg0, r)" by force
  have o: "in_order ?S (eg_world ?eg)" by (simp add: discarded_in_order)
  have b: "sv_branches ?S (eg_world ?eg) 8 = Some discarded_example" by (simp add: discarded_world_spec(2) [simplified])
  have wb: "br_workspace_id discarded_example = cf_workspace_id (sv_config ?S)" "br_status discarded_example = Discarded 5"
    by simp_all
  have c: "en_sub sample_env (?clock k 0) (sint (cf_gc_orphan_threshold_secs (sv_config ?S))) =
      Some (int k * 3600000000000 - 86400 * 1000000000)" for k
    by (simp add: sample_env_def exact_sub_def sample_services_def default_for_workspace_def Let_def)
  have "5 < int 29 * 3600000000000 - 86400 * (1000000000 :: int)" by simp
  from scheduler_purges [where clock = ?clock and cutoff = "\<lambda>k. int k * 3600000000000 - 86400 * 1000000000",
      OF sample_services_ok o s b wb c this, rule_format, of 30]
  obtain eg' t where "ticks ?S sample_env ?clock 30 eg0 = Some eg'"
    "sv_branches ?S (eg_world eg') 8 = Some (discarded_example\<lparr>br_status := Purged, br_updated_at := t\<rparr>)" by auto
  then show ?thesis unfolding s fst_conv by (intro exI [of _ eg'] exI [of _ "discarded_example\<lparr>br_status := Purged, br_updated_at := t\<rparr>"] conjI) simp_all
qed

end
