(* ===== verification/Spec2Isabelle.thy ===== *)
theory Spec2Isabelle
  imports Naming Traversal ThreeWay Registry Transitions Collector Persist Config Formatter Guarded Scheduler
begin

text \<open>
  claw-branch keeps isolated copies ("branches") of an agent's SQLite database, with a lineage between
  them, and diffs, merges and archives them. This development models the Rust crate under
  \<open>src/src\<close> and proves what its components promise.

  \<^bold>\<open>Parts and theories.\<close> Every operation of the code is one definition with the name of the Rust function
  (a prefix such as \<open>store_\<close>, \<open>dag_\<close> or \<open>set_\<close> where that name is taken).
  \<^item> \<open>Prelude\<close>: results (\<open>Result\<close> as a sum with \<open>Inl\<close> the error), folds that stop at an error, decimal texts,
    list facts. \<open>Search\<close>: the work-list loops (\<open>while let Some(x) = stack.pop()\<close>), as partial functions, and that they
    end having visited exactly the reachable nodes. \<open>Json\<close>: \<open>serde_json::Value\<close>, objects as sorted maps.
  \<^item> \<open>Types\<close> (\<open>types.rs\<close>, \<open>error.rs\<close>): branches, statuses, diffs, merge results, errors, storage strings.
  \<^item> \<open>Naming\<close> (\<open>branch/naming.rs\<close>): name validation, slugs, the suffix search.
  \<^item> \<open>PetGraph\<close>, \<open>Dag\<close>, \<open>Traversal\<close> (\<open>dag/graph.rs\<close>, \<open>dag/traversal.rs\<close>): the lineage DAG over the interface of the
    petgraph crate (locale \<open>digraph\<close>), its node index, and the algorithms on it.
  \<^item> \<open>Entities\<close>, \<open>Diff\<close> (\<open>diff/*.rs\<close>): the entity tables of a branch database, their diff and its scores.
  \<^item> \<open>Merge\<close>, \<open>ThreeWay\<close> (\<open>merge/*.rs\<close>): conflicts, resolution, the JSON union, the transactional application,
    and the three-way merge with its preview.
  \<^item> \<open>Codecs\<close>, \<open>Store\<close>, \<open>Registry\<close> (\<open>branch/store.rs\<close>): the registry tables of the migrations and every operation
    on them; \<open>Registry\<close> states what they promise over the abstract map from identifiers to branches.
  \<^item> \<open>Config\<close> (\<open>config.rs\<close>): the builder, the defaults and the environment.
  \<^item> \<open>Snapshot\<close> (\<open>snapshot/copier.rs\<close>, \<open>verifier.rs\<close>, \<open>manifest.rs\<close>): the copies on disk with their digests.
  \<^item> \<open>Lifecycle\<close>, \<open>Transitions\<close> (\<open>branch/lifecycle.rs\<close>): trunk, fork and status changes over registry, DAG and disk;
    the state machine of the statuses and the worlds its steps reach.
  \<^item> \<open>Collector\<close> (\<open>snapshot/gc.rs\<close>): the garbage collector. \<open>Persist\<close> (\<open>dag/serializer.rs\<close>, \<open>dag/dot.rs\<close>): the lineage
    tables, the reconstruction of the graph, and the Graphviz text. \<open>Formatter\<close> (\<open>diff/formatter.rs\<close>): the texts.
  \<^item> \<open>Commit\<close> (\<open>commit/*.rs\<close>): cherry-picks, their validation, the transactional commit and its log.
    \<open>Metrics\<close> (\<open>metrics/*.rs\<close>): refresh, tracking and the report. \<open>Sandbox\<close> (\<open>sandbox/*.rs\<close>): the simulation
    environment, the runner and the recommendation; the agent is a function from the bytes of its database.
  \<^item> \<open>Engine\<close> (\<open>engine.rs\<close>): every operation of the coordinator as the composition of the components it calls, its
    construction and its builder. \<open>Workspace\<close>: the step relation of the engine over all its operations and what
    holds in every world it reaches. \<open>Scheduler\<close>: the background collection as a sequence of ticks.
    \<open>Guarded\<close> (\<open>guarded.rs\<close>): the engine behind a guard, and the steps of a session.

  \<^bold>\<open>State.\<close> The registry is a record of the three tables as lists of rows in insertion order, with texts in the
  columns that hold texts. The DAG is the petgraph value with the \<open>node_index\<close> map. The disk is a list of
  files. A \<open>world\<close> is the three together; the operations of \<open>Lifecycle\<close>, \<open>Collector\<close>, \<open>Metrics\<close>, \<open>Sandbox\<close> and
  \<open>Engine\<close> return it updated; an \<open>engine\<close> is a world and the interval of its scheduler. \<open>Merge\<close>, \<open>ThreeWay\<close> and
  \<open>Commit\<close> work on the databases as table contents: \<open>files_of\<close> reads these from the disk, and \<open>put_db\<close> writes the
  database a merge or a commit leaves back, with the bytes \<open>en_write\<close> gives it. New identifiers and
  readings of the clock are arguments (\<open>clock n\<close> is the reading that the operation takes as its n-th).

  \<^bold>\<open>Parameters.\<close> What is not under \<open>src/src\<close> is an argument of the definitions: the petgraph structure, the
  text forms of identifiers, times, JSON and paths (\<open>codec\<close>, \<open>text_codec\<close>), the row order of SQLite
  (\<open>sql_order\<close>), SQLite files and BLAKE3 (\<open>host\<close>), the iteration order of hash maps, Unicode tables, the text
  similarity of the \<open>similar\<close> crate, symbolic links and canonical paths (\<open>path_system\<close>), the subtraction of times,
  printed numbers, dates and errors (\<open>engine_env\<close>), the agent of a simulation, and the guard. What the code relies on is stated as a locale of laws, each
  interpreted on concrete functions (a list graph, decimal texts, an in-memory host), which the witnesses use.

  \<^bold>\<open>Bounds and loops.\<close> Identifiers are 128-bit words, \<open>usize\<close> and \<open>u64\<close> 64-bit words, \<open>u32\<close> 32-bit words; timestamps
  are integers (nanoseconds); \<open>f64\<close> is modelled as the reals. Loops that need an argument to end are
  partial functions returning an option, and the properties prove that they return. The suffix search
  counts in \<open>u32\<close> and returns for fewer than \<open>2 ^ 32 - 2\<close> existing slugs.

  \<^bold>\<open>What the lemmas show.\<close> Each component has its invariant (\<open>dag_wf\<close>, \<open>registry_ok\<close>, \<open>world_ok\<close>, \<open>table_ok\<close>), that every
  operation keeps it, and what each operation does on it, errors included; the properties with an identifier
  state these for the callers. \<open>Workspace.engine_lineage_correct\<close> joins them: after any sequence of operations of an
  engine made on an empty registry the DAG is the parent relation the registry records, and the lineage of a
  branch is its chain of parents. \<open>Workspace.simulate_isolated\<close>, \<open>Workspace.commit_to_trunk_correct\<close> and
  \<open>Guarded.guarded_read_only\<close> bound what an operation or a session can change; \<open>Scheduler.scheduler_purges\<close> is
  the liveness of the background collection.

  \<^bold>\<open>Not modelled.\<close> Failures of the file system and of SQLite connections, the log, locks (operations are
  serialised), derived serde implementations (with \<open>format_diff_json\<close>) and \<open>Display\<close> texts, rounding of
  floating-point numbers, tracing, the accessors of the engine and the re-exports of \<open>lib.rs\<close>.
\<close>

end
